(* ===== verification/Zip_Prelude.thy ===== *)
theory Zip_Prelude
  imports Main "HOL-Library.AList"
begin

text \<open>
  The shared vocabulary of the development: fixed-width integers of the C++ sources as natural
  numbers with the wrap-around written out, the faults a process can die with, the result type of
  every operation that may fault, associative containers, and the generic lemmas on them.

  An \<open>unsigned long\<close> or \<open>uint64_t\<close> is a \<open>nat\<close>; where an operation of the source can wrap, the model
  calls \<open>u64_add\<close>, \<open>u64_sub\<close> or \<open>u64_mul\<close>, which reduce modulo \<open>2 ^ 64\<close>; \<open>long long\<close> is an \<open>int\<close>
  reduced by \<open>s64\<close>. The value \<open>-1\<close> that the sources use as a marker is \<open>UINT64_MAX\<close>.
\<close>

named_theorems u64_simps \<open>arithmetic of the wrapping operations below their bounds\<close>
named_theorems frame_simps \<open>fields an operation does not write\<close>
named_theorems inv_intros \<open>preservation of the components' invariants\<close>

type_synonym u64 = nat
type_synonym byte = nat

subsection \<open>Fixed-width integers\<close>

definition UINT64_MAX :: u64 where
  "UINT64_MAX = 2 ^ 64 - 1"

definition u64_add :: "u64 \<Rightarrow> u64 \<Rightarrow> u64" where
  "u64_add a b = (a + b) mod 2 ^ 64"

definition u64_sub :: "u64 \<Rightarrow> u64 \<Rightarrow> u64" where
  "u64_sub a b = (a + 2 ^ 64 - b) mod 2 ^ 64"

definition u64_mul :: "u64 \<Rightarrow> u64 \<Rightarrow> u64" where
  "u64_mul a b = (a * b) mod 2 ^ 64"

definition s64 :: "int \<Rightarrow> int" where
  "s64 x = (x + 2 ^ 63) mod 2 ^ 64 - 2 ^ 63"

lemma u64_add_small [u64_simps]: "a + b < 2 ^ 64 \<Longrightarrow> u64_add a b = a + b"
  by (simp add: u64_add_def)

lemma u64_sub_small [u64_simps]: "b \<le> a \<Longrightarrow> a < 2 ^ 64 \<Longrightarrow> u64_sub a b = a - b"
  by (simp add: u64_sub_def mod_if)

lemma u64_mul_small [u64_simps]: "a * b < 2 ^ 64 \<Longrightarrow> u64_mul a b = a * b"
  by (simp add: u64_mul_def)

lemma u64_sub_0_1: "u64_sub 0 1 = UINT64_MAX"
  by (simp add: u64_sub_def UINT64_MAX_def)

lemma s64_small [u64_simps]: "- (2 ^ 63) \<le> x \<Longrightarrow> x < 2 ^ 63 \<Longrightarrow> s64 x = x"
  by (simp add: s64_def)

lemma UINT64_MAX_pos [simp]: "0 < UINT64_MAX"
  by (simp add: UINT64_MAX_def)

lemma less_UINT64_MAX_less: "x < UINT64_MAX \<Longrightarrow> x < 2 ^ 64"
  by (simp add: UINT64_MAX_def)

subsection \<open>Faults\<close>

text \<open>
  \<open>ZIP_ASSERT\<close> and its variants print and call \<open>std::exit(1)\<close>: the process is gone. The model makes
  it a value, beside the undefined behaviours that the code can run into.
\<close>

datatype fault =
    Assert_failed string
  | Null_deref
  | Out_of_bounds
  | Div_by_zero
  | Uncaught_exception string

type_synonym 'a res = "fault + 'a"

definition rbind :: "'a res \<Rightarrow> ('a \<Rightarrow> 'b res) \<Rightarrow> 'b res" where
  "rbind r f = (case r of Inl e \<Rightarrow> Inl e | Inr x \<Rightarrow> f x)"

lemma rbind_simps [simp]:
  "rbind (Inl e) f = Inl e"
  "rbind (Inr x) f = f x"
  by (simp_all add: rbind_def)

lemma rbind_eq_Inr: "rbind r f = Inr y \<longleftrightarrow> (\<exists>x. r = Inr x \<and> f x = Inr y)"
  by (cases r) auto

subsection \<open>Ordered maps\<close>

text \<open>
  A \<open>std::map\<close> is an association list sorted by its keys (iteration is in key order); a
  \<open>std::unordered_map\<close> is an association list in some order, the order of its iteration.
\<close>

fun smap_update :: "'k::linorder \<Rightarrow> 'v \<Rightarrow> ('k \<times> 'v) list \<Rightarrow> ('k \<times> 'v) list" where
  "smap_update k v [] = [(k, v)]"
| "smap_update k v ((k', v') # m) =
     (if k < k' then (k, v) # (k', v') # m
      else if k = k' then (k, v) # m
      else (k', v') # smap_update k v m)"

lemma set_smap_update_keys [simp]: "fst ` set (smap_update k v m) = insert k (fst ` set m)"
  by (induction k v m rule: smap_update.induct) auto

lemma map_of_smap_update:
  "sorted (map fst m) \<Longrightarrow> distinct (map fst m) \<Longrightarrow> map_of (smap_update k v m) = (map_of m)(k \<mapsto> v)"
proof (induction k v m rule: smap_update.induct)
  case (2 k v k' v' m)
  then show ?case
    by (auto simp: fun_eq_iff map_of_eq_None_iff dest: map_of_SomeD)
qed auto

lemma sorted_smap_update:
  "sorted (map fst m) \<Longrightarrow> distinct (map fst m) \<Longrightarrow>
   sorted (map fst (smap_update k v m)) \<and> distinct (map fst (smap_update k v m))"
proof (induction k v m rule: smap_update.induct)
  case (2 k v k' v' m)
  have keys: "set (map fst (smap_update k v m)) = insert k (set (map fst m))"
    by simp
  from 2 show ?case
    by (simp add: keys del: set_map) (auto intro: less_imp_le)
qed simp

end
