(* ===== verification/Zip_Api.thy ===== *)
theory Zip_Api
  imports Zip_Prelude
begin

text \<open>
  The wire messages of \<open>src/api/api.h\<close>: the tags of \<open>enum message_types\<close>, one constructor of
  \<open>message\<close> per packed struct with its members in order, the sizes of the packed structs and the
  \<open>length()\<close> of a message. A trailing \<open>data[0]\<close> member is the list of the bytes that follow the struct;
  its \<open>data_length\<close> is the length of that list.
\<close>

subsection \<open>Tags\<close>

datatype message_types =
    ORDER_INTRO | CLIENT_INTRO | STORAGE_INTRO | SUBSCRIBER_INTRO
  | ORDER_FINISHED | CLIENT_FINISHED | STORAGE_FINISHED | SUBSCRIBER_FINISHED
  | CLIENT_STORAGE_INFO | CLIENT_NEW_EPOCH | CLIENT_INSERT_ACK | CLIENT_HEARTBEAT
  | ORDER_CLIENT_RATE | ORDER_CLIENT_FREEZE | ORDER_CLIENT_CUT | ORDER_CLIENT_DATA
  | STORAGE_INSERT | STORAGE_SLOTS | STORAGE_CLIENT_FREEZE | STORAGE_CLIENT_CUT
  | STORAGE_CLIENT_PATCH | STORAGE_CLIENT_FINALIZE
  | SUBSCRIBER_LOG_ENTRY | SUBSCRIBER_STORAGE_INFO

fun type_value :: "message_types \<Rightarrow> u64" where
  "type_value ORDER_INTRO = 2 ^ 1"
| "type_value CLIENT_INTRO = 2 ^ 2"
| "type_value STORAGE_INTRO = 2 ^ 3"
| "type_value SUBSCRIBER_INTRO = 2 ^ 4"
| "type_value ORDER_FINISHED = 2 ^ 5"
| "type_value CLIENT_FINISHED = 2 ^ 6"
| "type_value STORAGE_FINISHED = 2 ^ 7"
| "type_value SUBSCRIBER_FINISHED = 2 ^ 8"
| "type_value CLIENT_STORAGE_INFO = 2 ^ 9"
| "type_value CLIENT_NEW_EPOCH = 2 ^ 10"
| "type_value CLIENT_INSERT_ACK = 2 ^ 11"
| "type_value CLIENT_HEARTBEAT = 2 ^ 30"
| "type_value ORDER_CLIENT_RATE = 2 ^ 12"
| "type_value ORDER_CLIENT_FREEZE = 2 ^ 13"
| "type_value ORDER_CLIENT_CUT = 2 ^ 14"
| "type_value ORDER_CLIENT_DATA = 2 ^ 15"
| "type_value STORAGE_INSERT = 2 ^ 16"
| "type_value STORAGE_SLOTS = 2 ^ 17"
| "type_value STORAGE_CLIENT_FREEZE = 2 ^ 18"
| "type_value STORAGE_CLIENT_CUT = 2 ^ 19"
| "type_value STORAGE_CLIENT_PATCH = 2 ^ 20"
| "type_value STORAGE_CLIENT_FINALIZE = 2 ^ 21"
| "type_value SUBSCRIBER_LOG_ENTRY = 2 ^ 22"
| "type_value SUBSCRIBER_STORAGE_INFO = 2 ^ 23"

subsection \<open>Messages\<close>

text \<open>An IPv4 socket address: the address and the port.\<close>

type_synonym sockaddr_in = "nat \<times> nat"

text \<open>A time point of the high resolution clock, in nanoseconds.\<close>

type_synonym time_point = int

text \<open>\<open>storage_slots::assignment\<close>: the client (\<open>UINT64_MAX\<close> if skipped) and its number of slots.\<close>

record assignment =
  as_client_id :: u64
  as_num_slots :: u64

record log_entry_msg =
  le_replica_id :: u64
  le_shard_id :: u64
  le_thread_id :: u64
  le_client_id :: u64
  le_gsn :: u64
  le_data :: "byte list"

datatype message =
    Order_intro
  | Client_intro (ci_client_id: u64) (ci_shard_id: u64) (ci_num_slots: u64)
  | Storage_intro (si_shard_id: u64) (si_replica_id: u64) (si_client_queues: u64) (si_port: nat)
  | Subscriber_intro (sui_subscriber_id: u64) (sui_num_queues: u64)
  | Order_finished
  | Client_finished (cf_client_id: u64)
  | Storage_finished (sf_shard_id: u64) (sf_replica_id: u64)
  | Subscriber_finished (suf_subscriber_id: u64)
  | Storage_insert (ins_client_id: u64) (ins_num_slots: u64) (ins_data: "byte list")
  | Client_insert_ack (ack_replica_id: u64) (ack_gsn: u64)
  | Order_client_rate (rate_client_id: u64) (rate_num_slots: u64)
  | Order_client_cut (cut_client_id: u64) (cut_shard_id: u64) (cut_replica_id: u64) (cut_latest_gsn: u64)
  | Order_client_data (cd_client_id: u64) (cd_shard_id: u64) (cd_replica_id: u64) (cd_gsn: u64)
      (cd_data: "byte list")
  | Order_client_freeze (ocf_client_id: u64)
  | Storage_slots (ss_start_gsn: u64) (ss_assignments: "assignment list")
  | Storage_client_finalize (fin_client_id: u64)
  | Storage_client_freeze (scf_client_id: u64)
  | Storage_client_cut (scc_client_id: u64) (scc_begin_gsn: u64)
  | Storage_client_patch (pat_client_id: u64) (pat_gsn: u64) (pat_data: "byte list")
  | Subscriber_log_entry (sle_entry: log_entry_msg)
  | Client_storage_info (csi_addresses: "sockaddr_in list")
  | Subscriber_storage_info (ssi_addresses: "sockaddr_in list")
  | Client_new_epoch (ne_begin: time_point) (ne_num_slots: u64)
  | Client_heartbeat (hb_id: u64)

fun msg_type :: "message \<Rightarrow> message_types" where
  "msg_type Order_intro = ORDER_INTRO"
| "msg_type (Client_intro _ _ _) = CLIENT_INTRO"
| "msg_type (Storage_intro _ _ _ _) = STORAGE_INTRO"
| "msg_type (Subscriber_intro _ _) = SUBSCRIBER_INTRO"
| "msg_type Order_finished = ORDER_FINISHED"
| "msg_type (Client_finished _) = CLIENT_FINISHED"
| "msg_type (Storage_finished _ _) = STORAGE_FINISHED"
| "msg_type (Subscriber_finished _) = SUBSCRIBER_FINISHED"
| "msg_type (Storage_insert _ _ _) = STORAGE_INSERT"
| "msg_type (Client_insert_ack _ _) = CLIENT_INSERT_ACK"
| "msg_type (Order_client_rate _ _) = ORDER_CLIENT_RATE"
| "msg_type (Order_client_cut _ _ _ _) = ORDER_CLIENT_CUT"
| "msg_type (Order_client_data _ _ _ _ _) = ORDER_CLIENT_DATA"
| "msg_type (Order_client_freeze _) = ORDER_CLIENT_FREEZE"
| "msg_type (Storage_slots _ _) = STORAGE_SLOTS"
| "msg_type (Storage_client_finalize _) = STORAGE_CLIENT_FINALIZE"
| "msg_type (Storage_client_freeze _) = STORAGE_CLIENT_FREEZE"
| "msg_type (Storage_client_cut _ _) = STORAGE_CLIENT_CUT"
| "msg_type (Storage_client_patch _ _ _) = STORAGE_CLIENT_PATCH"
| "msg_type (Subscriber_log_entry _) = SUBSCRIBER_LOG_ENTRY"
| "msg_type (Client_storage_info _) = CLIENT_STORAGE_INFO"
| "msg_type (Subscriber_storage_info _) = SUBSCRIBER_STORAGE_INFO"
| "msg_type (Client_new_epoch _ _) = CLIENT_NEW_EPOCH"
| "msg_type (Client_heartbeat _) = CLIENT_HEARTBEAT"

subsection \<open>Sizes of the packed structs\<close>

definition sizeof_message :: nat where "sizeof_message = 8"
definition sizeof_order_intro :: nat where "sizeof_order_intro = sizeof_message"
definition sizeof_client_intro :: nat where "sizeof_client_intro = sizeof_message + 8 + 8 + 8"
definition sizeof_storage_intro :: nat where "sizeof_storage_intro = sizeof_message + 8 + 8 + 8 + 2"
definition sizeof_subscriber_intro :: nat where "sizeof_subscriber_intro = sizeof_message + 8 + 8"
definition sizeof_order_finished :: nat where "sizeof_order_finished = sizeof_message"
definition sizeof_client_finished :: nat where "sizeof_client_finished = sizeof_message + 8"
definition sizeof_storage_finished :: nat where "sizeof_storage_finished = sizeof_message + 8 + 8"
definition sizeof_subscriber_finished :: nat where "sizeof_subscriber_finished = sizeof_message + 8"
definition sizeof_storage_insert :: nat where "sizeof_storage_insert = sizeof_message + 8 + 8 + 8"
definition sizeof_client_insert_ack :: nat where "sizeof_client_insert_ack = sizeof_message + 8 + 8"
definition sizeof_order_client_rate :: nat where "sizeof_order_client_rate = sizeof_message + 8 + 8"
definition sizeof_order_client_cut :: nat where
  "sizeof_order_client_cut = sizeof_message + 8 + 8 + 8 + 8"
definition sizeof_order_client_data :: nat where
  "sizeof_order_client_data = sizeof_message + 8 + 8 + 8 + 8 + 8"
definition sizeof_order_client_freeze :: nat where "sizeof_order_client_freeze = sizeof_message + 8"
definition sizeof_assignment :: nat where "sizeof_assignment = 8 + 8"
definition sizeof_storage_slots :: nat where "sizeof_storage_slots = sizeof_message + 8 + 8"
definition sizeof_storage_client_finalize :: nat where
  "sizeof_storage_client_finalize = sizeof_message + 8"
definition sizeof_storage_client_freeze :: nat where
  "sizeof_storage_client_freeze = sizeof_message + 8"
definition sizeof_storage_client_cut :: nat where
  "sizeof_storage_client_cut = sizeof_message + 8 + 8"
definition sizeof_storage_client_patch :: nat where
  "sizeof_storage_client_patch = sizeof_message + 8 + 8 + 8"
definition sizeof_subscriber_log_entry :: nat where
  "sizeof_subscriber_log_entry = sizeof_message + 8 + 8 + 8 + 8 + 8 + 8"
definition sizeof_sockaddr_in :: nat where "sizeof_sockaddr_in = 16"
definition sizeof_client_storage_info :: nat where "sizeof_client_storage_info = sizeof_message + 8"
definition sizeof_subscriber_storage_info :: nat where
  "sizeof_subscriber_storage_info = sizeof_message + 8"
definition sizeof_client_new_epoch :: nat where "sizeof_client_new_epoch = sizeof_message + 8 + 8"
definition sizeof_client_heartbeat :: nat where "sizeof_client_heartbeat = sizeof_message + 8"

lemmas sizeof_defs =
  sizeof_message_def sizeof_order_intro_def sizeof_client_intro_def sizeof_storage_intro_def
  sizeof_subscriber_intro_def sizeof_order_finished_def sizeof_client_finished_def
  sizeof_storage_finished_def sizeof_subscriber_finished_def sizeof_storage_insert_def
  sizeof_client_insert_ack_def sizeof_order_client_rate_def sizeof_order_client_cut_def
  sizeof_order_client_data_def sizeof_order_client_freeze_def sizeof_assignment_def
  sizeof_storage_slots_def sizeof_storage_client_finalize_def sizeof_storage_client_freeze_def
  sizeof_storage_client_cut_def sizeof_storage_client_patch_def sizeof_subscriber_log_entry_def
  sizeof_sockaddr_in_def sizeof_client_storage_info_def sizeof_subscriber_storage_info_def
  sizeof_client_new_epoch_def sizeof_client_heartbeat_def

fun msg_length :: "message \<Rightarrow> nat" where
  "msg_length Order_intro = sizeof_order_intro"
| "msg_length (Client_intro _ _ _) = sizeof_client_intro"
| "msg_length (Storage_intro _ _ _ _) = sizeof_storage_intro"
| "msg_length (Subscriber_intro _ _) = sizeof_subscriber_intro"
| "msg_length Order_finished = sizeof_order_finished"
| "msg_length (Client_finished _) = sizeof_client_finished"
| "msg_length (Storage_finished _ _) = sizeof_storage_finished"
| "msg_length (Subscriber_finished _) = sizeof_subscriber_finished"
| "msg_length (Storage_insert _ _ d) = sizeof_storage_insert + length d"
| "msg_length (Client_insert_ack _ _) = sizeof_client_insert_ack"
| "msg_length (Order_client_rate _ _) = sizeof_order_client_rate"
| "msg_length (Order_client_cut _ _ _ _) = sizeof_order_client_cut"
| "msg_length (Order_client_data _ _ _ _ d) = sizeof_order_client_data + length d"
| "msg_length (Order_client_freeze _) = sizeof_order_client_freeze"
| "msg_length (Storage_slots _ as) = sizeof_storage_slots + length as * sizeof_assignment"
| "msg_length (Storage_client_finalize _) = sizeof_storage_client_finalize"
| "msg_length (Storage_client_freeze _) = sizeof_storage_client_freeze"
| "msg_length (Storage_client_cut _ _) = sizeof_storage_client_cut"
| "msg_length (Storage_client_patch _ _ d) = sizeof_storage_client_patch + length d"
| "msg_length (Subscriber_log_entry e) = sizeof_subscriber_log_entry + length (le_data e)"
| "msg_length (Client_storage_info as) = sizeof_client_storage_info + sizeof_sockaddr_in * length as"
| "msg_length (Subscriber_storage_info as) =
     sizeof_subscriber_storage_info + sizeof_sockaddr_in * length as"
| "msg_length (Client_new_epoch _ _) = sizeof_client_new_epoch"
| "msg_length (Client_heartbeat _) = sizeof_client_heartbeat"

text \<open>The tags are pairwise different, so a tag names one struct.\<close>

lemma type_value_inject: "type_value a = type_value b \<longleftrightarrow> a = b"
  by (cases a; cases b; simp)

end
