(* ===== verification/Zip_Consts.thy ===== *)
theory Zip_Consts
  imports Zip_Api
begin

text \<open>
  The compile-time constants of \<open>src/util/consts.h\<close>, computed from the struct sizes as the source
  computes them, and which messages fit which send path. Only lemmas of this theory unfold
  \<open>NUM_SHARDS\<close>, \<open>NUM_ENTRIES_PER_BLOCK\<close> and \<open>MIN_SLOTS\<close>: the rest of the development holds for any
  positive value of them.
\<close>

definition HUGE_PAGE_SIZE :: nat where "HUGE_PAGE_SIZE = 2 ^ 21"
definition SEND_BUFFER_SIZE :: nat where "SEND_BUFFER_SIZE = 2 ^ 11"
definition RECEIVE_BUFFER_SIZE :: nat where "RECEIVE_BUFFER_SIZE = 2 ^ 18"
definition MAX_OUTSTANDING_REQUESTS :: nat where
  "MAX_OUTSTANDING_REQUESTS = RECEIVE_BUFFER_SIZE div SEND_BUFFER_SIZE"
definition MAX_INLINE_DATA :: nat where "MAX_INLINE_DATA = 192"
definition MAX_RECEIVE_REQUESTS :: nat where "MAX_RECEIVE_REQUESTS = 64"
definition RECEIVE_BATCH_SIZE :: nat where "RECEIVE_BATCH_SIZE = 8"
definition MESSAGE_ALIGNMENT :: nat where "MESSAGE_ALIGNMENT = 64"
definition MAX_QUEUE_PAIRS :: nat where "MAX_QUEUE_PAIRS = 2048"
definition NUM_SHARDS :: nat where "NUM_SHARDS = 1"
definition MAX_REPLICAS :: nat where "MAX_REPLICAS = 10"
definition NUM_ENTRIES_PER_BLOCK :: nat where "NUM_ENTRIES_PER_BLOCK = 1024 * 256"
definition MAX_PAYLOAD :: nat where "MAX_PAYLOAD = SEND_BUFFER_SIZE - sizeof_subscriber_log_entry"
definition MAX_CLIENTS :: nat where
  "MAX_CLIENTS = (SEND_BUFFER_SIZE - sizeof_storage_slots) div sizeof_assignment"
definition MIN_SLOTS :: nat where "MIN_SLOTS = 100"
definition DEFAULT_PORT :: nat where "DEFAULT_PORT = 6666"

text \<open>Durations, in nanoseconds.\<close>

definition EPOCH_DURATION :: int where "EPOCH_DURATION = 5000000"
definition HEARTBEAT_INTERVAL :: int where "HEARTBEAT_INTERVAL = 300000"

lemmas consts_defs =
  HUGE_PAGE_SIZE_def SEND_BUFFER_SIZE_def RECEIVE_BUFFER_SIZE_def MAX_OUTSTANDING_REQUESTS_def
  MAX_INLINE_DATA_def MAX_RECEIVE_REQUESTS_def RECEIVE_BATCH_SIZE_def MESSAGE_ALIGNMENT_def
  MAX_QUEUE_PAIRS_def NUM_SHARDS_def MAX_REPLICAS_def NUM_ENTRIES_PER_BLOCK_def MAX_PAYLOAD_def
  MAX_CLIENTS_def MIN_SLOTS_def DEFAULT_PORT_def EPOCH_DURATION_def HEARTBEAT_INTERVAL_def

lemma NUM_ENTRIES_PER_BLOCK_pos [simp]: "0 < NUM_ENTRIES_PER_BLOCK"
  by (simp add: NUM_ENTRIES_PER_BLOCK_def)

lemma NUM_SHARDS_pos [simp]: "0 < NUM_SHARDS"
  by (simp add: NUM_SHARDS_def)

lemma MIN_SLOTS_pos [simp]: "0 < MIN_SLOTS"
  by (simp add: MIN_SLOTS_def)

lemma EPOCH_DURATION_pos [simp]: "0 < EPOCH_DURATION"
  by (simp add: EPOCH_DURATION_def)

lemma MAX_CLIENTS_value: "MAX_CLIENTS = 126"
  by (simp add: consts_defs sizeof_defs)

lemma MAX_PAYLOAD_value: "MAX_PAYLOAD = 1992"
  by (simp add: consts_defs sizeof_defs)

subsection \<open>Which messages fit which send path\<close>

text \<open>What the builders of variable-size messages respect.\<close>

fun within_limits :: "message \<Rightarrow> bool" where
  "within_limits (Storage_insert _ _ d) \<longleftrightarrow> length d \<le> MAX_PAYLOAD"
| "within_limits (Order_client_data _ _ _ _ d) \<longleftrightarrow> length d \<le> MAX_PAYLOAD"
| "within_limits (Storage_client_patch _ _ d) \<longleftrightarrow> length d \<le> MAX_PAYLOAD"
| "within_limits (Subscriber_log_entry e) \<longleftrightarrow> length (le_data e) \<le> MAX_PAYLOAD"
| "within_limits (Storage_slots _ as) \<longleftrightarrow> length as \<le> MAX_CLIENTS"
| "within_limits (Client_storage_info as) \<longleftrightarrow> length as \<le> MAX_REPLICAS"
| "within_limits (Subscriber_storage_info as) \<longleftrightarrow> length as \<le> NUM_SHARDS * MAX_REPLICAS"
| "within_limits _ \<longleftrightarrow> True"

text \<open>The messages that are a struct with nothing behind it.\<close>

fun fixed_size :: "message \<Rightarrow> bool" where
  "fixed_size (Storage_insert _ _ d) \<longleftrightarrow> d = []"
| "fixed_size (Order_client_data _ _ _ _ d) \<longleftrightarrow> d = []"
| "fixed_size (Storage_client_patch _ _ d) \<longleftrightarrow> d = []"
| "fixed_size (Subscriber_log_entry e) \<longleftrightarrow> le_data e = []"
| "fixed_size (Storage_slots _ as) \<longleftrightarrow> as = []"
| "fixed_size (Client_storage_info as) \<longleftrightarrow> as = []"
| "fixed_size (Subscriber_storage_info as) \<longleftrightarrow> as = []"
| "fixed_size _ \<longleftrightarrow> True"

lemma within_limits_length: "within_limits m \<Longrightarrow> msg_length m \<le> SEND_BUFFER_SIZE"
  by (cases m) (simp_all add: consts_defs sizeof_defs)

lemma fixed_size_length: "fixed_size m \<Longrightarrow> msg_length m \<le> MAX_INLINE_DATA"
  by (cases m) (simp_all add: consts_defs sizeof_defs)

end
