(* ===== verification/Messaging.thy ===== *)
theory Messaging
  imports Zip_Consts
begin

text \<open>
  How a server's threads talk: the messages they hand to their send queues, and the dispatch of a
  received packet to the first handler whose struct has the packet's tag, as the templates \<open>apply\<close>,
  \<open>recv_apply\<close> and \<open>failure_apply\<close> of \<open>src/util/switch.h\<close> do it.
\<close>

subsection \<open>What a handler sends\<close>

datatype dest = To_order | To_storage u64 u64 | To_client u64 | To_subscriber u64

text \<open>
  One call of \<open>send_queue::send\<close>: the queue it is called on, named by the peer, the message, the
  destination receive queue of the peer and the flag \<open>synchronize\<close>.
\<close>

datatype send = Send (s_dest: dest) (s_msg: message) (s_queue: nat) (s_sync: bool)

subsection \<open>Dispatch\<close>

text \<open>
  \<open>apply\<close> reads the tag of the packet and compares the length the network reports with the one the
  message says it has. \<open>None\<close> is the warning for a tag without a handler.
\<close>

fun apply_switch :: "(message_types \<times> (message \<Rightarrow> 'a)) list \<Rightarrow> message \<Rightarrow> nat \<Rightarrow> 'a option res" where
  "apply_switch [] m len = Inr None"
| "apply_switch ((t, f) # fs) m len =
     (if type_value (msg_type m) = type_value t
      then (if len = msg_length m then Inr (Some (f m))
            else Inl (Assert_failed ''length of the received packet is invalid''))
      else apply_switch fs m len)"

text \<open>A handler changes the state of its component and sends messages, or ends the process.\<close>

type_synonym 's handler = "message \<Rightarrow> 's \<Rightarrow> ('s \<times> send list) res"

definition run_handler ::
  "(message_types \<times> 's handler) list \<Rightarrow> message \<Rightarrow> nat \<Rightarrow> 's \<Rightarrow> ('s \<times> send list) res" where
  "run_handler fs m len s =
     rbind (apply_switch fs m len) (\<lambda>r. case r of None \<Rightarrow> Inr (s, []) | Some f \<Rightarrow> f s)"

text \<open>
  Client, storage server and subscriber first connect to the ordering service and verify its answer: the
  message and the length received, if the connection succeeds.
\<close>

definition check_order_intro :: "string \<Rightarrow> (message \<times> nat) option \<Rightarrow> unit res" where
  "check_order_intro unreachable connection =
     (case connection of
        None \<Rightarrow> Inl (Assert_failed unreachable)
      | Some (m, len) \<Rightarrow>
          if len \<noteq> sizeof_order_intro then Inl (Assert_failed ''length of the received packet is invalid'')
          else if msg_type m \<noteq> ORDER_INTRO then Inl (Assert_failed ''received an unknown type of message'')
          else Inr ())"

lemma apply_switch_map_of:
  "apply_switch fs m (msg_length m) = Inr (map_option (\<lambda>f. f m) (map_of fs (msg_type m)))"
  by (induction fs) (auto simp: type_value_inject)

lemma apply_switch_length:
  "len \<noteq> msg_length m \<Longrightarrow> msg_type m \<in> fst ` set fs \<Longrightarrow>
     apply_switch fs m len = Inl (Assert_failed ''length of the received packet is invalid'')"
  by (induction fs) (force simp: type_value_inject)+

lemma run_handler_ok:
  "run_handler fs m (msg_length m) s =
     (case map_of fs (msg_type m) of None \<Rightarrow> Inr (s, []) | Some f \<Rightarrow> f m s)"
  by (cases "map_of fs (msg_type m)") (simp_all add: run_handler_def apply_switch_map_of)

lemma apply_switch_none: "msg_type m \<notin> fst ` set fs \<Longrightarrow> apply_switch fs m len = Inr None"
  by (induction fs) (force simp: type_value_inject)+

lemma run_handler_cases:
  assumes "run_handler fs m len s = Inr r"
  shows "r = (s, []) \<or> len = msg_length m \<and> (\<exists>f. map_of fs (msg_type m) = Some f \<and> f m s = Inr r)"
proof (cases "len = msg_length m")
  case True
  with assms show ?thesis by (auto simp: run_handler_ok split: option.splits)
next
  case False
  with assms apply_switch_length [OF False, of fs] apply_switch_none [of m fs len] show ?thesis
    by (cases "msg_type m \<in> fst ` set fs") (auto simp: run_handler_def)
qed

end
