(* ===== verification/Zip_Util.thy ===== *)
theory Zip_Util
  imports Zip_Consts "HOL-Library.Word"
begin

unbundle bit_operations_syntax

text \<open>
  The helpers of \<open>src/util/util.h\<close> and \<open>src/util/util.cpp\<close>: the two overloads of \<open>align\<close>, the
  wrap-around iterator over a container of buffers, and the splitting of an address.
\<close>

subsection \<open>Alignment\<close>

text \<open>
  The overload for a power of two works on the bits of the 64-bit value; the template parameter is
  the exponent here. The overload for the other moduli divides.
\<close>

definition align_word :: "nat \<Rightarrow> 64 word \<Rightarrow> 64 word" where
  "align_word k v = ((v - 1) AND NOT (2 ^ k - 1)) + 2 ^ k"

definition align_pow2 :: "nat \<Rightarrow> u64 \<Rightarrow> u64" where
  "align_pow2 k v = unat (align_word k (word_of_nat v))"

definition align :: "nat \<Rightarrow> u64 \<Rightarrow> u64" where
  "align n v = u64_mul n (u64_sub (u64_add v n) 1 div n)"

lemma unat_clear_low: "unat ((w :: 64 word) AND NOT (2 ^ k - 1)) = unat w - unat w mod 2 ^ k"
proof -
  have "w AND NOT (mask k) = push_bit k (drop_bit k w)"
    by (rule bit_eqI) (auto simp: bit_simps)
  also have "\<dots> = w - take_bit k w"
    using bits_ident [of k w] by (simp add: algebra_simps)
  finally have eq: "w AND NOT (2 ^ k - 1) = w - take_bit k w"
    by (simp add: mask_eq_exp_minus_1)
  have "unat (take_bit k w) = unat w mod 2 ^ k"
    by (simp only: unsigned_take_bit_eq) (simp add: take_bit_eq_mod)
  then have "take_bit k w \<le> w"
    by (simp add: word_le_nat_alt)
  with eq \<open>unat (take_bit k w) = unat w mod 2 ^ k\<close> show ?thesis
    by (simp add: unat_sub)
qed

lemma unat_word_64: "x < 2 ^ 64 \<Longrightarrow> unat (word_of_nat x :: 64 word) = x"
  by (simp add: unat_of_nat take_bit_nat_eq_self)

lemma round_down_up:
  assumes "0 < (n :: nat)" and "0 < v"
  shows "(v - 1) - (v - 1) mod n + n = n * ((v + n - 1) div n)"
proof -
  obtain u where v: "v = Suc u"
    using \<open>0 < v\<close> by (cases v) auto
  have "u - u mod n + n = n * (u div n) + n"
    by (simp add: minus_mod_eq_mult_div)
  moreover have "(u + n) div n = Suc (u div n)"
    using \<open>0 < n\<close> div_add_self2 [of n u] by simp
  ultimately show ?thesis
    by (simp add: v)
qed

lemma align_pow2_eq:
  assumes "v + 2 ^ k \<le> 2 ^ 63" and "0 < v" and "k < 63"
  shows "align_pow2 k v = 2 ^ k * ((v + 2 ^ k - 1) div 2 ^ k)"
proof -
  let ?w = "word_of_nat v :: 64 word"
  have v: "unat ?w = v"
    using assms by (intro unat_word_64) simp
  then have v1: "unat (?w - 1) = v - 1"
    using assms by (simp add: unat_minus_one unat_gt_0 flip: unat_gt_0)
  have k: "unat (2 ^ k :: 64 word) = 2 ^ k"
    using unat_word_64 [of "2 ^ k"] power_strict_increasing [of k 64 "2 :: nat"] \<open>k < 63\<close> by simp
  have "unat ((?w - 1) AND NOT (2 ^ k - 1)) + unat (2 ^ k :: 64 word) < 2 ^ LENGTH(64)"
    unfolding unat_clear_low v1 k using assms by simp
  then have "align_pow2 k v = (v - 1) - (v - 1) mod 2 ^ k + 2 ^ k"
    unfolding align_pow2_def align_word_def
    by (subst unat_add_lem [THEN iffD1]) (simp_all add: unat_clear_low v1 k)
  also have "\<dots> = 2 ^ k * ((v + 2 ^ k - 1) div 2 ^ k)"
    using assms by (intro round_down_up) simp_all
  finally show ?thesis .
qed

lemma align_pow2_0: "k < 64 \<Longrightarrow> align_pow2 k 0 = 0"
proof -
  have "(- 1 :: 64 word) AND NOT (2 ^ k - 1) = - (2 ^ k)"
    by (simp add: minus_exp_eq_not_mask flip: mask_eq_exp_minus_1)
  then show ?thesis
    by (simp add: align_pow2_def align_word_def)
qed

lemma align_eq:
  assumes "0 < n" and "v + n < 2 ^ 63"
  shows "align n v = n * ((v + n - 1) div n)"
proof -
  have "n * ((v + n - 1) div n) \<le> v + n - 1"
    by (rule times_div_less_eq_dividend)
  also have "\<dots> < 2 ^ 64"
    using assms by simp
  finally have "n * ((v + n - 1) div n) < 2 ^ 64" .
  with assms show ?thesis
    by (simp add: align_def u64_add_small u64_sub_small u64_mul_small)
qed

text \<open>Both overloads round up to a multiple, and by less than the modulus.\<close>

lemma round_up_bounds:
  assumes "0 < (n :: nat)"
  shows "n dvd n * ((v + n - 1) div n)" "v \<le> n * ((v + n - 1) div n)"
    "n * ((v + n - 1) div n) < v + n"
proof -
  have "(v + n - 1) = n * ((v + n - 1) div n) + (v + n - 1) mod n"
    by simp
  moreover have "(v + n - 1) mod n < n"
    using assms by simp
  ultimately show "v \<le> n * ((v + n - 1) div n)" "n * ((v + n - 1) div n) < v + n"
    using assms by linarith+
qed simp

subsection \<open>The wrap-around iterator\<close>

text \<open>
  \<open>wraparound_iterator<T>\<close> over a container of \<open>n\<close> elements; the iterator is an index, \<open>n\<close> is \<open>end()\<close>.
  The constructor starts at \<open>end()\<close>.
\<close>

record wraparound_iterator =
  wi_size :: nat
  wi_index :: nat

definition wraparound_init :: "nat \<Rightarrow> wraparound_iterator" where
  "wraparound_init n = \<lparr>wi_size = n, wi_index = n\<rparr>"

definition get_and_increment :: "wraparound_iterator \<Rightarrow> nat \<times> wraparound_iterator" where
  "get_and_increment w =
     (let i = (if wi_index w = wi_size w then 0 else wi_index w)
      in (i, w\<lparr>wi_index := Suc i\<rparr>))"

fun get_n :: "nat \<Rightarrow> wraparound_iterator \<Rightarrow> nat list \<times> wraparound_iterator" where
  "get_n 0 w = ([], w)"
| "get_n (Suc k) w =
     (let (i, w') = get_and_increment w; (is, w'') = get_n k w' in (i # is, w''))"

definition wraparound_inv :: "wraparound_iterator \<Rightarrow> bool" where
  "wraparound_inv w \<longleftrightarrow> 0 < wi_size w \<and> wi_index w \<le> wi_size w"

lemma get_and_increment_inv [inv_intros]:
  "wraparound_inv w \<Longrightarrow> wraparound_inv (snd (get_and_increment w))"
  by (auto simp: wraparound_inv_def get_and_increment_def Let_def)

lemma get_n_inv [inv_intros]: "wraparound_inv w \<Longrightarrow> wraparound_inv (snd (get_n k w))"
  using get_and_increment_inv by (induction k arbitrary: w) (auto simp: Let_def split_def)

lemma get_n_values:
  assumes "wraparound_inv w"
  shows "fst (get_n k w) = map (\<lambda>j. (wi_index w + j) mod wi_size w) [0..<k]"
  using assms
proof (induction k arbitrary: w)
  case (Suc k)
  obtain i w' where g: "get_and_increment w = (i, w')"
    by fastforce
  have i: "i = wi_index w mod wi_size w" and w': "wi_index w' = Suc i" "wi_size w' = wi_size w"
    using g Suc.prems by (auto simp: get_and_increment_def wraparound_inv_def Let_def)
  have "wraparound_inv w'"
    using get_and_increment_inv [OF Suc.prems] g by simp
  then have "fst (get_n k w') = map (\<lambda>j. (Suc i + j) mod wi_size w) [0..<k]"
    using Suc.IH w' by simp
  moreover have "(Suc i + j) mod wi_size w = (wi_index w + Suc j) mod wi_size w" for j
    unfolding i by (metis add_Suc_shift add_Suc_right mod_add_left_eq)
  ultimately have "fst (get_n k w') = map (\<lambda>j. (wi_index w + Suc j) mod wi_size w) [0..<k]"
    by simp
  then have "fst (get_n (Suc k) w) = i # map (\<lambda>j. (wi_index w + Suc j) mod wi_size w) [0..<k]"
    by (auto simp: g Let_def split: prod.splits)
  also have "\<dots> = map (\<lambda>j. (wi_index w + j) mod wi_size w) (0 # map Suc [0..<k])"
    by (simp add: i comp_def)
  finally show ?case
    by (simp only: map_Suc_upt upt_conv_Cons [of 0 "Suc k", symmetric] zero_less_Suc)
qed simp

lemma add_mod_inj:
  assumes "(a + i) mod n = (a + j) mod n" and "i < n" and "j < (n :: nat)"
  shows "i = j"
  using assms
proof (induction i j rule: linorder_wlog)
  case (le i j)
  then have "n dvd (a + j) - (a + i)"
    by (metis mod_eq_dvd_iff_nat add_le_mono1 add.commute)
  with le show ?case
    by (auto dest: dvd_imp_le)
qed simp

subsection \<open>Splitting an address\<close>

text \<open>
  \<open>std::stoi\<close> skips white space, reads an optional sign and the longest run of digits, and ignores the
  rest; without a digit it throws \<open>std::invalid_argument\<close>, and beyond the range of \<open>int\<close>
  \<open>std::out_of_range\<close>. The result is converted to \<open>uint16_t\<close>.
\<close>

definition code :: "char \<Rightarrow> nat" where
  "code c = of_char c"

definition is_space :: "char \<Rightarrow> bool" where
  "is_space c \<longleftrightarrow> code c = 32 \<or> (9 \<le> code c \<and> code c \<le> 13)"

definition is_digit :: "char \<Rightarrow> bool" where
  "is_digit c \<longleftrightarrow> 48 \<le> code c \<and> code c \<le> 57"

definition digits_value :: "string \<Rightarrow> nat" where
  "digits_value ds = foldl (\<lambda>a c. 10 * a + (code c - 48)) 0 ds"

definition stoi :: "string \<Rightarrow> int res" where
  "stoi s =
     (let t = dropWhile is_space s;
          neg = (case t of c # _ \<Rightarrow> code c = 45 | [] \<Rightarrow> False);
          u = (case t of c # r \<Rightarrow> if code c = 45 \<or> code c = 43 then r else t | [] \<Rightarrow> t);
          ds = takeWhile is_digit u;
          n = (if neg then - int (digits_value ds) else int (digits_value ds))
      in if ds = [] then Inl (Uncaught_exception ''invalid_argument'')
         else if n < - (2 ^ 31) \<or> 2 ^ 31 \<le> n then Inl (Uncaught_exception ''out_of_range'')
         else Inr n)"

definition split_address :: "string \<Rightarrow> (string \<times> nat) res" where
  "split_address address =
     (if CHR '':'' \<in> set address
      then rbind (stoi (tl (dropWhile (\<lambda>c. c \<noteq> CHR '':'') address)))
             (\<lambda>n. Inr (takeWhile (\<lambda>c. c \<noteq> CHR '':'') address, nat (n mod 2 ^ 16)))
      else Inr (address, DEFAULT_PORT))"

text \<open>Decimal notation, to state what the parser reads back.\<close>

fun decimal :: "nat \<Rightarrow> string" where
  "decimal n = (if n < 10 then [char_of (48 + n)] else decimal (n div 10) @ [char_of (48 + n mod 10)])"

declare decimal.simps [simp del]

lemma code_digit: "d < 10 \<Longrightarrow> code (char_of (48 + d)) = 48 + d"
  by (simp add: code_def of_char_of)

lemma decimal_digits: "\<forall>c \<in> set (decimal n). is_digit c"
proof (induction n rule: decimal.induct)
  case (1 n)
  then show ?case
    by (subst decimal.simps) (auto simp: is_digit_def code_digit simp del: char_of_def)
qed

lemma digits_value_decimal: "digits_value (decimal n) = n"
proof (induction n rule: decimal.induct)
  case (1 n)
  then show ?case
    by (subst decimal.simps) (auto simp: digits_value_def code_digit)
qed

lemma decimal_not_Nil: "decimal n \<noteq> []"
  by (subst decimal.simps) simp

lemma stoi_decimal:
  assumes "n < 2 ^ 31"
  shows "stoi (decimal n) = Inr (int n)"
proof -
  obtain c cs where d: "decimal n = c # cs"
    using decimal_not_Nil [of n] by (cases "decimal n") auto
  have "is_digit c" and all: "takeWhile is_digit (c # cs) = c # cs"
    using decimal_digits [of n] by (simp_all add: d)
  then have c: "\<not> is_space c" "code c \<noteq> 45" "code c \<noteq> 43"
    by (auto simp: is_digit_def is_space_def)
  have v: "digits_value (c # cs) = n"
    using digits_value_decimal [of n] by (simp add: d)
  show ?thesis
    using assms c by (simp add: stoi_def d all v Let_def del: takeWhile.simps)
qed

lemma split_address_roundtrip:
  assumes "CHR '':'' \<notin> set ip" and "port < 2 ^ 16"
  shows "split_address (ip @ CHR '':'' # decimal port) = Inr (ip, port)"
proof -
  have "takeWhile (\<lambda>c. c \<noteq> CHR '':'') (ip @ CHR '':'' # decimal port) = ip"
    and "dropWhile (\<lambda>c. c \<noteq> CHR '':'') (ip @ CHR '':'' # decimal port) = CHR '':'' # decimal port"
    using assms(1) by (simp_all add: takeWhile_append dropWhile_append)
  moreover have "nat (int port mod 2 ^ 16) = port"
    using assms(2) by simp
  ultimately show ?thesis
    using assms(2) by (simp add: split_address_def stoi_decimal)
qed

end
