(* ===== verification/Order.thy ===== *)
theory Order
  imports Messaging Zip_Util "HOL-Library.Product_Lexorder"
begin

text \<open>
  The ordering service, \<open>src/order/order.h\<close> and \<open>src/order/order.cpp\<close>: the registration of storage
  servers, clients and subscribers, the handlers of its processing loop, the recovery of a failed
  client, and the timer that sends heartbeats and starts epochs.

  Every public method and every handler runs under \<open>lock_\<close>, so an execution is a sequence of whole
  operations. A send queue is named by the peer it leads to. An \<open>unordered_map\<close> is an association list:
  the order of its iteration is the order of the list, and no theorem depends on it.
\<close>

subsection \<open>State\<close>

record client_state =
  oc_shard_id :: u64
  oc_num_slots :: u64
  oc_failed :: bool
  oc_requested :: bool
  oc_cuts :: "(u64 \<times> u64) list"
  oc_flushed :: "u64 list"
  oc_data :: "(u64 \<times> message) list"

definition client_state_new :: "u64 \<Rightarrow> u64 \<Rightarrow> client_state" where
  "client_state_new shard_id num_slots =
     \<lparr>oc_shard_id = shard_id, oc_num_slots = num_slots, oc_failed = False, oc_requested = False,
      oc_cuts = [], oc_flushed = [], oc_data = []\<rparr>"

text \<open>The members of \<open>order\<close>, and the local variables of \<open>loop\<close> behind them.\<close>

record order_state =
  os_gsn_base :: u64
  os_addresses :: "(u64 \<times> sockaddr_in) list list"
  os_queues :: "u64 list list"
  os_clients :: "(u64 \<times> client_state) list"
  os_subscribers :: "u64 list"
  os_iterator :: wraparound_iterator
  os_iterators :: "wraparound_iterator list"
  os_epoch :: time_point
  os_heartbeat :: time_point
  os_heartbeat_id :: u64
  os_suspicious :: "u64 list"

definition time_point_min :: time_point where
  "time_point_min = - (2 ^ 63)"

definition order_init :: order_state where
  "order_init =
     \<lparr>os_gsn_base = 0, os_addresses = replicate NUM_SHARDS [], os_queues = replicate NUM_SHARDS [],
      os_clients = [], os_subscribers = [],
      os_iterator = wraparound_init (MAX_OUTSTANDING_REQUESTS + 1),
      os_iterators = replicate NUM_SHARDS (wraparound_init (MAX_OUTSTANDING_REQUESTS + 1)),
      os_epoch = time_point_min, os_heartbeat = time_point_min, os_heartbeat_id = 0, os_suspicious = []\<rparr>"

subsection \<open>Registration\<close>

definition order_add_storage ::
  "u64 \<Rightarrow> u64 \<Rightarrow> sockaddr_in \<Rightarrow> order_state \<Rightarrow> (order_state \<times> send list) res" where
  "order_add_storage shard_id replica_id address s =
     (if shard_id \<ge> NUM_SHARDS \<or> replica_id \<ge> MAX_REPLICAS
         \<or> replica_id \<in> fst ` set (os_addresses s ! shard_id)
      then Inr (s, [])
      else if \<not> (os_clients s = [] \<and> os_subscribers s = [])
      then Inl (Assert_failed ''cannot add storage servers after client and subscribers'')
      else Inr (s\<lparr>os_addresses := (os_addresses s)[shard_id :=
                     os_addresses s ! shard_id @ [(replica_id, address)]],
                  os_queues := (os_queues s)[shard_id := os_queues s ! shard_id @ [replica_id]]\<rparr>, []))"

definition order_add_client ::
  "u64 \<Rightarrow> u64 \<Rightarrow> u64 \<Rightarrow> order_state \<Rightarrow> order_state \<times> send list" where
  "order_add_client client_id shard_id num_slots s =
     (if shard_id \<ge> NUM_SHARDS \<or> client_id \<ge> MAX_CLIENTS \<or> client_id \<in> fst ` set (os_clients s)
         \<or> length (os_clients s) \<ge> MAX_CLIENTS
      then (s, [])
      else (s\<lparr>os_iterator := snd (get_and_increment (os_iterator s)),
              os_clients := os_clients s @ [(client_id, client_state_new shard_id num_slots)]\<rparr>,
            [Send (To_client client_id) (Client_storage_info (map snd (os_addresses s ! shard_id))) 0 False]))"

definition order_add_subscriber :: "u64 \<Rightarrow> order_state \<Rightarrow> order_state \<times> send list" where
  "order_add_subscriber subscriber_id s =
     (if subscriber_id \<in> set (os_subscribers s) then (s, [])
      else (s\<lparr>os_iterator := snd (get_and_increment (os_iterator s)),
              os_subscribers := os_subscribers s @ [subscriber_id]\<rparr>,
            [Send (To_subscriber subscriber_id)
               (Subscriber_storage_info
                  (concat (map (\<lambda>sid. map snd (os_addresses s ! sid)) [0..<NUM_SHARDS]))) 0 False]))"

subsection \<open>The recovery of a client\<close>

definition to_replicas :: "order_state \<Rightarrow> u64 \<Rightarrow> message \<Rightarrow> bool \<Rightarrow> send list" where
  "to_replicas s shard_id m sync = map (\<lambda>rid. Send (To_storage shard_id rid) m 0 sync) (os_queues s ! shard_id)"

definition put_client :: "u64 \<Rightarrow> client_state \<Rightarrow> order_state \<Rightarrow> order_state" where
  "put_client client_id c s = s\<lparr>os_clients := AList.update client_id c (os_clients s)\<rparr>"

definition failed :: "u64 \<Rightarrow> client_state \<Rightarrow> order_state \<Rightarrow> order_state \<times> send list" where
  "failed client_id c s =
     ((put_client client_id (c\<lparr>oc_failed := True\<rparr>) s)
        \<lparr>os_suspicious := List.insert client_id (os_suspicious s)\<rparr>,
      to_replicas s (oc_shard_id c) (Storage_client_freeze client_id) False)"

definition requested :: "u64 \<Rightarrow> client_state \<Rightarrow> u64 \<Rightarrow> order_state \<Rightarrow> order_state \<times> send list" where
  "requested client_id c min_cut s =
     (put_client client_id (c\<lparr>oc_requested := True\<rparr>) s,
      to_replicas s (oc_shard_id c) (Storage_client_cut client_id min_cut) False)"

definition finalized :: "u64 \<Rightarrow> client_state \<Rightarrow> order_state \<Rightarrow> order_state \<times> send list" where
  "finalized client_id c s =
     (s\<lparr>os_clients := AList.delete client_id (os_clients s),
        os_suspicious := removeAll client_id (os_suspicious s)\<rparr>,
      (if oc_requested c
       then concat (map (\<lambda>(_, m). to_replicas s (oc_shard_id c) m False) (oc_data c)) else []) @
      to_replicas s (oc_shard_id c) (Storage_client_finalize client_id) (oc_requested c))"

text \<open>The decision once all replicas have sent their cuts; \<open>cuts\<close> is in the order of the replicas.\<close>

definition cut_min :: "(u64 \<times> u64) list \<Rightarrow> u64" where
  "cut_min cuts = snd (hd cuts)"

definition cut_max :: "(u64 \<times> u64) list \<Rightarrow> u64" where
  "cut_max cuts =
     (let max = snd (last cuts)
      in if cut_min cuts \<noteq> max \<and> max = UINT64_MAX
         then (case find (\<lambda>(_, v). v \<noteq> UINT64_MAX) (tl (rev cuts)) of Some (_, v) \<Rightarrow> v | None \<Rightarrow> max)
         else max)"

subsection \<open>The handlers\<close>

fun order_on_failure :: "order_state handler" where
  "order_on_failure (Client_intro client_id _ _) s =
     (case map_of (os_clients s) client_id of
        Some c \<Rightarrow> if \<not> oc_failed c then Inr (failed client_id c s) else Inr (s, [])
      | None \<Rightarrow> Inr (s, []))"
| "order_on_failure _ s = Inr (s, [])"

fun order_on_rate :: "order_state handler" where
  "order_on_rate (Order_client_rate client_id num_slots) s =
     (case map_of (os_clients s) client_id of
        None \<Rightarrow> Inr (s, [])
      | Some c \<Rightarrow> Inr (put_client client_id (c\<lparr>oc_num_slots := align MIN_SLOTS (max 1 num_slots)\<rparr>) s, []))"
| "order_on_rate _ s = Inr (s, [])"

fun order_on_client_finished :: "order_state handler" where
  "order_on_client_finished (Client_finished client_id) s =
     (case map_of (os_clients s) client_id of
        None \<Rightarrow> Inr (s, [])
      | Some c \<Rightarrow>
          (let (s', out) = finalized client_id c s
           in Inr (s', Send (To_client client_id) Order_finished 0 True # out)))"
| "order_on_client_finished _ s = Inr (s, [])"

fun order_on_subscriber_finished :: "order_state handler" where
  "order_on_subscriber_finished (Subscriber_finished subscriber_id) s =
     (if subscriber_id \<notin> set (os_subscribers s) then Inr (s, [])
      else Inr (s\<lparr>os_subscribers := removeAll subscriber_id (os_subscribers s)\<rparr>,
                [Send (To_subscriber subscriber_id) Order_finished 0 True]))"
| "order_on_subscriber_finished _ s = Inr (s, [])"

fun order_on_freeze :: "order_state handler" where
  "order_on_freeze (Order_client_freeze client_id) s =
     (case map_of (os_clients s) client_id of
        None \<Rightarrow> Inr (s, [])
      | Some c \<Rightarrow> if \<not> oc_failed c then Inr (failed client_id c s) else Inr (s, []))"
| "order_on_freeze _ s = Inr (s, [])"

fun order_on_cut :: "order_state handler" where
  "order_on_cut (Order_client_cut client_id shard_id replica_id latest_gsn) s =
     (case map_of (os_clients s) client_id of
        None \<Rightarrow> Inr (s, [])
      | Some c \<Rightarrow>
          if \<not> oc_failed c then Inr (s, [])
          else if oc_shard_id c \<noteq> shard_id \<or> replica_id \<in> fst ` set (oc_cuts c) then Inr (s, [])
          else
            (let c' = c\<lparr>oc_cuts := smap_update replica_id latest_gsn (oc_cuts c)\<rparr>;
                 s' = put_client client_id c' s
             in if \<not> oc_requested c' \<and> length (oc_cuts c') = length (os_queues s ! oc_shard_id c)
                then (if cut_min (oc_cuts c') = cut_max (oc_cuts c')
                      then Inr (finalized client_id c' s')
                      else Inr (requested client_id c' (cut_min (oc_cuts c')) s'))
                else Inr (s', [])))"
| "order_on_cut _ s = Inr (s, [])"

fun order_on_data :: "order_state handler" where
  "order_on_data (Order_client_data client_id shard_id replica_id gsn bytes) s =
     (case map_of (os_clients s) client_id of
        None \<Rightarrow> Inr (s, [])
      | Some c \<Rightarrow>
          if \<not> oc_requested c then Inr (s, [])
          else if oc_shard_id c \<noteq> shard_id \<or> replica_id \<in> set (oc_flushed c) then Inr (s, [])
          else if gsn = UINT64_MAX
          then (let c' = c\<lparr>oc_flushed := List.insert replica_id (oc_flushed c)\<rparr>;
                    s' = put_client client_id c' s
                in if length (oc_flushed c') = length (os_queues s ! oc_shard_id c)
                   then Inr (finalized client_id c' s') else Inr (s', []))
          else if gsn \<notin> fst ` set (oc_data c)
          then Inr (put_client client_id
                      (c\<lparr>oc_data := smap_update gsn (Storage_client_patch client_id gsn bytes) (oc_data c)\<rparr>) s, [])
          else Inr (s, []))"
| "order_on_data _ s = Inr (s, [])"

definition order_handlers :: "(message_types \<times> order_state handler) list" where
  "order_handlers =
     [(ORDER_CLIENT_RATE, order_on_rate), (CLIENT_FINISHED, order_on_client_finished),
      (SUBSCRIBER_FINISHED, order_on_subscriber_finished), (ORDER_CLIENT_FREEZE, order_on_freeze),
      (ORDER_CLIENT_CUT, order_on_cut), (ORDER_CLIENT_DATA, order_on_data)]"

definition order_failure_handlers :: "(message_types \<times> order_state handler) list" where
  "order_failure_handlers = [(CLIENT_INTRO, order_on_failure)]"

subsection \<open>The timer\<close>

definition send_heartbeats :: "time_point \<Rightarrow> order_state \<Rightarrow> order_state \<times> send list" where
  "send_heartbeats now s =
     (s\<lparr>os_heartbeat_id := u64_add (os_heartbeat_id s) 1, os_heartbeat := now + HEARTBEAT_INTERVAL\<rparr>,
      map (\<lambda>(cid, _). Send (To_client cid) (Client_heartbeat (os_heartbeat_id s)) 0 False)
        (filter (\<lambda>(cid, _). cid \<notin> set (os_suspicious s)) (os_clients s)))"

definition active_clients :: "order_state \<Rightarrow> (u64 \<times> client_state) list" where
  "active_clients s = filter (\<lambda>(_, c). \<not> oc_failed c) (os_clients s)"

text \<open>The tuples of slots, shard and client, in decreasing order.\<close>

definition epoch_slots :: "order_state \<Rightarrow> (u64 \<times> u64 \<times> u64) list" where
  "epoch_slots s = rev (sort (map (\<lambda>(cid, c). (oc_num_slots c, oc_shard_id c, cid)) (active_clients s)))"

definition epoch_total :: "order_state \<Rightarrow> u64" where
  "epoch_total s = foldl u64_add 0 (map (\<lambda>(_, c). oc_num_slots c) (active_clients s))"

definition shard_assignments :: "u64 \<Rightarrow> (u64 \<times> u64 \<times> u64) list \<Rightarrow> assignment list" where
  "shard_assignments sid =
     map (\<lambda>(num, csid, cid). \<lparr>as_client_id = (if csid \<noteq> sid then UINT64_MAX else cid), as_num_slots = num\<rparr>)"

definition start_epoch :: "time_point \<Rightarrow> order_state \<Rightarrow> order_state \<times> send list" where
  "start_epoch now s =
     (s\<lparr>os_iterators := map (\<lambda>w. snd (get_and_increment w)) (os_iterators s),
        os_epoch := now + EPOCH_DURATION, os_gsn_base := u64_add (os_gsn_base s) (epoch_total s)\<rparr>,
      map (\<lambda>(cid, c). Send (To_client cid) (Client_new_epoch (now + EPOCH_DURATION) (oc_num_slots c)) 0 False)
        (active_clients s) @
      concat (map (\<lambda>sid. to_replicas s sid
                     (Storage_slots (os_gsn_base s) (shard_assignments sid (epoch_slots s))) False)
        [0..<NUM_SHARDS]))"

definition order_tick :: "time_point \<Rightarrow> order_state \<Rightarrow> order_state \<times> send list" where
  "order_tick now s =
     (if now > os_heartbeat s then send_heartbeats now s
      else if now > os_epoch s then start_epoch now s
      else (s, []))"

subsection \<open>The accept loop\<close>

text \<open>
  \<open>start_order\<close> of \<open>src/order/main.cpp\<close>: the first message of an accepted connection says what the
  peer is; the address of a storage server is the address of the connection with the announced port.
\<close>

fun order_on_client_intro :: "order_state handler" where
  "order_on_client_intro (Client_intro client_id shard_id num_slots) s =
     Inr (order_add_client client_id shard_id num_slots s)"
| "order_on_client_intro _ s = Inr (s, [])"

fun order_on_subscriber_intro :: "order_state handler" where
  "order_on_subscriber_intro (Subscriber_intro subscriber_id _) s =
     Inr (order_add_subscriber subscriber_id s)"
| "order_on_subscriber_intro _ s = Inr (s, [])"

fun order_on_storage_intro :: "sockaddr_in \<Rightarrow> order_state handler" where
  "order_on_storage_intro address (Storage_intro shard_id replica_id _ port) s =
     order_add_storage shard_id replica_id (fst address, port) s"
| "order_on_storage_intro address _ s = Inr (s, [])"

definition order_accept_handlers :: "sockaddr_in \<Rightarrow> (message_types \<times> order_state handler) list" where
  "order_accept_handlers address =
     [(CLIENT_INTRO, order_on_client_intro), (SUBSCRIBER_INTRO, order_on_subscriber_intro),
      (STORAGE_INTRO, order_on_storage_intro address)]"

subsection \<open>Executions\<close>

datatype order_event =
    Accepted sockaddr_in message nat
  | Peer_failed message nat
  | Received message nat
  | Timer time_point

fun order_handle :: "order_event \<Rightarrow> order_state \<Rightarrow> (order_state \<times> send list) res" where
  "order_handle (Accepted address m len) s = run_handler (order_accept_handlers address) m len s"
| "order_handle (Peer_failed m len) s = run_handler order_failure_handlers m len s"
| "order_handle (Received m len) s = run_handler order_handlers m len s"
| "order_handle (Timer now) s = Inr (order_tick now s)"

inductive order_run :: "order_state \<Rightarrow> send list \<Rightarrow> bool" where
  order_start: "order_run order_init []"
| order_step: "order_run s out \<Longrightarrow> order_handle ev s = Inr (s', out') \<Longrightarrow> order_run s' (out @ out')"

end
