(* ===== verification/Order_Facts.thy ===== *)
theory Order_Facts
  imports Order
begin

text \<open>
  The invariant of the ordering service, the contents of an epoch's messages, and the recovery of a
  failed client.
\<close>

subsection \<open>The invariant\<close>

text \<open>
  Recovery data exists only for the phases that collect it: cuts once the client has failed, flushes
  and patches once its data has been requested.
\<close>

definition client_ok :: "u64 \<Rightarrow> client_state \<Rightarrow> bool" where
  "client_ok cid c \<longleftrightarrow>
     cid < MAX_CLIENTS \<and> oc_shard_id c < NUM_SHARDS \<and>
     (oc_requested c \<longrightarrow> oc_failed c) \<and>
     (\<not> oc_failed c \<longrightarrow> oc_cuts c = []) \<and>
     (\<not> oc_requested c \<longrightarrow> oc_flushed c = [] \<and> oc_data c = []) \<and>
     sorted (map fst (oc_cuts c)) \<and> distinct (map fst (oc_cuts c)) \<and> distinct (oc_flushed c) \<and>
     sorted (map fst (oc_data c)) \<and> distinct (map fst (oc_data c)) \<and>
     (\<forall>(g, m) \<in> set (oc_data c). g \<noteq> UINT64_MAX \<and> (\<exists>d. m = Storage_client_patch cid g d))"

definition shards_ok :: "order_state \<Rightarrow> bool" where
  "shards_ok s \<longleftrightarrow>
     length (os_addresses s) = NUM_SHARDS \<and> length (os_queues s) = NUM_SHARDS \<and>
     (\<forall>sid < NUM_SHARDS. map fst (os_addresses s ! sid) = os_queues s ! sid \<and> distinct (os_queues s ! sid) \<and>
        (\<forall>rid \<in> set (os_queues s ! sid). rid < MAX_REPLICAS))"

definition clients_ok :: "order_state \<Rightarrow> bool" where
  "clients_ok s \<longleftrightarrow>
     distinct (map fst (os_clients s)) \<and>
     (\<forall>cid c. map_of (os_clients s) cid = Some c \<longrightarrow> client_ok cid c) \<and>
     distinct (os_suspicious s) \<and>
     set (os_suspicious s) = {cid. \<exists>c. map_of (os_clients s) cid = Some c \<and> oc_failed c}"

definition order_inv :: "order_state \<Rightarrow> bool" where
  "order_inv s \<longleftrightarrow>
     shards_ok s \<and> clients_ok s \<and> distinct (os_subscribers s) \<and>
     wraparound_inv (os_iterator s) \<and> length (os_iterators s) = NUM_SHARDS \<and>
     (\<forall>w \<in> set (os_iterators s). wraparound_inv w)"

lemma order_inv_init: "order_inv order_init"
  by (simp add: order_inv_def order_init_def shards_ok_def clients_ok_def wraparound_inv_def wraparound_init_def)

lemma shards_ok_cong:
  "os_addresses s' = os_addresses s \<Longrightarrow> os_queues s' = os_queues s \<Longrightarrow> shards_ok s' \<longleftrightarrow> shards_ok s"
  by (simp add: shards_ok_def)

lemma clients_ok_cong:
  "os_clients s' = os_clients s \<Longrightarrow> os_suspicious s' = os_suspicious s \<Longrightarrow> clients_ok s' \<longleftrightarrow> clients_ok s"
  by (simp add: clients_ok_def)

lemma put_client_frame [frame_simps]:
  "os_queues (put_client cid c s) = os_queues s" "os_addresses (put_client cid c s) = os_addresses s"
  "os_subscribers (put_client cid c s) = os_subscribers s" "os_iterator (put_client cid c s) = os_iterator s"
  "os_iterators (put_client cid c s) = os_iterators s" "os_suspicious (put_client cid c s) = os_suspicious s"
  "os_gsn_base (put_client cid c s) = os_gsn_base s"
  "map_of (os_clients (put_client cid c s)) = (map_of (os_clients s))(cid \<mapsto> c)"
  by (simp_all add: put_client_def update_conv')

lemma put_client_inv [inv_intros]:
  assumes "order_inv s" and "map_of (os_clients s) cid = Some c" and "client_ok cid c'"
    and "oc_failed c' = oc_failed c"
  shows "order_inv (put_client cid c' s)"
  using assms by (auto simp: order_inv_def clients_ok_def shards_ok_def put_client_def update_conv' distinct_update
      simp del: map_of_eq_Some_iff)

lemma failed_inv [inv_intros]:
  assumes "order_inv s" and "map_of (os_clients s) cid = Some c"
  shows "order_inv (fst (failed cid c s))"
proof -
  have "client_ok cid (c\<lparr>oc_failed := True\<rparr>)"
    using assms unfolding order_inv_def clients_ok_def client_ok_def by force
  with assms show ?thesis
    by (auto simp: order_inv_def clients_ok_def shards_ok_def failed_def put_client_def update_conv'
        distinct_update split: if_splits)
qed

lemma finalized_inv [inv_intros]:
  assumes "order_inv s"
  shows "order_inv (fst (finalized cid c s))"
  using assms
  by (auto simp: order_inv_def clients_ok_def shards_ok_def finalized_def delete_conv' distinct_delete
      distinct_removeAll split: if_splits)

lemma client_ok_of: "order_inv s \<Longrightarrow> map_of (os_clients s) cid = Some c \<Longrightarrow> client_ok cid c"
  by (simp add: order_inv_def clients_ok_def)

lemma requested_inv [inv_intros]:
  assumes "order_inv s" and "map_of (os_clients s) cid = Some c" and "oc_failed c"
  shows "order_inv (fst (requested cid c g s))"
proof -
  have "client_ok cid (c\<lparr>oc_requested := True\<rparr>)"
    using client_ok_of [OF assms(1,2)] assms(3) by (simp add: client_ok_def)
  with assms show ?thesis
    by (simp add: requested_def put_client_inv)
qed

lemma order_add_storage_inv:
  assumes "order_inv s" and "order_add_storage shard rid addr s = Inr (s', out)"
  shows "order_inv s'"
proof (cases "s' = s")
  case False
  with assms(2) have *: "shard < NUM_SHARDS" "rid < MAX_REPLICAS" "rid \<notin> fst ` set (os_addresses s ! shard)"
    and s': "s' = s\<lparr>os_addresses := (os_addresses s)[shard := os_addresses s ! shard @ [(rid, addr)]],
                  os_queues := (os_queues s)[shard := os_queues s ! shard @ [rid]]\<rparr>"
    by (auto simp: order_add_storage_def split: if_splits)
  have "map fst (os_addresses s ! shard) = os_queues s ! shard"
    using assms(1) *(1) by (simp add: order_inv_def shards_ok_def)
  then have "rid \<notin> set (os_queues s ! shard)"
    using *(3) by (metis list.set_map)
  with assms(1) * show ?thesis
    unfolding s' by (auto simp: order_inv_def shards_ok_def clients_ok_def nth_list_update)
qed (use assms in simp)

lemma order_add_client_inv:
  assumes "order_inv s"
  shows "order_inv (fst (order_add_client cid shard num s))"
proof (cases "fst (order_add_client cid shard num s) = s")
  case False
  then have *: "shard < NUM_SHARDS" "cid < MAX_CLIENTS" "cid \<notin> fst ` set (os_clients s)"
    by (auto simp: order_add_client_def split: if_splits)
  then have "map_of (os_clients s) cid = None"
    by (simp add: map_of_eq_None_iff)
  with assms * show ?thesis
    by (auto simp: order_inv_def shards_ok_def clients_ok_def order_add_client_def map_add_def
        client_ok_def client_state_new_def get_and_increment_inv split: option.splits)
qed (use assms in simp)

lemma order_add_subscriber_inv: "order_inv s \<Longrightarrow> order_inv (fst (order_add_subscriber sid s))"
  by (auto simp: order_inv_def shards_ok_def clients_ok_def order_add_subscriber_def get_and_increment_inv)

lemma cut_client_ok:
  assumes "client_ok cid c" and "oc_failed c"
  shows "client_ok cid (c\<lparr>oc_cuts := smap_update rid g (oc_cuts c)\<rparr>)"
  using assms sorted_smap_update [of "oc_cuts c" rid g] by (simp add: client_ok_def)

lemma set_smap_update_subset: "set (smap_update k v m) \<subseteq> insert (k, v) (set m)"
  by (induction k v m rule: smap_update.induct) auto

lemma data_client_ok:
  assumes "client_ok cid c" and "oc_requested c" and "g \<noteq> UINT64_MAX"
  shows "client_ok cid (c\<lparr>oc_data := smap_update g (Storage_client_patch cid g d) (oc_data c)\<rparr>)"
proof -
  let ?m = "Storage_client_patch cid g d"
  have "\<forall>(g', m) \<in> set (smap_update g ?m (oc_data c)). g' \<noteq> UINT64_MAX \<and> (\<exists>d. m = Storage_client_patch cid g' d)"
    using assms set_smap_update_subset [of g ?m "oc_data c"] by (auto simp: client_ok_def)
  then show ?thesis
    using assms sorted_smap_update [of "oc_data c" g ?m] by (simp add: client_ok_def)
qed

lemma flush_client_ok:
  assumes "client_ok cid c" and "oc_requested c"
  shows "client_ok cid (c\<lparr>oc_flushed := List.insert rid (oc_flushed c)\<rparr>)"
  using assms by (simp add: client_ok_def)

lemma order_on_cut_inv:
  assumes inv: "order_inv s" and run: "order_on_cut m s = Inr (s', out)"
  shows "order_inv s'"
proof (cases m)
  case (Order_client_cut cid sh rid g)
  show ?thesis
  proof (cases "map_of (os_clients s) cid")
    case (Some c)
    let ?c' = "c\<lparr>oc_cuts := smap_update rid g (oc_cuts c)\<rparr>"
    let ?s' = "put_client cid ?c' s"
    have at: "map_of (os_clients ?s') cid = Some ?c'"
      by (simp add: frame_simps)
    have put: "order_inv ?s'" if "oc_failed c"
      using cut_client_ok [OF client_ok_of [OF inv Some] that] by (intro put_client_inv [OF inv Some]) simp_all
    have "s' = s \<or> oc_failed c \<and> (s' = ?s' \<or> s' = fst (finalized cid ?c' ?s') \<or>
        s' = fst (requested cid ?c' (cut_min (oc_cuts ?c')) ?s'))"
      using run by (auto simp: Order_client_cut Some Let_def split: if_splits)
    with inv put finalized_inv [of ?s' cid ?c'] requested_inv [OF _ at] show ?thesis
      by auto
  qed (use assms in \<open>simp add: Order_client_cut\<close>)
qed (use assms in simp_all)

lemma order_on_data_inv:
  assumes inv: "order_inv s" and run: "order_on_data m s = Inr (s', out)"
  shows "order_inv s'"
proof (cases m)
  case (Order_client_data cid sh rid g d)
  show ?thesis
  proof (cases "map_of (os_clients s) cid")
    case (Some c)
    let ?c1 = "c\<lparr>oc_flushed := List.insert rid (oc_flushed c)\<rparr>"
    let ?c2 = "c\<lparr>oc_data := smap_update g (Storage_client_patch cid g d) (oc_data c)\<rparr>"
    note ok = client_ok_of [OF inv Some]
    have put1: "order_inv (put_client cid ?c1 s)" if "oc_requested c"
      using flush_client_ok [OF ok that] by (intro put_client_inv [OF inv Some]) simp_all
    have put2: "order_inv (put_client cid ?c2 s)" if "oc_requested c" "g \<noteq> UINT64_MAX"
      using data_client_ok [OF ok that] by (intro put_client_inv [OF inv Some]) simp_all
    have "s' = s \<or> oc_requested c \<and> (s' = put_client cid ?c1 s \<or>
        s' = fst (finalized cid ?c1 (put_client cid ?c1 s)) \<or> g \<noteq> UINT64_MAX \<and> s' = put_client cid ?c2 s)"
      using run by (auto simp: Order_client_data Some Let_def split: if_splits)
    with inv put1 put2 finalized_inv [of "put_client cid ?c1 s" cid ?c1] show ?thesis
      by auto
  qed (use assms in \<open>simp add: Order_client_data\<close>)
qed (use assms in simp_all)

lemma order_on_rate_inv:
  assumes inv: "order_inv s" and run: "order_on_rate m s = Inr (s', out)"
  shows "order_inv s'"
proof (cases m)
  case (Order_client_rate cid num)
  show ?thesis
  proof (cases "map_of (os_clients s) cid")
    case (Some c)
    have "client_ok cid (c\<lparr>oc_num_slots := align MIN_SLOTS (max 1 num)\<rparr>)"
      using client_ok_of [OF inv Some] by (simp add: client_ok_def)
    then have "order_inv (put_client cid (c\<lparr>oc_num_slots := align MIN_SLOTS (max 1 num)\<rparr>) s)"
      by (intro put_client_inv [OF inv Some]) simp_all
    with run show ?thesis
      by (simp add: Order_client_rate Some)
  qed (use assms in \<open>simp add: Order_client_rate\<close>)
qed (use assms in simp_all)

lemma failed_inv':
  "order_inv s \<Longrightarrow> map_of (os_clients s) cid = Some c \<Longrightarrow> failed cid c s = (s', out) \<Longrightarrow> order_inv s'"
  by (metis failed_inv fst_conv)

lemma finalized_inv': "order_inv s \<Longrightarrow> finalized cid c s = (s', out) \<Longrightarrow> order_inv s'"
  by (metis finalized_inv fst_conv)

lemma order_on_simple_inv:
  assumes inv: "order_inv s"
  shows "order_on_failure m s = Inr (s', out) \<Longrightarrow> order_inv s'"
    and "order_on_freeze m s = Inr (s', out) \<Longrightarrow> order_inv s'"
    and "order_on_client_finished m s = Inr (s', out) \<Longrightarrow> order_inv s'"
    and "order_on_subscriber_finished m s = Inr (s', out) \<Longrightarrow> order_inv s'"
proof -
  show "order_on_failure m s = Inr (s', out) \<Longrightarrow> order_inv s'"
    using inv failed_inv' [OF inv] by (cases m) (auto split: option.splits if_splits)
  show "order_on_freeze m s = Inr (s', out) \<Longrightarrow> order_inv s'"
    using inv failed_inv' [OF inv] by (cases m) (auto split: option.splits if_splits)
  show "order_on_client_finished m s = Inr (s', out) \<Longrightarrow> order_inv s'"
    using inv finalized_inv' [OF inv] by (cases m) (auto simp: Let_def split: option.splits prod.splits)
  show "order_on_subscriber_finished m s = Inr (s', out) \<Longrightarrow> order_inv s'"
    using inv by (cases m) (auto simp: order_inv_def shards_ok_def clients_ok_def distinct_removeAll split: if_splits)
qed

lemma order_tick_inv: "order_inv s \<Longrightarrow> order_inv (fst (order_tick now s))"
  by (auto simp: order_tick_def send_heartbeats_def start_epoch_def order_inv_def shards_ok_def clients_ok_def
      get_and_increment_inv)

lemma order_accept_inv:
  assumes inv: "order_inv s" and run: "run_handler (order_accept_handlers addr) m len s = Inr (s', out)"
  shows "order_inv s'"
proof -
  have "order_add_client cid sh num s = (s', out) \<Longrightarrow> order_inv s'" for cid sh num
    using order_add_client_inv [OF inv] by (metis fst_conv)
  moreover have "order_add_subscriber sid s = (s', out) \<Longrightarrow> order_inv s'" for sid
    using order_add_subscriber_inv [OF inv] by (metis fst_conv)
  ultimately show ?thesis
    using run order_add_storage_inv [OF inv] inv
    by (cases m) (auto simp: run_handler_def order_accept_handlers_def type_value_inject split: if_splits)
qed

lemmas order_handler_inv = order_on_rate_inv order_on_cut_inv order_on_data_inv order_on_simple_inv

lemma order_receive_inv:
  assumes inv: "order_inv s" and run: "run_handler order_handlers m len s = Inr (s', out)"
  shows "order_inv s'"
  using run inv order_handler_inv [OF inv, of m s' out]
  by (auto simp: run_handler_def order_handlers_def simp del: order_on_rate.simps order_on_cut.simps
      order_on_data.simps order_on_freeze.simps order_on_client_finished.simps
      order_on_subscriber_finished.simps split: if_splits)

lemma order_failure_inv:
  assumes inv: "order_inv s" and run: "run_handler order_failure_handlers m len s = Inr (s', out)"
  shows "order_inv s'"
  using run inv order_on_simple_inv(1) [OF inv, of m s' out]
  by (auto simp: run_handler_def order_failure_handlers_def simp del: order_on_failure.simps split: if_splits)

lemma order_handle_inv: "order_inv s \<Longrightarrow> order_handle ev s = Inr (s', out) \<Longrightarrow> order_inv s'"
proof (cases ev)
  case (Timer now)
  then show "order_inv s \<Longrightarrow> order_handle ev s = Inr (s', out) \<Longrightarrow> order_inv s'"
    using order_tick_inv [of s now] by simp
qed (auto intro: order_accept_inv order_receive_inv order_failure_inv)

lemma order_run_inv: "order_run s out \<Longrightarrow> order_inv s"
  by (induction rule: order_run.induct) (auto intro: order_inv_init order_handle_inv)

subsection \<open>Properties\<close>

text \<open>
  C21. In every state the ordering service reaches, every client belongs to a shard, recovery data exists only for the
  phase that collects it and is sorted by its keys, the suspected clients are exactly the failed ones, and every
  replica has an address and a send queue.
\<close>

theorem order_reachable_ok: "order_run s out \<Longrightarrow> order_inv s"
  by (rule order_run_inv)

theorem order_reachable_ok_witness:
  "\<exists>s out. order_handle (Accepted (9, 1) (Client_intro 5 0 100) 32) order_init = Inr (s, out) \<and> order_inv s \<and> map fst (os_clients s) = [5]"
proof -
  obtain s out where s: "order_handle (Accepted (9, 1) (Client_intro 5 0 100) 32) order_init = Inr (s, out)"
    and c: "map fst (os_clients s) = [5]"
    by (simp add: run_handler_def order_accept_handlers_def sizeof_defs order_add_client_def order_init_def MAX_CLIENTS_value
        NUM_SHARDS_def Let_def)
  from order_reachable_ok [OF order_step [OF order_start s]] s c show ?thesis
    by (intro exI [of _ s] exI [of _ out]) (simp del: order_handle.simps)
qed

end
