(* ===== verification/Storage_Log_Facts.thy ===== *)
theory Storage_Log_Facts
  imports Storage_Log
begin

text \<open>
  The invariant of the storage log and what each of its operations does, in terms of the sequence of
  slots it holds and of the slots of one client in it.
\<close>

subsection \<open>The abstract view\<close>

definition ptr_of :: "nat \<Rightarrow> ptr" where
  "ptr_of i = (i div NUM_ENTRIES_PER_BLOCK, i mod NUM_ENTRIES_PER_BLOCK)"

definition ent :: "log \<Rightarrow> nat \<Rightarrow> entry" where
  "ent l i = l_heap l (ptr_of i)"

definition log_slots :: "log \<Rightarrow> (u64 \<times> u64) list" where
  "log_slots l = map (\<lambda>i. (e_client_id (ent l i), e_gsn (ent l i))) [0..<l_current_entries l]"

text \<open>The indices of the slots of a client, in order.\<close>

definition cidx :: "log \<Rightarrow> u64 \<Rightarrow> nat list" where
  "cidx l c = filter (\<lambda>i. e_client_id (ent l i) = c) [0..<l_current_entries l]"

definition linked :: "log \<Rightarrow> u64 \<Rightarrow> bool" where
  "linked l c \<longleftrightarrow>
     (\<forall>k < length (cidx l c).
        e_next (ent l (cidx l c ! k)) =
          (if Suc k < length (cidx l c) then Some (ptr_of (cidx l c ! Suc k)) else None) \<and>
        e_prev (ent l (cidx l c ! k)) =
          (if k = 0 then None else Some (ptr_of (cidx l c ! (k - 1)))))"

definition ends :: "log \<Rightarrow> u64 \<Rightarrow> ptr option \<times> ptr option" where
  "ends l c =
     (if cidx l c = [] then (None, None)
      else (Some (ptr_of (hd (cidx l c))), Some (ptr_of (last (cidx l c)))))"

definition log_inv :: "log \<Rightarrow> bool" where
  "log_inv l \<longleftrightarrow>
     0 < l_num_blocks l \<and> l_entry l \<le> NUM_ENTRIES_PER_BLOCK \<and>
     l_current_entries l = (l_num_blocks l - 1) * NUM_ENTRIES_PER_BLOCK + l_entry l \<and>
     l_num_entries l \<le> l_current_entries l \<and>
     (\<forall>i \<ge> l_current_entries l. ent l i = zero_entry) \<and>
     (\<forall>c. l_client_entries l c = ends l c) \<and> (\<forall>c. linked l c)"

lemma ptr_of_inject [simp]: "ptr_of i = ptr_of j \<longleftrightarrow> i = j"
  by (metis div_mult_mod_eq prod.inject ptr_of_def)

lemma ptr_of_end: "j \<le> NUM_ENTRIES_PER_BLOCK \<Longrightarrow> j < NUM_ENTRIES_PER_BLOCK \<Longrightarrow>
    ptr_of (b * NUM_ENTRIES_PER_BLOCK + j) = (b, j)"
  by (simp add: ptr_of_def)

lemma cidx_less: "i \<in> set (cidx l c) \<Longrightarrow> i < l_current_entries l"
  by (simp add: cidx_def)

lemma cidx_nth_less: "k < length (cidx l c) \<Longrightarrow> cidx l c ! k < l_current_entries l"
  using cidx_less nth_mem by blast

lemma cidx_nth_client: "k < length (cidx l c) \<Longrightarrow> e_client_id (ent l (cidx l c ! k)) = c"
  using nth_mem [of k "cidx l c"] by (simp add: cidx_def)

lemma distinct_cidx: "distinct (cidx l c)"
  by (simp add: cidx_def)

lemma sorted_cidx: "sorted (cidx l c)"
  unfolding cidx_def by (rule sorted_wrt_filter) simp

lemma cidx_nth_inject:
  "i < length (cidx l c) \<Longrightarrow> j < length (cidx l c) \<Longrightarrow> cidx l c ! i = cidx l c ! j \<longleftrightarrow> i = j"
  by (simp add: distinct_cidx nth_eq_iff_index_eq)

lemma view_cong:
  assumes "ent l' = ent l" and "l_current_entries l' = l_current_entries l"
  shows "ent l' = ent l" "cidx l' = cidx l" "linked l' = linked l" "ends l' = ends l"
proof -
  show e: "ent l' = ent l" by (rule assms)
  show c: "cidx l' = cidx l" by (rule ext) (simp add: cidx_def assms)
  show "linked l' = linked l" by (rule ext) (simp add: linked_def e c)
  show "ends l' = ends l" by (rule ext) (simp add: ends_def c)
qed

lemma log_inv_init: "log_inv log_init"
  by (simp add: log_inv_def log_init_def ends_def linked_def cidx_def ent_def)

subsection \<open>Laying out a slot\<close>

lemma room_inv:
  assumes "log_inv l"
  shows "log_inv (room l)" and "l_entry (room l) < NUM_ENTRIES_PER_BLOCK"
    and "l_current_entries (room l) = l_current_entries l" and "l_heap (room l) = l_heap l"
    and "l_num_entries (room l) = l_num_entries l"
proof -
  show heap: "l_current_entries (room l) = l_current_entries l" "l_heap (room l) = l_heap l"
    "l_num_entries (room l) = l_num_entries l"
    by (simp_all add: room_def)
  have "ent (room l) = ent l"
    by (rule ext) (simp add: ent_def heap(2))
  note same = view_cong [OF this heap(1)]
  show "log_inv (room l)"
    using assms unfolding log_inv_def same by (auto simp: room_def same algebra_simps)
  show "l_entry (room l) < NUM_ENTRIES_PER_BLOCK"
    using assms by (auto simp: log_inv_def room_def)
qed

lemma place_entry_fresh:
  fixes c g :: u64
  assumes inv: "log_inv l" and space: "l_entry l < NUM_ENTRIES_PER_BLOCK"
  defines "l' \<equiv> place_entry l c g"
  shows "l_current_entries l' = Suc (l_current_entries l)"
    and "l_num_entries l' = l_num_entries l"
    and "ent l' (l_current_entries l) = zero_entry\<lparr>e_gsn := g, e_client_id := c,
           e_prev := snd (l_client_entries l c)\<rparr>"
    and "i \<noteq> l_current_entries l \<Longrightarrow> ent l' i = (ent l i)\<lparr>e_next :=
           (if snd (l_client_entries l c) = Some (ptr_of i) then Some (ptr_of (l_current_entries l))
            else e_next (ent l i))\<rparr>"
    and "l_client_entries l' = (l_client_entries l)(c :=
           (if snd (l_client_entries l c) = None then Some (ptr_of (l_current_entries l))
            else fst (l_client_entries l c), Some (ptr_of (l_current_entries l))))"
proof -
  let ?n = "l_current_entries l"
  obtain first last where fl: "l_client_entries l c = (first, last)"
    by fastforce
  have p: "(l_num_blocks l - Suc 0, l_entry l) = ptr_of ?n"
    using inv space by (simp add: log_inv_def ptr_of_end)
  have zero: "l_heap l (ptr_of ?n) = zero_entry"
    using inv by (simp add: log_inv_def ent_def)
  have fresh: "last \<noteq> Some (ptr_of ?n)"
    using inv fl cidx_less [of "List.last (cidx l c)" l c] unfolding log_inv_def
    by (auto simp: ends_def split: if_splits)
  show "l_current_entries l' = Suc ?n" "l_num_entries l' = l_num_entries l"
    by (simp_all add: l'_def place_entry_def fl Let_def)
  show "ent l' ?n = zero_entry\<lparr>e_gsn := g, e_client_id := c, e_prev := snd (l_client_entries l c)\<rparr>"
    using fresh by (cases last) (auto simp: l'_def place_entry_def fl Let_def ent_def p zero zero_entry_def)
  show "i \<noteq> ?n \<Longrightarrow> ent l' i = (ent l i)\<lparr>e_next :=
           (if snd (l_client_entries l c) = Some (ptr_of i) then Some (ptr_of ?n)
            else e_next (ent l i))\<rparr>"
    using fresh by (cases last) (auto simp: l'_def place_entry_def fl Let_def ent_def p)
  show "l_client_entries l' = (l_client_entries l)(c :=
           (if snd (l_client_entries l c) = None then Some (ptr_of ?n)
            else fst (l_client_entries l c), Some (ptr_of ?n)))"
    by (cases last) (auto simp: l'_def place_entry_def fl Let_def p)
qed

lemma place_entry_shape:
  assumes inv: "log_inv l" and space: "l_entry l < NUM_ENTRIES_PER_BLOCK"
    and i: "i < l_current_entries l"
  shows "e_client_id (ent (place_entry l c g) i) = e_client_id (ent l i)"
    and "e_gsn (ent (place_entry l c g) i) = e_gsn (ent l i)"
    and "e_prev (ent (place_entry l c g) i) = e_prev (ent l i)"
    and "e_set (ent (place_entry l c g) i) = e_set (ent l i)"
    and "entry_payload (ent (place_entry l c g) i) = entry_payload (ent l i)"
    and "e_data_length (ent (place_entry l c g) i) = e_data_length (ent l i)"
  using place_entry_fresh(4) [OF inv space, of i c g] i
  by (simp_all add: entry_payload_def split: edata.split)

lemma place_entry_cidx:
  assumes inv: "log_inv l" and space: "l_entry l < NUM_ENTRIES_PER_BLOCK"
  shows "cidx (place_entry l c g) d = cidx l d @ (if d = c then [l_current_entries l] else [])"
proof -
  let ?l' = "place_entry l c g" and ?n = "l_current_entries l"
  note fresh = place_entry_fresh [where c = c and g = g, OF inv space]
  have "cidx ?l' d = filter (\<lambda>i. e_client_id (ent ?l' i) = d) ([0..<?n] @ [?n])"
    by (simp add: cidx_def fresh(1))
  also have "\<dots> = filter (\<lambda>i. e_client_id (ent ?l' i) = d) [0..<?n] @ (if d = c then [?n] else [])"
    by (auto simp: fresh(3))
  also have "filter (\<lambda>i. e_client_id (ent ?l' i) = d) [0..<?n] = cidx l d"
    unfolding cidx_def by (rule filter_cong) (auto simp: place_entry_shape [OF inv space])
  finally show ?thesis .
qed

lemma place_entry_slots:
  assumes inv: "log_inv l" and space: "l_entry l < NUM_ENTRIES_PER_BLOCK"
  shows "log_slots (place_entry l c g) = log_slots l @ [(c, g)]"
  using place_entry_fresh [where c = c and g = g, OF inv space]
  by (simp add: log_slots_def place_entry_shape [OF inv space] cong: map_cong)

lemma place_entry_linked:
  assumes inv: "log_inv l" and space: "l_entry l < NUM_ENTRIES_PER_BLOCK"
  shows "linked (place_entry l c g) d"
  unfolding linked_def
proof (intro allI impI)
  let ?l' = "place_entry l c g" and ?n = "l_current_entries l"
  note fresh = place_entry_fresh [where c = c and g = g, OF inv space] and cid = place_entry_cidx [OF inv space, of c g]
  fix k assume k: "k < length (cidx ?l' d)"
  have ends: "l_client_entries l c = ends l c" and old: "linked l d"
    using inv by (auto simp: log_inv_def)
  show "e_next (ent ?l' (cidx ?l' d ! k)) =
          (if Suc k < length (cidx ?l' d) then Some (ptr_of (cidx ?l' d ! Suc k)) else None) \<and>
        e_prev (ent ?l' (cidx ?l' d ! k)) =
          (if k = 0 then None else Some (ptr_of (cidx ?l' d ! (k - 1))))"
  proof (cases "k < length (cidx l d)")
    case True
    let ?i = "cidx l d ! k"
    have i: "?i < ?n" and ci: "e_client_id (ent l ?i) = d"
      using True by (simp_all add: cidx_nth_less cidx_nth_client)
    have last: "snd (ends l c) = Some (ptr_of ?i) \<longleftrightarrow> d = c \<and> Suc k = length (cidx l d)"
    proof (cases "d = c")
      case True
      with \<open>k < length (cidx l d)\<close> show ?thesis
        using cidx_nth_inject [of "length (cidx l c) - 1" l c k]
        by (auto simp: ends_def last_conv_nth)
    next
      case False
      then have "cidx l c \<noteq> [] \<Longrightarrow> List.last (cidx l c) \<noteq> ?i"
        using ci cidx_nth_client [of "length (cidx l c) - 1" l c] by (auto simp: last_conv_nth)
      with False show ?thesis
        by (auto simp: ends_def)
    qed
    have here: "cidx ?l' d ! k = ?i" and before: "cidx ?l' d ! (k - 1) = cidx l d ! (k - 1)"
      using True less_imp_diff_less [OF True, of 1] by (simp_all add: cid nth_append)
    have i': "?i \<noteq> ?n"
      using i by simp
    have prev: "e_prev (ent ?l' ?i) = (if k = 0 then None else Some (ptr_of (cidx l d ! (k - 1))))"
      using old True unfolding linked_def fresh(4) [OF i'] by simp
    have "e_next (ent l ?i) = (if Suc k < length (cidx l d) then Some (ptr_of (cidx l d ! Suc k)) else None)"
      using old True unfolding linked_def by simp
    then have "e_next (ent ?l' ?i) =
        (if Suc k < length (cidx ?l' d) then Some (ptr_of (cidx ?l' d ! Suc k)) else None)"
      using True unfolding fresh(4) [OF i'] ends by (simp add: last cid nth_append) auto
    with prev show ?thesis
      unfolding here before by blast
  next
    case False
    with k have d: "d = c" and kn: "k = length (cidx l c)"
      by (auto simp: cid split: if_splits)
    then have "cidx ?l' d ! k = ?n"
      by (simp add: cid)
    with d kn show ?thesis
      by (auto simp: fresh(3) ends ends_def cid nth_append last_conv_nth zero_entry_def)
  qed
qed

lemma place_entry_inv [inv_intros]:
  assumes inv: "log_inv l" and space: "l_entry l < NUM_ENTRIES_PER_BLOCK"
  shows "log_inv (place_entry l c g)"
proof -
  let ?l' = "place_entry l c g"
  note fresh = place_entry_fresh [where c = c and g = g, OF inv space] and cid = place_entry_cidx [OF inv space, of c g]
  have ends: "l_client_entries l d = ends l d" for d
    using inv by (simp add: log_inv_def)
  have "ent ?l' i = zero_entry" if "Suc (l_current_entries l) \<le> i" for i
  proof -
    have "ent l i = zero_entry"
      using inv that by (simp add: log_inv_def)
    moreover have "snd (ends l c) \<noteq> Some (ptr_of i)"
      using that cidx_less [of "last (cidx l c)" l c] by (auto simp: ends_def)
    moreover have "i \<noteq> l_current_entries l"
      using that by simp
    ultimately show ?thesis
      by (simp add: fresh(4) ends zero_entry_def)
  qed
  moreover have "l_client_entries ?l' d = ends ?l' d" for d
    by (auto simp: fresh(5) ends ends_def cid)
  moreover have "l_num_blocks ?l' = l_num_blocks l" "l_entry ?l' = Suc (l_entry l)"
    by (simp_all add: place_entry_def Let_def split: prod.splits)
  ultimately show ?thesis
    using inv space place_entry_linked [OF inv space, of c g]
    by (auto simp: log_inv_def fresh(1,2))
qed

end
