(* ===== verification/Storage_Position.thy ===== *)
theory Storage_Position
  imports Storage_Log_Facts
begin

text \<open>
  What the operations of \<open>log::position\<close> do, in terms of the slots of the client: the position stands
  after the first \<open>k\<close> slots of its client, \<open>insert\<close> closes as many of the following slots as it is asked
  to and puts the payload in the last of them, \<open>patch\<close> goes to the slot with a given sequence number,
  \<open>suffix\<close> reads back the slots after a given sequence number and \<open>close\<close> closes all that is left.
\<close>

subsection \<open>Changes that keep the layout\<close>

definition same_layout :: "log \<Rightarrow> log \<Rightarrow> bool" where
  "same_layout l l' \<longleftrightarrow>
     l_num_blocks l' = l_num_blocks l \<and> l_entry l' = l_entry l \<and>
     l_current_entries l' = l_current_entries l \<and> l_num_entries l' = l_num_entries l \<and>
     l_client_entries l' = l_client_entries l \<and>
     (\<forall>i. e_client_id (ent l' i) = e_client_id (ent l i) \<and> e_gsn (ent l' i) = e_gsn (ent l i) \<and>
          e_next (ent l' i) = e_next (ent l i) \<and> e_prev (ent l' i) = e_prev (ent l i)) \<and>
     (\<forall>i \<ge> l_current_entries l. ent l' i = ent l i)"

definition pos_at :: "log \<Rightarrow> position \<Rightarrow> nat \<Rightarrow> bool" where
  "pos_at l pos k \<longleftrightarrow>
     k \<le> length (cidx l (p_client_id pos)) \<and>
     p_current_entry pos = (if k = 0 then None else Some (ptr_of (cidx l (p_client_id pos) ! (k - 1))))"

definition update_slots :: "(entry \<Rightarrow> entry) \<Rightarrow> nat set \<Rightarrow> (ptr \<Rightarrow> entry) \<Rightarrow> (ptr \<Rightarrow> entry)" where
  "update_slots f I h = (\<lambda>p. if p \<in> ptr_of ` I then f (h p) else h p)"

abbreviation mark :: "entry \<Rightarrow> entry" where
  "mark \<equiv> e_set_update (\<lambda>_. True)"

abbreviation fill :: "byte list \<Rightarrow> nat \<Rightarrow> entry \<Rightarrow> entry" where
  "fill mem len e \<equiv> e\<lparr>e_data := alloc_copy mem len, e_data_length := len, e_set := True\<rparr>"

lemma update_slots_ptr [simp]: "update_slots f I h (ptr_of i) = (if i \<in> I then f (h (ptr_of i)) else h (ptr_of i))"
  by (auto simp: update_slots_def)

lemma update_slots_empty [simp]: "update_slots f {} h = h"
  by (simp add: update_slots_def)

lemma set_entry_slots: "set_entry (ptr_of i) h = update_slots mark {i} h"
  by (rule ext) (simp add: set_entry_def update_slots_def)

lemma fill_entry_slots: "fill_entry (ptr_of i) mem len h = update_slots (fill mem len) {i} h"
  by (rule ext) (simp add: fill_entry_def update_slots_def)

lemma update_slots_mark: "update_slots mark I (update_slots mark J h) = update_slots mark (I \<union> J) h"
  by (rule ext) (auto simp: update_slots_def)

lemma same_layout_refl [simp]: "same_layout l l"
  by (simp add: same_layout_def)

lemma same_layout_cidx: "same_layout l l' \<Longrightarrow> cidx l' = cidx l"
  by (rule ext) (simp add: same_layout_def cidx_def)

lemma same_layout_slots: "same_layout l l' \<Longrightarrow> log_slots l' = log_slots l"
  by (simp add: same_layout_def log_slots_def)

lemma same_layout_pos: "same_layout l l' \<Longrightarrow> pos_at l' pos k \<longleftrightarrow> pos_at l pos k"
  by (simp add: pos_at_def same_layout_cidx)

lemma same_layout_inv [inv_intros]:
  assumes "same_layout l l'" and "log_inv l"
  shows "log_inv l'"
proof -
  note c = same_layout_cidx [OF assms(1)]
  have "linked l' = linked l" and "ends l' = ends l"
    using assms(1) by (simp_all add: fun_eq_iff linked_def ends_def c same_layout_def)
  with assms show ?thesis
    unfolding log_inv_def same_layout_def by auto
qed

lemma update_slots_layout:
  assumes "\<And>e. e_client_id (f e) = e_client_id e" "\<And>e. e_gsn (f e) = e_gsn e"
    and "\<And>e. e_next (f e) = e_next e" "\<And>e. e_prev (f e) = e_prev e"
    and "\<forall>i \<in> I. i < l_current_entries l"
  shows "same_layout l (l\<lparr>l_heap := update_slots f I (l_heap l)\<rparr>)"
  using assms by (auto simp: same_layout_def ent_def)

lemma pos_at_bound: "pos_at l pos k \<Longrightarrow> k \<le> length (cidx l (p_client_id pos))"
  by (simp add: pos_at_def)

lemma linked_next:
  assumes "log_inv l" and "k < length (cidx l c)"
  shows "e_next (l_heap l (ptr_of (cidx l c ! k))) =
         (if Suc k < length (cidx l c) then Some (ptr_of (cidx l c ! Suc k)) else None)"
  using assms by (simp add: log_inv_def linked_def ent_def)

lemma linked_prev:
  assumes "log_inv l" and "k < length (cidx l c)"
  shows "e_prev (l_heap l (ptr_of (cidx l c ! k))) =
         (if k = 0 then None else Some (ptr_of (cidx l c ! (k - 1))))"
  using assms by (simp add: log_inv_def linked_def ent_def)

lemma next_of_at:
  assumes inv: "log_inv l" and at: "pos_at l pos k"
  shows "next_of l pos =
         (if k < length (cidx l (p_client_id pos)) then Some (ptr_of (cidx l (p_client_id pos) ! k)) else None)"
proof (cases k)
  case 0
  have "l_client_entries l (p_client_id pos) = ends l (p_client_id pos)"
    using inv by (simp add: log_inv_def)
  with 0 at show ?thesis
    by (auto simp: next_of_def pos_at_def ends_def hd_conv_nth)
next
  case (Suc n)
  with at linked_next [OF inv, of n "p_client_id pos"] show ?thesis
    by (simp add: next_of_def pos_at_def)
qed

subsection \<open>insert\<close>

text \<open>The slots from the \<open>k\<close>-th on, \<open>n\<close> of them.\<close>

definition span :: "nat list \<Rightarrow> nat \<Rightarrow> nat \<Rightarrow> nat set" where
  "span xs k n = (\<lambda>j. xs ! j) ` {k..<k + n}"

lemma span_0 [simp]: "span xs k 0 = {}"
  by (simp add: span_def)

lemma span_Suc: "span xs k (Suc n) = insert (xs ! k) (span xs (Suc k) n)"
proof -
  have "{k..<k + Suc n} = insert k {Suc k..<Suc k + n}"
    by auto
  then show ?thesis
    unfolding span_def by simp
qed

lemma span_cidx_less: "k + n \<le> length (cidx l c) \<Longrightarrow> i \<in> span (cidx l c) k n \<Longrightarrow> i < l_current_entries l"
  by (auto simp: span_def intro: cidx_nth_less)

text \<open>Following the list is not disturbed by the marks it leaves behind.\<close>

lemma close_slots_at:
  assumes inv: "log_inv l" and k: "k < length (cidx l c)"
    and h: "\<And>p. e_next (h p) = e_next (l_heap l p)"
  shows "close_slots n h (ptr_of (cidx l c ! k)) =
         (if k + n < length (cidx l c)
          then Inr (update_slots mark (span (cidx l c) k n) h, ptr_of (cidx l c ! (k + n)))
          else Inl no_entry)"
  using k h
proof (induction n arbitrary: k h)
  case (Suc n)
  let ?xs = "cidx l c" and ?h' = "set_entry (ptr_of (cidx l c ! k)) h"
  have next': "e_next (?h' p) = e_next (l_heap l p)" for p
    using Suc.prems(2) by (simp add: set_entry_def)
  show ?case
  proof (cases "Suc k < length ?xs")
    case True
    then have "close_slots (Suc n) h (ptr_of (?xs ! k)) = close_slots n ?h' (ptr_of (?xs ! Suc k))"
      using linked_next [OF inv Suc.prems(1)] by (simp add: next' Let_def)
    then show ?thesis
      using Suc.IH [OF True next'] by (simp add: set_entry_slots update_slots_mark span_Suc)
  next
    case False
    then show ?thesis
      using linked_next [OF inv Suc.prems(1)] by (simp add: next' Let_def)
  qed
qed simp

definition insert_result :: "log \<Rightarrow> u64 \<Rightarrow> nat \<Rightarrow> byte list \<Rightarrow> nat \<Rightarrow> nat \<Rightarrow> log" where
  "insert_result l c k mem len close =
     l\<lparr>l_heap := update_slots (fill mem len) {cidx l c ! (k + close - 1)}
                   (update_slots mark (span (cidx l c) k (close - 1)) (l_heap l))\<rparr>"

lemma position_insert_eq:
  assumes inv: "log_inv l" and at: "pos_at l pos k" and pos: "0 < close" and small: "close < 2 ^ 64"
  defines "xs \<equiv> cidx l (p_client_id pos)"
  shows "position_insert l pos mem len close =
         (if k + close \<le> length xs
          then Inr (insert_result l (p_client_id pos) k mem len close,
                    pos\<lparr>p_current_entry := Some (ptr_of (xs ! (k + close - 1)))\<rparr>,
                    e_gsn (ent l (xs ! (k + close - 1))))
          else Inl no_entry)"
proof (cases "k < length xs")
  case True
  have sub: "u64_sub close 1 = close - 1"
    using pos small by (intro u64_sub_small) auto
  have iff: "k + (close - 1) < length xs \<longleftrightarrow> k + close \<le> length xs" and idx: "k + (close - 1) = k + close - 1"
    using pos by linarith+
  show ?thesis
    using next_of_at [OF inv at] True close_slots_at [OF inv, of k "p_client_id pos" "l_heap l" "close - 1"]
    unfolding position_insert_def sub xs_def [symmetric] iff idx
    by (auto simp: fill_entry_slots insert_result_def ent_def Let_def xs_def)
next
  case False
  then show ?thesis
    using next_of_at [OF inv at] pos by (auto simp: position_insert_def xs_def)
qed

lemma insert_result_ent:
  "ent (insert_result l c k mem len close) i =
     (if i = cidx l c ! (k + close - 1)
      then fill mem len (if i \<in> span (cidx l c) k (close - 1) then mark (ent l i) else ent l i)
      else if i \<in> span (cidx l c) k (close - 1) then mark (ent l i) else ent l i)"
  by (simp add: insert_result_def ent_def)

lemma insert_result_layout:
  assumes "0 < close" and "k + close \<le> length (cidx l c)"
  shows "same_layout l (insert_result l c k mem len close)"
proof -
  let ?n = "l_current_entries l"
  have "cidx l c ! (k + close - 1) < ?n"
    using assms by (intro cidx_nth_less) linarith
  moreover have "\<forall>i \<in> span (cidx l c) k (close - 1). i < ?n"
    using assms span_cidx_less [of k "close - 1" l c] by auto
  ultimately show ?thesis
    unfolding same_layout_def insert_result_ent by (auto simp: insert_result_def)
qed

lemma entry_payload_fill: "len \<le> length mem \<Longrightarrow> entry_payload (fill mem len e) = take len mem"
  by (simp add: entry_payload_def alloc_copy_def min_def)

lemma position_insert_ok:
  fixes l :: log and pos :: position
  defines "xs \<equiv> cidx l (p_client_id pos)"
  assumes inv: "log_inv l" and at: "pos_at l pos k" and close: "0 < close" "close < 2 ^ 64"
    and room: "k + close \<le> length xs"
  obtains l' pos' where
    "position_insert l pos mem len close = Inr (l', pos', e_gsn (ent l (xs ! (k + close - 1))))"
    "log_inv l'" "same_layout l l'" "pos_at l' pos' (k + close)" "p_client_id pos' = p_client_id pos"
    "l' = insert_result l (p_client_id pos) k mem len close"
proof (rule that)
  let ?l' = "insert_result l (p_client_id pos) k mem len close"
  let ?pos' = "pos\<lparr>p_current_entry := Some (ptr_of (xs ! (k + close - 1)))\<rparr>"
  show "position_insert l pos mem len close = Inr (?l', ?pos', e_gsn (ent l (xs ! (k + close - 1))))"
    using position_insert_eq [OF inv at close] room by (simp add: xs_def)
  show lay: "same_layout l ?l'"
    using insert_result_layout close room unfolding xs_def by blast
  show "log_inv ?l'"
    using lay inv by (rule same_layout_inv)
  show "pos_at ?l' ?pos' (k + close)"
    using room close unfolding same_layout_pos [OF lay] by (simp add: pos_at_def xs_def)
qed simp_all

lemma position_insert_fails:
  assumes inv: "log_inv l" and at: "pos_at l pos k" and close: "close < 2 ^ 64"
    and short: "close = 0 \<or> length (cidx l (p_client_id pos)) < k + close"
    and finite: "length (cidx l (p_client_id pos)) < 2 ^ 64"
  shows "position_insert l pos mem len close = Inl no_entry"
proof (cases "close = 0")
  case True
  have wrap: "u64_sub 0 1 = 2 ^ 64 - 1"
    by (simp add: u64_sub_def)
  show ?thesis
  proof (cases "k < length (cidx l (p_client_id pos))")
    case True
    then show ?thesis
      using next_of_at [OF inv at] finite
        close_slots_at [OF inv, of k "p_client_id pos" "l_heap l" "2 ^ 64 - 1"]
      unfolding position_insert_def \<open>close = 0\<close> wrap by simp
  next
    case False
    then show ?thesis
      using next_of_at [OF inv at] by (simp add: position_insert_def)
  qed
next
  case False
  with position_insert_eq [OF inv at _ close, of mem len] short show ?thesis
    by simp
qed

subsection \<open>patch\<close>

lemma patch_loop_stops:
  assumes inv: "log_inv l" and m: "k \<le> m" "m < length (cidx l c)"
    and before: "\<And>j. k \<le> j \<Longrightarrow> j < m \<Longrightarrow> e_gsn (ent l (cidx l c ! j)) < gsn"
    and here: "gsn \<le> e_gsn (ent l (cidx l c ! m))"
    and h: "\<And>p. e_next (h p) = e_next (l_heap l p)" "\<And>p. e_gsn (h p) = e_gsn (l_heap l p)"
  shows "patch_loop gsn h (ptr_of (cidx l c ! k)) =
         Some (Inr (update_slots mark (span (cidx l c) k (m - k)) h, ptr_of (cidx l c ! m)))"
  using m(1) before h
proof (induction "m - k" arbitrary: k h)
  case 0
  then have "k = m" by simp
  with 0 here show ?case
    by (subst patch_loop.simps) (simp add: ent_def)
next
  case (Suc n)
  let ?xs = "cidx l c" and ?h' = "set_entry (ptr_of (cidx l c ! k)) h"
  have k: "k < m" and n: "n = m - Suc k" "m - k = Suc n" using Suc.hyps(2) by simp_all
  with m(2) have k': "k < length ?xs" by simp
  have h': "\<And>p. e_next (?h' p) = e_next (l_heap l p)" "\<And>p. e_gsn (?h' p) = e_gsn (l_heap l p)"
    using Suc.prems by (simp_all add: set_entry_def)
  have "patch_loop gsn h (ptr_of (?xs ! k)) = patch_loop gsn ?h' (ptr_of (?xs ! Suc k))"
    using Suc.prems(2) [of k] Suc.prems(4) k linked_next [OF inv k'] m(2)
    by (subst patch_loop.simps) (simp add: ent_def h' Let_def)
  also have "\<dots> = Some (Inr (update_slots mark (span ?xs (Suc k) n) ?h', ptr_of (?xs ! m)))"
    using Suc.hyps(1) [of "Suc k" ?h'] Suc.prems(2) k n h' by simp
  finally show ?case
    by (simp add: n(2) set_entry_slots update_slots_mark span_Suc)
qed

lemma patch_loop_fails:
  assumes inv: "log_inv l" and k: "k < length (cidx l c)"
    and before: "\<And>j. k \<le> j \<Longrightarrow> j < length (cidx l c) \<Longrightarrow> e_gsn (ent l (cidx l c ! j)) < gsn"
    and h: "\<And>p. e_next (h p) = e_next (l_heap l p)" "\<And>p. e_gsn (h p) = e_gsn (l_heap l p)"
  shows "patch_loop gsn h (ptr_of (cidx l c ! k)) = Some (Inl no_entry)"
  using k before h
proof (induction "length (cidx l c) - k" arbitrary: k h rule: less_induct)
  case less
  let ?h' = "set_entry (ptr_of (cidx l c ! k)) h"
  have h': "\<And>p. e_next (?h' p) = e_next (l_heap l p)" "\<And>p. e_gsn (?h' p) = e_gsn (l_heap l p)"
    using less.prems by (simp_all add: set_entry_def)
  have IH: "Suc k < length (cidx l c) \<Longrightarrow> patch_loop gsn ?h' (ptr_of (cidx l c ! Suc k)) = Some (Inl no_entry)"
    using less.prems(2) by (intro less.hyps h') auto
  show ?case
    using less.prems(2) [of k] less.prems(1,4) linked_next [OF inv less.prems(1)] IH
    by (subst patch_loop.simps) (simp add: ent_def h' Let_def)
qed

text \<open>With increasing sequence numbers, \<open>patch\<close> finds the slot of any sequence number after the position.\<close>

lemma position_patch_ok:
  assumes inv: "log_inv l" and at: "pos_at l pos k" and m: "k \<le> m" "m < length (cidx l (p_client_id pos))"
    and inc: "sorted_wrt (<) (map (\<lambda>i. e_gsn (ent l i)) (cidx l (p_client_id pos)))"
  shows "position_patch l pos mem len (e_gsn (ent l (cidx l (p_client_id pos) ! m))) =
         Some (Inr (insert_result l (p_client_id pos) k mem len (Suc m - k),
                    pos\<lparr>p_current_entry := Some (ptr_of (cidx l (p_client_id pos) ! m))\<rparr>))"
proof -
  let ?c = "p_client_id pos" and ?g = "e_gsn (ent l (cidx l (p_client_id pos) ! m))"
  have "e_gsn (ent l (cidx l ?c ! j)) < ?g" if "j < m" for j
    using sorted_wrt_nth_less [OF inc that] m that by simp
  then have loop: "patch_loop ?g (l_heap l) (ptr_of (cidx l ?c ! k)) =
      Some (Inr (update_slots mark (span (cidx l ?c) k (m - k)) (l_heap l), ptr_of (cidx l ?c ! m)))"
    by (intro patch_loop_stops [OF inv m]) simp_all
  have km: "Suc m - k - 1 = m - k" "k + (Suc m - k) - 1 = m"
    using m by simp_all
  have res: "insert_result l ?c k mem len (Suc m - k) =
      l\<lparr>l_heap := update_slots (fill mem len) {cidx l ?c ! m}
          (update_slots mark (span (cidx l ?c) k (m - k)) (l_heap l))\<rparr>"
    unfolding insert_result_def km ..
  have "next_of l pos = Some (ptr_of (cidx l ?c ! k))"
    using next_of_at [OF inv at] m by simp
  then show ?thesis
    unfolding position_patch_def res by (simp add: loop fill_entry_slots) (simp add: ent_def)
qed

subsection \<open>suffix\<close>

lemma suffix_loop_at:
  assumes inv: "log_inv l" and k: "k \<le> length (cidx l c)"
  shows "suffix_loop b (l_heap l) (if k = 0 then None else Some (ptr_of (cidx l c ! (k - 1)))) acc =
         Some (acc @ map ptr_of (takeWhile (\<lambda>i. b = UINT64_MAX \<or> b < e_gsn (ent l i)) (rev (take k (cidx l c)))))"
  using k
proof (induction k arbitrary: acc)
  case 0
  show ?case by (subst suffix_loop.simps) simp
next
  case (Suc k)
  then have k: "k < length (cidx l c)" by simp
  have "rev (take (Suc k) (cidx l c)) = cidx l c ! k # rev (take k (cidx l c))"
    using k by (simp add: take_Suc_conv_app_nth)
  then show ?case
    using Suc.IH [of "acc @ [ptr_of (cidx l c ! k)]"] linked_prev [OF inv k] k
    by (subst suffix_loop.simps) (simp add: ent_def)
qed

lemma position_suffix_at:
  assumes inv: "log_inv l" and at: "pos_at l pos k"
  shows "position_suffix l pos b =
         Some (map ptr_of (takeWhile (\<lambda>i. b = UINT64_MAX \<or> b < e_gsn (ent l i))
                             (rev (take k (cidx l (p_client_id pos))))))"
  using suffix_loop_at [OF inv pos_at_bound [OF at], of b "[]"] at
  by (cases "k = 0") (simp_all add: position_suffix_def pos_at_def)

subsection \<open>close\<close>

lemma close_loop_at:
  assumes inv: "log_inv l" and k: "k < length (cidx l c)"
    and h: "\<And>p. e_next (h p) = e_next (l_heap l p)"
  shows "close_loop h (ptr_of (cidx l c ! k)) =
         Some (update_slots mark (span (cidx l c) (Suc k) (length (cidx l c) - Suc k)) h,
               ptr_of (cidx l c ! (length (cidx l c) - 1)))"
  using k h
proof (induction "length (cidx l c) - Suc k" arbitrary: k h)
  case 0
  then have "length (cidx l c) = Suc k" by simp
  with 0 linked_next [OF inv 0(2)] show ?case
    by (subst close_loop.simps) simp
next
  case (Suc n)
  let ?xs = "cidx l c"
  let ?h' = "set_entry (ptr_of (?xs ! Suc k)) h"
  have h': "e_next (?h' p) = e_next (l_heap l p)" for p
    using Suc.prems by (simp add: set_entry_def)
  have k': "Suc k < length ?xs" and n: "n = length ?xs - Suc (Suc k)" "length ?xs - Suc k = Suc n"
    using Suc.hyps(2) by simp_all
  have "close_loop h (ptr_of (?xs ! k)) = close_loop ?h' (ptr_of (?xs ! Suc k))"
    using linked_next [OF inv Suc.prems(1)] Suc.prems(2) k' by (subst close_loop.simps) simp
  with Suc.hyps(1) [OF n(1) k' h'] show ?case
    using n by (simp add: set_entry_slots update_slots_mark span_Suc Un_commute)
qed

lemma position_close_ok:
  fixes l :: log and pos :: position
  defines "xs \<equiv> cidx l (p_client_id pos)"
  assumes inv: "log_inv l" and at: "pos_at l pos k"
  obtains l' pos' where "position_close l pos = Some (l', pos')"
    "log_inv l'" "same_layout l l'" "pos_at l' pos' (length xs)" "p_client_id pos' = p_client_id pos"
    "l' = l\<lparr>l_heap := update_slots mark (span xs k (length xs - k)) (l_heap l)\<rparr>"
proof -
  let ?l' = "l\<lparr>l_heap := update_slots mark (span xs k (length xs - k)) (l_heap l)\<rparr>"
  let ?pos' = "pos\<lparr>p_current_entry := if xs = [] then None else Some (ptr_of (xs ! (length xs - 1)))\<rparr>"
  note b = pos_at_bound [OF at, folded xs_def]
  have ends: "l_client_entries l (p_client_id pos) = ends l (p_client_id pos)"
    using inv by (simp add: log_inv_def)
  have first: "close_loop (set_entry (ptr_of (xs ! 0)) (l_heap l)) (ptr_of (xs ! 0)) =
      Some (update_slots mark (span xs 0 (length xs)) (l_heap l), ptr_of (xs ! (length xs - 1)))" if "xs \<noteq> []"
  proof -
    have "span xs 0 (length xs) = insert (xs ! 0) (span xs 1 (length xs - 1))"
      using that span_Suc [of xs 0 "length xs - 1"] by (cases xs) auto
    moreover have "e_next (set_entry (ptr_of (xs ! 0)) (l_heap l) p) = e_next (l_heap l p)" for p
      by (simp add: set_entry_def)
    ultimately show ?thesis
      using that close_loop_at [OF inv, of 0 "p_client_id pos" "set_entry (ptr_of (xs ! 0)) (l_heap l)"]
      unfolding xs_def by (simp add: set_entry_slots update_slots_mark Un_commute)
  qed
  have "position_close l pos = Some (?l', ?pos')"
  proof (cases k)
    case 0
    then show ?thesis
      using at first ends unfolding xs_def
      by (auto simp: position_close_def pos_at_def ends_def hd_conv_nth Let_def)
  next
    case (Suc n)
    then show ?thesis
      using at b close_loop_at [OF inv, of n "p_client_id pos" "l_heap l"] unfolding xs_def
      by (auto simp: position_close_def pos_at_def Let_def)
  qed
  moreover have lay: "same_layout l ?l'"
    using b span_cidx_less [of k "length xs - k" l "p_client_id pos"]
    by (intro update_slots_layout) (auto simp: xs_def)
  moreover have "log_inv ?l'"
    using lay inv by (rule same_layout_inv)
  moreover have "pos_at ?l' ?pos' (length xs)"
    unfolding same_layout_pos [OF lay] by (simp add: pos_at_def xs_def)
  ultimately show ?thesis
    using that by simp
qed

end
