(* ===== verification/Strided_Reader.thy ===== *)
theory Strided_Reader
  imports Zip_Prelude
begin

text \<open>
  The contract shared by the iterators of the storage log and of the subscriber log: a thread polls
  the log with \<open>next_entry\<close> while other threads extend it. The reader stands before the \<open>n\<close>-th element
  of its sequence; a poll returns exactly that element once it is ready and nothing before, so that no
  element is skipped, repeated or overtaken, whatever the other threads do in between.
\<close>

text \<open>The polls that returned an element, among any number of steps of the environment.\<close>

inductive reader_run ::
  "('s \<Rightarrow> 'e option \<times> 's) \<Rightarrow> ('s \<Rightarrow> 's \<Rightarrow> bool) \<Rightarrow> 's \<Rightarrow> 'e list \<Rightarrow> 's \<Rightarrow> bool"
  for poll env s where
  run_start: "reader_run poll env s [] s"
| run_env: "reader_run poll env s es t \<Longrightarrow> env t u \<Longrightarrow> reader_run poll env s es u"
| run_miss: "reader_run poll env s es t \<Longrightarrow> poll t = (None, u) \<Longrightarrow> reader_run poll env s es u"
| run_hit: "reader_run poll env s es t \<Longrightarrow> poll t = (Some e, u) \<Longrightarrow> reader_run poll env s (es @ [e]) u"

lemma run_one_env: "env s t \<Longrightarrow> reader_run poll env s [] t"
  by (rule run_env [OF run_start])

lemma run_one_hit: "env s t \<Longrightarrow> poll t = (Some e, u) \<Longrightarrow> reader_run poll env s [e] u"
  using run_hit [of poll env s "[]" t e u] run_one_env [of env s t poll] by simp

locale strided_reader =
  fixes poll :: "'s \<Rightarrow> 'e option \<times> 's"
    and env :: "'s \<Rightarrow> 's \<Rightarrow> bool"
    and at :: "'s \<Rightarrow> nat \<Rightarrow> bool"
    and ready :: "'s \<Rightarrow> nat \<Rightarrow> 'e option"
    and tag :: "'e \<Rightarrow> 'k"
    and slot :: "nat \<Rightarrow> 'k"
  assumes poll_ready: "at s n \<Longrightarrow> fst (poll s) = ready s n"
    and poll_at: "at s n \<Longrightarrow> at (snd (poll s)) (if ready s n = None then n else Suc n)"
    and poll_keeps: "at s n \<Longrightarrow> n \<le> k \<Longrightarrow> ready s k = Some e \<Longrightarrow> n < k \<or> ready s n = None \<Longrightarrow>
                     ready (snd (poll s)) k = Some e"
    and env_at: "env s s' \<Longrightarrow> at s n \<Longrightarrow> at s' n"
    and env_keeps: "env s s' \<Longrightarrow> at s n \<Longrightarrow> n \<le> k \<Longrightarrow> ready s k = Some e \<Longrightarrow> ready s' k = Some e"
    and ready_tag: "at s n \<Longrightarrow> ready s n = Some e \<Longrightarrow> tag e = slot n"
begin

lemma run_at:
  assumes "reader_run poll env s es t" and "at s n"
  shows "at t (n + length es) \<and> map tag es = map slot [n..<n + length es]"
  using assms
proof (induction rule: reader_run.induct)
  case (run_env es t u)
  then show ?case using env_at by blast
next
  case (run_miss es t u)
  then show ?case
    using poll_ready [of t "n + length es"] poll_at [of t "n + length es"] by auto
next
  case (run_hit es t e u)
  then have t: "at t (n + length es)" and m: "map tag es = map slot [n..<n + length es]"
    by simp_all
  then have "ready t (n + length es) = Some e"
    using poll_ready [OF t] run_hit.hyps(2) by simp
  with t m show ?case
    using poll_at [OF t] ready_tag [OF t] run_hit.hyps(2) by simp
qed simp

text \<open>What the environment cannot do: take back an element that is ready.\<close>

lemma run_keeps:
  assumes "reader_run poll env s es t" and "at s n" and "n + length es \<le> k" and "ready s k = Some e"
  shows "ready t k = Some e"
  using assms
proof (induction rule: reader_run.induct)
  case (run_env es t u)
  then show ?case
    using run_at [OF run_env.hyps(1)] env_keeps by blast
next
  case (run_miss es t u)
  then show ?case
    using run_at [OF run_miss.hyps(1)] poll_ready [of t "n + length es"]
      poll_keeps [of t "n + length es" k e] by auto
next
  case (run_hit es t e' u)
  then show ?case
    using run_at [OF run_hit.hyps(1)] poll_keeps [of t "n + length es" k e] by auto
qed

end

end
