(* ===== verification/Storage_Iterator.thy ===== *)
theory Storage_Iterator
  imports Storage_Log_Facts Strided_Reader
begin

text \<open>
  The iterator of the storage log as a reader of the slots \<open>index\<close>, \<open>index + stride\<close>, \dots: a poll
  returns the next of them once an epoch that holds it has been published and its slot is set.
\<close>

definition iter_poll :: "log \<times> iter \<Rightarrow> ptr option \<times> log \<times> iter" where
  "iter_poll s = (let (e, it) = next_entry (fst s) (snd s) in (e, fst s, it))"

text \<open>
  What the other threads of the server do to the log: they publish epochs and set slots, and never change
  what a reader may have seen in a published slot that is set.
\<close>

definition slot_content :: "entry \<Rightarrow> u64 \<times> u64 \<times> nat \<times> byte list" where
  "slot_content e = (e_client_id e, e_gsn e, e_data_length e, entry_payload e)"

definition log_grows :: "log \<Rightarrow> log \<Rightarrow> bool" where
  "log_grows l l' \<longleftrightarrow>
     l_num_entries l \<le> l_num_entries l' \<and>
     (\<forall>i < l_num_entries l. e_set (ent l i) \<longrightarrow> e_set (ent l' i) \<and> slot_content (ent l' i) = slot_content (ent l i))"

definition iter_env :: "log \<times> iter \<Rightarrow> log \<times> iter \<Rightarrow> bool" where
  "iter_env s s' \<longleftrightarrow> snd s' = snd s \<and> log_grows (fst s) (fst s')"

definition iter_ready :: "nat \<Rightarrow> nat \<Rightarrow> log \<times> iter \<Rightarrow> nat \<Rightarrow> ptr option" where
  "iter_ready index stride s n =
     (let i = index + n * stride
      in if i < l_num_entries (fst s) \<and> e_set (ent (fst s) i) then Some (ptr_of i) else None)"

definition iter_at :: "nat \<Rightarrow> nat \<Rightarrow> log \<times> iter \<Rightarrow> nat \<Rightarrow> bool" where
  "iter_at index stride s n \<longleftrightarrow>
     (let (l, it) = s; i = index + n * stride
      in it_stride it = stride \<and> it_iterator it = it_block_index it \<and>
         it_block_index it \<le> i div NUM_ENTRIES_PER_BLOCK \<and> it_current_entries it \<le> l_num_entries l \<and>
         (case it_entry it of
            None \<Rightarrow> it_entry_index it = i
          | Some p \<Rightarrow> p = ptr_of i \<and> it_entry_index it = i + stride \<and> i < l_num_entries l))"

lemma advance_block_eq: "bi \<le> block \<Longrightarrow> advance_block block (bi, bi) = (block, block)"
proof (induction "block - bi" arbitrary: bi)
  case (Suc n)
  then show ?case
    by (subst advance_block.simps) (metis Suc.hyps Suc_leI diff_Suc_1 diff_Suc_eq_diff_pred
        diff_commute diff_is_0_eq not_less nat.distinct(1))
qed (simp add: advance_block.simps)

lemma iterator_init_at: "iter_at index stride (l, iterator_init index stride) 0"
  by (simp add: iter_at_def Let_def iterator_init_def)

lemma iter_at_block_Suc:
  "b \<le> (index + n * stride) div NUM_ENTRIES_PER_BLOCK \<Longrightarrow> b \<le> (index + Suc n * stride) div NUM_ENTRIES_PER_BLOCK"
  by (erule order_trans) (intro div_le_mono, simp)

lemma iter_poll_cases:
  fixes n index stride :: nat
  defines "i \<equiv> index + n * stride"
  assumes at: "iter_at index stride (l, it) n"
  obtains (unpublished) "l_num_entries l \<le> i" "next_entry l it = (None, refreshed l it)" "it_entry it = None"
  | (published) it' where "i < l_num_entries l" "obtain_entry l it = Some it'" "it_entry it' = Some (ptr_of i)"
      "iter_at index stride (l, it') n"
proof (cases "it_entry it")
  case (Some p)
  with at show thesis
    by (intro published [of it]) (simp_all add: iter_at_def Let_def i_def obtain_entry_def)
next
  case None
  let ?b = "i div NUM_ENTRIES_PER_BLOCK"
  have adv: "advance_block ?b (it_block_index it, it_iterator it) = (?b, ?b)"
    using at by (simp add: iter_at_def Let_def i_def advance_block_eq)
  let ?cur = "if i \<ge> it_current_entries it then l_num_entries l else it_current_entries it"
  have idx: "it_entry_index it = i"
    using None at by (simp add: iter_at_def Let_def i_def)
  show thesis
  proof (cases "i < l_num_entries l")
    case False
    then have "i \<ge> ?cur"
      using at by (auto simp: iter_at_def Let_def)
    with False None idx show thesis
      by (intro unpublished) (simp_all add: next_entry_def obtain_entry_def)
  next
    case True
    let ?it' = "it\<lparr>it_current_entries := ?cur, it_block_index := ?b, it_iterator := ?b,
                   it_entry := Some (ptr_of i), it_entry_index := i + it_stride it\<rparr>"
    have "obtain_entry l it = Some ?it'"
      using True None idx at adv by (simp add: obtain_entry_def ptr_of_def iter_at_def Let_def)
    moreover have "iter_at index stride (l, ?it') n"
      using True at by (simp add: iter_at_def Let_def i_def)
    ultimately show thesis
      by (intro published [of ?it'] True) simp_all
  qed
qed

lemma refreshed_at: "iter_at index stride (l, it) n \<Longrightarrow> it_entry it = None \<Longrightarrow> iter_at index stride (l, refreshed l it) n"
  by (simp add: iter_at_def Let_def refreshed_def)

lemma iter_poll_ready:
  assumes "iter_at index stride s n"
  shows "fst (iter_poll s) = iter_ready index stride s n"
    and "iter_at index stride (snd (iter_poll s)) (if iter_ready index stride s n = None then n else Suc n)"
    and "fst (snd (iter_poll s)) = fst s"
proof -
  obtain l it where s: "s = (l, it)" by fastforce
  show "fst (snd (iter_poll s)) = fst s"
    by (simp add: iter_poll_def split_def Let_def)
  from assms have at: "iter_at index stride (l, it) n" unfolding s .
  then have "fst (iter_poll s) = iter_ready index stride s n \<and>
      iter_at index stride (snd (iter_poll s)) (if iter_ready index stride s n = None then n else Suc n)"
  proof (cases rule: iter_poll_cases)
    case unpublished
    then show ?thesis
      using refreshed_at [OF at] by (simp add: s iter_poll_def iter_ready_def)
  next
    case (published it')
    have next': "next_entry l it =
        (if e_set (ent l (index + n * stride)) then (Some (ptr_of (index + n * stride)), it'\<lparr>it_entry := None\<rparr>)
         else (None, it'))"
      using published by (simp add: next_entry_def ent_def)
    have "iter_at index stride (l, it'\<lparr>it_entry := None\<rparr>) (Suc n)"
      using published(3,4) iter_at_block_Suc [of "it_block_index it'"] by (simp add: iter_at_def Let_def algebra_simps)
    then show ?thesis
      using published by (simp add: s iter_poll_def next' iter_ready_def)
  qed
  then show "fst (iter_poll s) = iter_ready index stride s n"
    "iter_at index stride (snd (iter_poll s)) (if iter_ready index stride s n = None then n else Suc n)"
    by auto
qed

interpretation sit: strided_reader iter_poll iter_env "iter_at index stride" "iter_ready index stride"
    "\<lambda>p. p" "\<lambda>n. ptr_of (index + n * stride)" for index stride
proof (unfold_locales, goal_cases)
  case (1 s n) then show ?case by (rule iter_poll_ready)
next
  case (2 s n) then show ?case by (rule iter_poll_ready)
next
  case (3 s n k e) then show ?case
    by (simp add: iter_ready_def iter_poll_ready(3))
next
  case (4 s s' n)
  then show ?case
    by (auto simp: iter_env_def log_grows_def iter_at_def Let_def split: option.splits)
next
  case (5 s s' n k e) then show ?case
    by (auto simp: iter_env_def log_grows_def iter_ready_def Let_def split: if_splits)
next
  case (6 s n e) then show ?case
    by (simp add: iter_ready_def Let_def split: if_splits)
qed

end
