(* ===== verification/Epoch_Layout.thy ===== *)
theory Epoch_Layout
  imports Storage_Log_Facts
begin

text \<open>
  What \<open>log::add_entries\<close> lays out for one epoch. The errors of its inner loop implement a schedule
  that is known in closed form: the secondary client \<open>j\<close> is due in round \<open>i\<close> when
  \<open>(e - i * a_j) mod a_0 < a_j\<close>. Every client gets exactly its number of slots, whatever the others have,
  and the slots get consecutive sequence numbers.
\<close>

subsection \<open>The schedule in closed form\<close>

definition first_error :: "assignment list \<Rightarrow> int" where
  "first_error asg = int (as_num_slots (asg ! 0) div length asg)"

definition err :: "assignment list \<Rightarrow> nat \<Rightarrow> nat \<Rightarrow> int" where
  "err asg i j =
     (first_error asg - int i * int (as_num_slots (asg ! j))) mod int (as_num_slots (asg ! 0))"

definition due :: "assignment list \<Rightarrow> nat \<Rightarrow> nat \<Rightarrow> bool" where
  "due asg i j \<longleftrightarrow> err asg i j < int (as_num_slots (asg ! j))"

definition round_plan :: "assignment list \<Rightarrow> nat \<Rightarrow> nat list" where
  "round_plan asg i = 0 # filter (due asg i) [1..<length asg]"

definition epoch_plan :: "assignment list \<Rightarrow> nat list" where
  "epoch_plan asg = concat (map (round_plan asg) [0..<as_num_slots (asg ! 0)])"

text \<open>
  What the ordering service promises about a slots message: the assignments are in decreasing order
  of their slots, and the counts are far below the range of \<open>long long\<close>.
\<close>

definition wf_assignments :: "assignment list \<Rightarrow> bool" where
  "wf_assignments asg \<longleftrightarrow>
     asg \<noteq> [] \<and> as_num_slots (asg ! 0) < 2 ^ 62 \<and>
     (\<forall>a \<in> set asg. as_num_slots a \<le> as_num_slots (asg ! 0)) \<and>
     (\<forall>a \<in> set asg. as_client_id a = UINT64_MAX \<or> as_client_id a < MAX_CLIENTS)"

lemma wf_assignments_nth:
  assumes "wf_assignments asg" and "j < length asg"
  shows "as_num_slots (asg ! j) \<le> as_num_slots (asg ! 0)"
    and "as_client_id (asg ! j) = UINT64_MAX \<or> as_client_id (asg ! j) < MAX_CLIENTS"
  using assms by (auto simp: wf_assignments_def)

lemma sub_mod_step:
  assumes "0 < a" and "0 \<le> b" and "b \<le> (a :: int)"
  shows "(x - b) mod a = (if x mod a < b then x mod a - b + a else x mod a - b)"
proof -
  have "(x - b) mod a = (x mod a - b) mod a"
    by (simp add: mod_diff_left_eq)
  moreover have "0 \<le> x mod a" "x mod a < a"
    using assms by simp_all
  ultimately show ?thesis
    using assms by (smt (verit) mod_add_self2 mod_pos_pos_trivial)
qed

lemma err_Suc:
  assumes "wf_assignments asg" and "j < length asg" and "0 < as_num_slots (asg ! 0)"
  shows "err asg (Suc i) j = err asg i j - int (as_num_slots (asg ! j)) +
           (if due asg i j then int (as_num_slots (asg ! 0)) else 0)"
proof -
  have "err asg (Suc i) j =
      ((first_error asg - int i * int (as_num_slots (asg ! j))) - int (as_num_slots (asg ! j)))
        mod int (as_num_slots (asg ! 0))"
    by (simp add: err_def algebra_simps)
  then show ?thesis
    using wf_assignments_nth [OF assms(1,2)] assms(3)
    by (subst (asm) sub_mod_step) (simp_all add: due_def err_def)
qed

lemma err_range:
  assumes "0 < as_num_slots (asg ! 0)"
  shows "0 \<le> err asg i j" "err asg i j < int (as_num_slots (asg ! 0))"
  using assms by (simp_all add: err_def)

text \<open>The number of rounds in which a client is due, by telescoping the errors.\<close>

lemma err_telescope:
  assumes "wf_assignments asg" and "j < length asg" and "0 < as_num_slots (asg ! 0)"
  shows "err asg k j = err asg 0 j - int k * int (as_num_slots (asg ! j)) +
           int (as_num_slots (asg ! 0)) * int (length (filter (\<lambda>i. due asg i j) [0..<k]))"
proof (induction k)
  case (Suc k)
  then show ?case
    by (simp add: err_Suc [OF assms] algebra_simps)
qed simp

lemma due_count:
  assumes wf: "wf_assignments asg" and j: "j < length asg"
  shows "length (filter (\<lambda>i. due asg i j) [0..<as_num_slots (asg ! 0)]) = as_num_slots (asg ! j)"
proof (cases "as_num_slots (asg ! 0) = 0")
  case True
  then show ?thesis
    using wf_assignments_nth(1) [OF wf j] by simp
next
  case False
  let ?a = "as_num_slots (asg ! 0)" and ?b = "as_num_slots (asg ! j)"
  let ?n = "length (filter (\<lambda>i. due asg i j) [0..<?a])"
  have "err asg ?a j = err asg 0 j"
    by (simp add: err_def mod_diff_right_eq [symmetric] del: of_nat_mult)
  then have "int ?a * int ?b = int ?a * int ?n"
    using err_telescope [OF wf j, of ?a] False by simp
  then show ?thesis
    using False by simp
qed

lemma count_concat: "count_list (concat xss) x = sum_list (map (\<lambda>xs. count_list xs x) xss)"
  by (induction xss) auto

lemma count_filter_upt: "count_list (filter P [a..<b]) x = (if P x \<and> a \<le> x \<and> x < b then 1 else 0)"
  by (induction b) (auto split: if_splits)

lemma count_round_plan:
  assumes "j < length asg"
  shows "count_list (round_plan asg i) j = (if j = 0 \<or> due asg i j then 1 else 0)"
  using assms by (auto simp: round_plan_def count_filter_upt)

lemma sum_list_indicator: "sum_list (map (\<lambda>i. if P i then 1 else 0 :: nat) xs) = length (filter P xs)"
  by (induction xs) auto

lemma count_epoch_plan:
  assumes wf: "wf_assignments asg" and j: "j < length asg"
  shows "count_list (epoch_plan asg) j = as_num_slots (asg ! j)"
proof -
  let ?a = "as_num_slots (asg ! 0)"
  have "count_list (epoch_plan asg) j = sum_list (map (\<lambda>i. if j = 0 \<or> due asg i j then 1 else 0) [0..<?a])"
    unfolding epoch_plan_def count_concat map_map comp_def by (simp only: count_round_plan [OF j])
  also have "\<dots> = as_num_slots (asg ! j)"
    unfolding sum_list_indicator using due_count [OF wf j] by (cases "j = 0") simp_all
  finally show ?thesis .
qed

lemma set_epoch_plan: "asg \<noteq> [] \<Longrightarrow> set (epoch_plan asg) \<subseteq> {0..<length asg}"
  by (auto simp: epoch_plan_def round_plan_def)

lemma length_sum_count:
  fixes n :: nat
  assumes "set xs \<subseteq> {0..<n}"
  shows "length xs = (\<Sum>j<n. count_list xs j)"
proof -
  from assms
  have "(\<Sum>j<n. count_list xs j) = (\<Sum>j\<in>set xs. count_list xs j)"
    by (intro sum.mono_neutral_right) (auto simp: count_list_0_iff)
  also have "\<dots> = length xs"
    by (rule sum_count_set) (simp_all add: atLeast0LessThan)
  finally show ?thesis by simp
qed

lemma length_epoch_plan:
  assumes "wf_assignments asg"
  shows "length (epoch_plan asg) = sum_list (map as_num_slots asg)"
proof -
  have "length (epoch_plan asg) = (\<Sum>j<length asg. count_list (epoch_plan asg) j)"
    using assms by (intro length_sum_count set_epoch_plan) (simp add: wf_assignments_def)
  also have "\<dots> = (\<Sum>j<length asg. as_num_slots (asg ! j))"
    by (intro sum.cong) (simp_all add: count_epoch_plan [OF assms])
  finally show ?thesis
    by (simp add: sum_list_sum_nth atLeast0LessThan)
qed

subsection \<open>The loops follow the schedule\<close>

fun yields :: "assignment list \<Rightarrow> nat list \<Rightarrow> log \<times> u64 \<Rightarrow> (log \<times> u64) res" where
  "yields asg [] st = Inr st"
| "yields asg (i # is) st = rbind (yield asg i st) (yields asg is)"

lemma yields_append: "yields asg (xs @ ys) st = rbind (yields asg xs st) (yields asg ys)"
proof (induction xs arbitrary: st)
  case (Cons x xs)
  then show ?case by (cases "yield asg x st") simp_all
qed simp

definition errs_at :: "assignment list \<Rightarrow> nat \<Rightarrow> int list" where
  "errs_at asg i = map (err asg i) [1..<length asg]"

lemma errs_at_update:
  assumes "1 \<le> m" and "m < length asg"
  shows "(map (err asg (Suc i)) [1..<m] @ map (err asg i) [m..<length asg])[m - 1 := err asg (Suc i) m] =
         map (err asg (Suc i)) [1..<Suc m] @ map (err asg i) [Suc m..<length asg]"
  using assms by (simp add: list_update_append upt_conv_Cons)

lemma secondaries_due:
  assumes "E ! (j - 1) = x" and "s64 (x - int (as_num_slots (asg ! j))) = z" and "z < 0"
    and "s64 (z + int (as_num_slots (asg ! 0))) = y"
  shows "secondaries asg (j # js) (E, st) =
         rbind (yield asg j st) (\<lambda>st'. secondaries asg js (E[j - 1 := y], st'))"
  using assms by (simp add: Let_def)

lemma secondaries_not_due:
  assumes "E ! (j - 1) = x" and "s64 (x - int (as_num_slots (asg ! j))) = z" and "\<not> z < 0"
  shows "secondaries asg (j # js) (E, st) = secondaries asg js (E[j - 1 := z], st)"
  using assms by (simp add: Let_def)

text \<open>The inner loop from the secondary client \<open>m\<close> on, in round \<open>i\<close>.\<close>

lemma secondaries_plan:
  assumes wf: "wf_assignments asg" and pos: "0 < as_num_slots (asg ! 0)"
    and m: "1 \<le> m" "m \<le> length asg"
  shows "secondaries asg [m..<length asg]
           (map (err asg (Suc i)) [1..<m] @ map (err asg i) [m..<length asg], st) =
         rbind (yields asg (filter (due asg i) [m..<length asg]) st) (\<lambda>st'. Inr (errs_at asg (Suc i), st'))"
  using m
proof (induction "length asg - m" arbitrary: m st)
  case 0
  then show ?case by (simp add: errs_at_def)
next
  case (Suc k)
  let ?errs = "\<lambda>m. map (err asg (Suc i)) [1..<m] @ map (err asg i) [m..<length asg]"
  let ?b = "as_num_slots (asg ! m)" and ?a = "as_num_slots (asg ! 0)"
  from Suc.hyps(2) Suc.prems have m: "m < length asg" by simp
  have b: "?b \<le> ?a" "?a < 2 ^ 62"
    using wf wf_assignments_nth(1) [OF wf m] by (simp_all add: wf_assignments_def)
  note r = err_range [OF pos, of i m] err_range [OF pos, of "Suc i" m]
  have at: "?errs m ! (m - 1) = err asg i m"
    using m Suc.prems(1) by (simp add: nth_append)
  have e: "s64 (err asg i m - int ?b) = err asg i m - int ?b"
    using r b by (intro s64_small) simp_all
  have IH: "secondaries asg [Suc m..<length asg] (?errs (Suc m), st') =
      rbind (yields asg (filter (due asg i) [Suc m..<length asg]) st') (\<lambda>st'. Inr (errs_at asg (Suc i), st'))" for st'
    using Suc.hyps(1) [of "Suc m"] Suc.hyps(2) m by simp
  have upd: "(?errs m)[m - 1 := err asg (Suc i) m] = ?errs (Suc m)"
    using errs_at_update [of m asg i] m Suc.prems(1) by simp
  have cons: "[m..<length asg] = m # [Suc m..<length asg]"
    using m by (rule upt_conv_Cons)
  show ?case
  proof (cases "due asg i m")
    case True
    then have neg: "err asg i m - int ?b < 0" and new: "err asg i m - int ?b + int ?a = err asg (Suc i) m"
      using err_Suc [OF wf m pos, of i] by (simp_all add: due_def)
    have "s64 (err asg i m - int ?b + int ?a) = err asg (Suc i) m"
      unfolding new using r b by (intro s64_small) simp_all
    from secondaries_due [OF at e neg this, of "[Suc m..<length asg]" st, folded cons, unfolded upd]
    have step: "secondaries asg [m..<length asg] (?errs m, st) =
        rbind (yield asg m st) (\<lambda>st'. secondaries asg [Suc m..<length asg] (?errs (Suc m), st'))"
      .
    have "filter (due asg i) [m..<length asg] = m # filter (due asg i) [Suc m..<length asg]"
      using True by (simp add: cons)
    then show ?thesis
      unfolding step IH by (cases "yield asg m st") simp_all
  next
    case False
    then have nn: "\<not> err asg i m - int ?b < 0" and new: "err asg i m - int ?b = err asg (Suc i) m"
      using err_Suc [OF wf m pos, of i] by (simp_all add: due_def)
    from secondaries_not_due [OF at e nn, of "[Suc m..<length asg]" st, folded cons, unfolded new upd]
    have step: "secondaries asg [m..<length asg] (?errs m, st) =
        secondaries asg [Suc m..<length asg] (?errs (Suc m), st)"
      .
    have "filter (due asg i) [m..<length asg] = filter (due asg i) [Suc m..<length asg]"
      using False by (simp add: cons)
    then show ?thesis
      unfolding step IH by simp
  qed
qed

lemma primaries_plan:
  assumes wf: "wf_assignments asg" and pos: "0 < as_num_slots (asg ! 0)"
  shows "primaries asg k (errs_at asg i, st) =
         rbind (yields asg (concat (map (round_plan asg) [i..<i + k])) st) (\<lambda>st'. Inr (errs_at asg (i + k), st'))"
proof (induction k arbitrary: i st)
  case (Suc k)
  have "1 \<le> length asg"
    using wf by (cases asg) (simp_all add: wf_assignments_def)
  then have sec: "secondaries asg [1..<length asg] (errs_at asg i, st') =
      rbind (yields asg (filter (due asg i) [1..<length asg]) st') (\<lambda>st'. Inr (errs_at asg (Suc i), st'))" for st'
    using secondaries_plan [OF wf pos, of 1 i st'] by (simp add: errs_at_def)
  have cons: "[i..<i + Suc k] = i # [Suc i..<Suc i + k]"
    by (simp add: upt_conv_Cons)
  show ?case
  proof (cases "yield asg 0 st")
    case (Inr st')
    then show ?thesis
      unfolding cons by (cases "yields asg (filter (due asg i) [1..<length asg]) st'")
        (simp_all add: sec [unfolded One_nat_def] Suc.IH yields_append round_plan_def del: upt_Suc)
  next
    case (Inl e)
    then show ?thesis
      unfolding cons by (simp add: round_plan_def)
  qed
qed simp

lemma add_entries_yields:
  assumes wf: "wf_assignments asg"
  shows "add_entries start_gsn asg l =
         rbind (yields asg (epoch_plan asg) (l, start_gsn)) (\<lambda>(l', _). Inr (l'\<lparr>l_num_entries := l_current_entries l'\<rparr>))"
proof (cases "as_num_slots (asg ! 0) = 0")
  case True
  with wf show ?thesis
    by (simp add: add_entries_def epoch_plan_def wf_assignments_def Let_def)
next
  case False
  then have pos: "0 < as_num_slots (asg ! 0)" by simp
  have ne: "asg \<noteq> []" and small: "as_num_slots (asg ! 0) < 2 ^ 62"
    using wf by (simp_all add: wf_assignments_def)
  have "first_error asg < 2 ^ 62"
    using le_less_trans [OF div_le_dividend small, of "length asg"] by (simp add: first_error_def)
  then have s: "s64 (first_error asg) = first_error asg"
    by (intro s64_small) (simp_all add: first_error_def)
  have "errs_at asg 0 = replicate (length asg - 1) (first_error asg)"
  proof (cases "length asg = 1")
    case False
    with ne have "1 < length asg" by (cases asg) auto
    with pos have "first_error asg < int (as_num_slots (asg ! 0))"
      by (simp add: first_error_def)
    then have "err asg 0 j = first_error asg" for j
      by (simp add: err_def first_error_def)
    then show ?thesis
      by (intro nth_equalityI) (simp_all add: errs_at_def)
  qed (simp add: errs_at_def)
  then show ?thesis
    using primaries_plan [OF wf pos, of "as_num_slots (asg ! 0)" 0 "(l, start_gsn)"] ne
    by (cases "yields asg (epoch_plan asg) (l, start_gsn)")
      (auto simp: add_entries_def Let_def s first_error_def [symmetric] epoch_plan_def)
qed

subsection \<open>The log after an epoch\<close>

fun plan_slots :: "assignment list \<Rightarrow> nat list \<Rightarrow> u64 \<Rightarrow> (u64 \<times> u64) list" where
  "plan_slots asg [] g = []"
| "plan_slots asg (i # is) g =
     (if as_client_id (asg ! i) = UINT64_MAX then [] else [(as_client_id (asg ! i), g)]) @
     plan_slots asg is (u64_add g 1)"

text \<open>New slots only: the entries that were there keep their contents, the new ones are open.\<close>

definition log_extends :: "log \<Rightarrow> log \<Rightarrow> bool" where
  "log_extends l l' \<longleftrightarrow>
     l_current_entries l \<le> l_current_entries l' \<and>
     (\<forall>i < l_current_entries l.
        e_client_id (ent l' i) = e_client_id (ent l i) \<and> e_gsn (ent l' i) = e_gsn (ent l i) \<and>
        e_set (ent l' i) = e_set (ent l i) \<and> e_data_length (ent l' i) = e_data_length (ent l i) \<and>
        entry_payload (ent l' i) = entry_payload (ent l i)) \<and>
     (\<forall>i. l_current_entries l \<le> i \<and> i < l_current_entries l' \<longrightarrow>
        \<not> e_set (ent l' i) \<and> e_data_length (ent l' i) = 0)"

lemma log_extends_refl [simp]: "log_extends l l"
  by (auto simp: log_extends_def)

lemma log_extends_trans: "log_extends l l' \<Longrightarrow> log_extends l' l'' \<Longrightarrow> log_extends l l''"
  unfolding log_extends_def by (smt (verit) le_trans linorder_not_less order_less_le_trans)

lemma place_entry_extends:
  assumes "log_inv l" and "l_entry l < NUM_ENTRIES_PER_BLOCK"
  shows "log_extends l (place_entry l c g)"
  using place_entry_fresh(1,3) [where c = c and g = g, OF assms] place_entry_shape [OF assms]
  by (auto simp: log_extends_def less_Suc_eq zero_entry_def)

lemma room_extends: "log_inv l \<Longrightarrow> log_extends l (room l)"
  using room_inv [of l] by (auto simp: log_extends_def ent_def)

lemma room_slots: "log_inv l \<Longrightarrow> log_slots (room l) = log_slots l"
  using room_inv [of l] by (simp add: log_slots_def ent_def)

lemma yield_log:
  assumes inv: "log_inv l"
    and c: "as_client_id (asg ! i) = UINT64_MAX \<or> as_client_id (asg ! i) < MAX_CLIENTS"
  shows "\<exists>l'. yield asg i (l, g) = Inr (l', u64_add g 1) \<and> log_inv l' \<and> log_extends l l' \<and>
           l_num_entries l' = l_num_entries l \<and> log_slots l' = log_slots l @ plan_slots asg [i] g"
proof (cases "as_client_id (asg ! i) = UINT64_MAX")
  case True
  with inv show ?thesis by (simp add: yield_def)
next
  case False
  let ?l' = "place_entry (room l) (as_client_id (asg ! i)) g"
  note r = room_inv [OF inv]
  have "yield asg i (l, g) = Inr (?l', u64_add g 1)"
    using False c by (auto simp: yield_def)
  moreover have "log_inv ?l'" and "log_slots ?l' = log_slots l @ plan_slots asg [i] g"
    using place_entry_inv [OF r(1,2)] place_entry_slots [OF r(1,2)] False by (simp_all add: room_slots inv)
  moreover have "log_extends l ?l'"
    using log_extends_trans [OF room_extends [OF inv] place_entry_extends [OF r(1,2)]] .
  moreover have "l_num_entries ?l' = l_num_entries l"
    using place_entry_fresh(2) [OF r(1,2)] r(5) by simp
  ultimately show ?thesis by blast
qed

lemma yields_log:
  assumes "log_inv l"
    and "\<forall>i \<in> set is. as_client_id (asg ! i) = UINT64_MAX \<or> as_client_id (asg ! i) < MAX_CLIENTS"
  shows "\<exists>l' g'. yields asg is (l, g) = Inr (l', g') \<and> log_inv l' \<and> log_extends l l' \<and>
           l_num_entries l' = l_num_entries l \<and> log_slots l' = log_slots l @ plan_slots asg is g"
  using assms
proof (induction "is" arbitrary: l g)
  case (Cons i "is")
  obtain l' where l': "yield asg i (l, g) = Inr (l', u64_add g 1)" "log_inv l'" "log_extends l l'"
      "l_num_entries l' = l_num_entries l" "log_slots l' = log_slots l @ plan_slots asg [i] g"
    using yield_log [OF Cons.prems(1), of asg i g] Cons.prems(2) by auto
  obtain l'' g' where l'': "yields asg is (l', u64_add g 1) = Inr (l'', g')" "log_inv l''"
      "log_extends l' l''" "l_num_entries l'' = l_num_entries l'"
      "log_slots l'' = log_slots l' @ plan_slots asg is (u64_add g 1)"
    using Cons.IH [OF l'(2), of "u64_add g 1"] Cons.prems(2) by auto
  show ?case
    using l' l'' log_extends_trans [OF l'(3) l''(3)] by auto
qed simp

lemma plan_slots_eq:
  assumes "g + length is \<le> 2 ^ 64"
  shows "plan_slots asg is g =
         map (\<lambda>k. (as_client_id (asg ! (is ! k)), g + k))
           (filter (\<lambda>k. as_client_id (asg ! (is ! k)) \<noteq> UINT64_MAX) [0..<length is])"
  using assms
proof (induction "is" arbitrary: g)
  case (Cons i "is")
  have IH: "plan_slots asg is (u64_add g 1) =
      map (\<lambda>k. (as_client_id (asg ! (is ! k)), Suc g + k))
        (filter (\<lambda>k. as_client_id (asg ! (is ! k)) \<noteq> UINT64_MAX) [0..<length is])"
  proof (cases "is = []")
    case False
    with Cons.prems have "g + 1 < 2 ^ 64"
      by (cases "is") auto
    with Cons show ?thesis by (simp add: u64_add_small)
  qed simp
  have upt: "[0..<length (i # is)] = 0 # map Suc [0..<length is]"
    by (simp add: upt_conv_Cons map_Suc_upt del: upt_Suc)
  show ?case
    unfolding upt plan_slots.simps IH by (simp add: filter_map comp_def)
qed simp

lemma publish_log:
  fixes l :: log
  defines "l' \<equiv> l\<lparr>l_num_entries := l_current_entries l\<rparr>"
  assumes "log_inv l"
  shows "log_inv l'" and "log_slots l' = log_slots l" and "log_extends k l' \<longleftrightarrow> log_extends k l"
proof -
  have e: "ent l' = ent l" and c: "l_current_entries l' = l_current_entries l"
    by (simp_all add: fun_eq_iff ent_def l'_def)
  note same = view_cong [OF e c]
  show "log_inv l'"
    using assms(2) unfolding log_inv_def same c by (auto simp: l'_def)
  show "log_slots l' = log_slots l" "log_extends k l' \<longleftrightarrow> log_extends k l"
    unfolding log_slots_def log_extends_def same c by simp_all
qed

lemma add_entries_log:
  assumes inv: "log_inv l" and wf: "wf_assignments asg"
    and room: "start_gsn + sum_list (map as_num_slots asg) \<le> 2 ^ 64"
  shows "\<exists>l'. add_entries start_gsn asg l = Inr l' \<and> log_inv l' \<and> log_extends l l' \<and>
           l_num_entries l' = l_current_entries l' \<and>
           log_slots l' = log_slots l @
             map (\<lambda>k. (as_client_id (asg ! (epoch_plan asg ! k)), start_gsn + k))
               (filter (\<lambda>k. as_client_id (asg ! (epoch_plan asg ! k)) \<noteq> UINT64_MAX)
                 [0..<sum_list (map as_num_slots asg)])"
proof -
  have ne: "asg \<noteq> []"
    using wf by (simp add: wf_assignments_def)
  have "\<forall>i \<in> set (epoch_plan asg). as_client_id (asg ! i) = UINT64_MAX \<or> as_client_id (asg ! i) < MAX_CLIENTS"
    using set_epoch_plan [OF ne] wf_assignments_nth(2) [OF wf] by force
  from yields_log [OF inv this, of start_gsn] obtain l' g' where
    l': "yields asg (epoch_plan asg) (l, start_gsn) = Inr (l', g')" "log_inv l'" "log_extends l l'"
      "log_slots l' = log_slots l @ plan_slots asg (epoch_plan asg) start_gsn"
    by blast
  have "log_slots l' = log_slots l @
      map (\<lambda>k. (as_client_id (asg ! (epoch_plan asg ! k)), start_gsn + k))
        (filter (\<lambda>k. as_client_id (asg ! (epoch_plan asg ! k)) \<noteq> UINT64_MAX)
          [0..<sum_list (map as_num_slots asg)])"
    using room plan_slots_eq [of start_gsn "epoch_plan asg" asg] unfolding l'(4) length_epoch_plan [OF wf]
    by simp
  with l' publish_log [OF l'(2)] show ?thesis
    by (simp add: add_entries_yields [OF wf])
qed

end
