(* ===== verification/Zip_Concurrent.thy ===== *)
theory Zip_Concurrent
  imports Zip_Prelude
begin

text \<open>
  The lock-free containers of \<open>src/util/concurrent.h\<close>: the bag with its readers and the queue. Both hand
  elements over in the order they were added; the contract is the locale \<open>handover\<close>, interpreted on
  both. The producer's store of the counter (release) and the consumer's load of it (acquire) are the
  points where an operation takes effect, so an execution is a sequence of whole operations.
\<close>

subsection \<open>The contract\<close>

datatype 'a ho_op = Put 'a | Take

text \<open>The elements a sequence of operations hands over, and the state it ends in.\<close>

fun ho_run :: "('a \<Rightarrow> 's \<Rightarrow> 's) \<Rightarrow> ('s \<Rightarrow> 'a option \<times> 's) \<Rightarrow> 'a ho_op list \<Rightarrow> 's \<Rightarrow> 'a list \<times> 's" where
  "ho_run put get [] s = ([], s)"
| "ho_run put get (Put x # ops) s = ho_run put get ops (put x s)"
| "ho_run put get (Take # ops) s =
     (let (r, s') = get s; (ys, s'') = ho_run put get ops s'
      in (case r of None \<Rightarrow> ys | Some y \<Rightarrow> y # ys, s''))"

fun puts :: "'a ho_op list \<Rightarrow> 'a list" where
  "puts [] = []"
| "puts (Put x # ops) = x # puts ops"
| "puts (Take # ops) = puts ops"

text \<open>
  \<open>put\<close> and \<open>take\<close> on a container state, \<open>pending\<close> the elements added and not handed over yet.
\<close>

locale handover =
  fixes init :: 's
    and put :: "'a \<Rightarrow> 's \<Rightarrow> 's"
    and get :: "'s \<Rightarrow> 'a option \<times> 's"
    and pending :: "'s \<Rightarrow> 'a list"
    and inv :: "'s \<Rightarrow> bool"
  assumes inv_init: "inv init"
    and pending_init: "pending init = []"
    and inv_put: "inv s \<Longrightarrow> inv (put x s)"
    and pending_put: "inv s \<Longrightarrow> pending (put x s) = pending s @ [x]"
    and inv_get: "inv s \<Longrightarrow> inv (snd (get s))"
    and get_empty: "inv s \<Longrightarrow> pending s = [] \<Longrightarrow> fst (get s) = None \<and> pending (snd (get s)) = []"
    and get_cons: "inv s \<Longrightarrow> pending s = x # xs \<Longrightarrow> fst (get s) = Some x \<and> pending (snd (get s)) = xs"
begin

lemma run_exact: "inv s \<Longrightarrow> ho_run put get ops s = (ys, s') \<Longrightarrow> ys @ pending s' = pending s @ puts ops \<and> inv s'"
proof (induction ops arbitrary: s ys s')
  case Nil
  then show ?case by simp
next
  case (Cons op ops)
  show ?case
  proof (cases op)
    case (Put x)
    with Cons.prems Cons.IH [of "put x s" ys s'] show ?thesis
      by (simp add: inv_put pending_put)
  next
    case Take
    obtain r t where g: "get s = (r, t)"
      by fastforce
    obtain zs u where r: "ho_run put get ops t = (zs, u)"
      by fastforce
    have t: "inv t"
      using inv_get [OF Cons.prems(1)] g by simp
    then have IH: "zs @ pending u = pending t @ puts ops" "inv u"
      using Cons.IH r by auto
    have res: "ys = (case r of None \<Rightarrow> zs | Some y \<Rightarrow> y # zs)" "s' = u"
      using Cons.prems(2) Take g r by (auto simp: Let_def)
    show ?thesis
    proof (cases "pending s")
      case Nil
      with get_empty [OF Cons.prems(1)] g have "r = None" "pending t = []"
        by auto
      with IH res Take Nil show ?thesis by simp
    next
      case (Cons x xs)
      with get_cons [OF \<open>inv s\<close>] g have "r = Some x" "pending t = xs"
        by auto
      with IH res Take Cons show ?thesis by simp
    qed
  qed
qed

lemma run_fifo:
  assumes "ho_run put get ops init = (ys, s')"
  shows "ys @ pending s' = puts ops"
  using run_exact [OF inv_init assms] by (simp add: pending_init)

end

subsection \<open>The queue\<close>

text \<open>
  \<open>zip::util::queue<T>\<close>. The list keeps the element handed over last at its front, so that the
  consumer's iterator stays valid: \<open>iterator_\<close> points to the front of \<open>q_queue\<close> once an element has
  been polled.
\<close>

record 'a queue =
  q_queue :: "'a list"
  q_num_enqueued :: nat
  q_num_polled :: nat

definition queue_init :: "'a queue" where
  "queue_init = \<lparr>q_queue = [], q_num_enqueued = 0, q_num_polled = 0\<rparr>"

definition enqueue :: "'a \<Rightarrow> 'a queue \<Rightarrow> 'a queue" where
  "enqueue x q = q\<lparr>q_queue := q_queue q @ [x], q_num_enqueued := Suc (q_num_enqueued q)\<rparr>"

definition dequeue :: "'a queue \<Rightarrow> 'a option \<times> 'a queue" where
  "dequeue q =
     (if q_num_polled q < q_num_enqueued q
      then (let l = (if q_num_polled q = 0 then q_queue q else tl (q_queue q))
            in (Some (hd l), q\<lparr>q_queue := l, q_num_polled := Suc (q_num_polled q)\<rparr>))
      else (None, q))"

definition queue_pending :: "'a queue \<Rightarrow> 'a list" where
  "queue_pending q = (if q_num_polled q = 0 then q_queue q else tl (q_queue q))"

definition queue_inv :: "'a queue \<Rightarrow> bool" where
  "queue_inv q \<longleftrightarrow>
     q_num_polled q \<le> q_num_enqueued q \<and>
     length (q_queue q) = q_num_enqueued q - (q_num_polled q - 1)"

interpretation sq: handover queue_init enqueue dequeue queue_pending queue_inv
proof (unfold_locales, goal_cases)
  case 1 show ?case by (simp add: queue_inv_def queue_init_def)
next
  case 2 show ?case by (simp add: queue_pending_def queue_init_def)
next
  case (3 s x) then show ?case by (auto simp: queue_inv_def enqueue_def)
next
  case (4 s x) then show ?case
    by (cases "q_queue s") (auto simp: queue_inv_def queue_pending_def enqueue_def)
next
  case (5 s) then show ?case by (auto simp: queue_inv_def dequeue_def Let_def)
next
  case (6 s) then show ?case
    by (auto simp: queue_inv_def queue_pending_def dequeue_def Let_def split: if_splits
        dest: arg_cong [of _ _ length])
next
  case (7 s x xs) then show ?case
    by (auto simp: queue_inv_def queue_pending_def dequeue_def Let_def split: if_splits
        dest: arg_cong [of _ _ length])
qed

subsection \<open>The bag and one of its readers\<close>

text \<open>
  \<open>zip::util::bag<T>\<close> never removes an element; each \<open>bag_reader<T>\<close> has its own position. The state
  below is a bag with one reader of it: readers share nothing but the list and the counter, which
  only \<open>add\<close> writes.
\<close>

record 'a bag =
  b_list :: "'a list"
  b_num_elements :: nat

record bag_reader =
  br_num_polled :: nat

definition bag_init :: "'a bag" where
  "bag_init = \<lparr>b_list = [], b_num_elements = 0\<rparr>"

definition bag_add :: "'a \<Rightarrow> 'a bag \<Rightarrow> 'a bag" where
  "bag_add x b = b\<lparr>b_list := b_list b @ [x], b_num_elements := Suc (b_num_elements b)\<rparr>"

definition bag_reader_init :: bag_reader where
  "bag_reader_init = \<lparr>br_num_polled = 0\<rparr>"

text \<open>The iterator points to the element polled last: \<open>begin()\<close> at first, then one further each time.\<close>

definition bag_get :: "'a bag \<Rightarrow> bag_reader \<Rightarrow> 'a option \<times> bag_reader" where
  "bag_get b r =
     (if br_num_polled r < b_num_elements b
      then (Some (b_list b ! br_num_polled r), r\<lparr>br_num_polled := Suc (br_num_polled r)\<rparr>)
      else (None, r))"

definition bag_pending :: "'a bag \<times> bag_reader \<Rightarrow> 'a list" where
  "bag_pending s = drop (br_num_polled (snd s)) (b_list (fst s))"

definition bag_inv :: "'a bag \<times> bag_reader \<Rightarrow> bool" where
  "bag_inv s \<longleftrightarrow>
     b_num_elements (fst s) = length (b_list (fst s)) \<and> br_num_polled (snd s) \<le> length (b_list (fst s))"

definition bag_put :: "'a \<Rightarrow> 'a bag \<times> bag_reader \<Rightarrow> 'a bag \<times> bag_reader" where
  "bag_put x s = (bag_add x (fst s), snd s)"

definition bag_take :: "'a bag \<times> bag_reader \<Rightarrow> 'a option \<times> 'a bag \<times> bag_reader" where
  "bag_take s = (let (x, r) = bag_get (fst s) (snd s) in (x, fst s, r))"

interpretation bg: handover "(bag_init, bag_reader_init)" bag_put bag_take bag_pending bag_inv
proof (unfold_locales, goal_cases)
  case 1 show ?case by (simp add: bag_inv_def bag_init_def bag_reader_init_def)
next
  case 2 show ?case by (simp add: bag_pending_def bag_init_def bag_reader_init_def)
next
  case (3 s x) then show ?case by (auto simp: bag_inv_def bag_put_def bag_add_def)
next
  case (4 s x) then show ?case by (auto simp: bag_inv_def bag_pending_def bag_put_def bag_add_def)
next
  case (5 s) then show ?case
    by (auto simp: bag_inv_def bag_take_def bag_get_def Let_def)
next
  case (6 s) then show ?case
    by (auto simp: bag_inv_def bag_pending_def bag_take_def bag_get_def Let_def)
next
  case (7 s x xs)
  then have l: "br_num_polled (snd s) < length (b_list (fst s))"
    by (metis bag_pending_def drop_eq_Nil linorder_not_less list.distinct(1))
  with 7 have "b_list (fst s) ! br_num_polled (snd s) = x" "drop (Suc (br_num_polled (snd s))) (b_list (fst s)) = xs"
    by (simp_all add: bag_pending_def Cons_nth_drop_Suc [symmetric])
  with 7 l show ?case
    by (simp add: bag_inv_def bag_pending_def bag_take_def bag_get_def Let_def)
qed

subsection \<open>Properties\<close>

text \<open>
  The lockless queue is first-in first-out: in any sequence of enqueue and dequeue operations, the elements that
  come out, followed by those still inside, are the elements that went in, in order, none lost or repeated.
\<close>

theorem queue_fifo:
  assumes "ho_run enqueue dequeue ops queue_init = (ys, q)"
  shows "ys @ queue_pending q = puts ops"
  by (rule sq.run_fifo [OF assms])

theorem queue_fifo_witness:
  "\<exists>q. ho_run enqueue dequeue [Put 1, Put 2, Take, Put (3 :: nat), Take] queue_init = ([1, 2], q) \<and> queue_pending q = [3]"
proof -
  obtain q where q: "ho_run enqueue dequeue [Put 1, Put 2, Take, Put (3 :: nat), Take] queue_init = ([1, 2], q)"
    by (simp add: enqueue_def dequeue_def queue_init_def)
  from queue_fifo [OF q] q show ?thesis by simp
qed

end
