(* ===== verification/Storage.thy ===== *)
theory Storage
  imports Storage_Position Storage_Iterator Epoch_Layout Messaging Zip_Util Zip_Concurrent
begin

text \<open>
  A storage server, \<open>src/storage/storage.h\<close> and \<open>src/storage/storage.cpp\<close>: the registration of clients
  and subscribers, the control thread with the recovery of failed clients, the client threads with the
  inserts, and the subscriber threads that stream the log.

  A handler takes the lock of the client it is about, so an execution is a sequence of whole handlers.
  A handler that waits on the condition variable for the client to connect is not enabled before: its
  result is \<open>None\<close>, which also stands for a loop that does not end.
\<close>

subsection \<open>State\<close>

text \<open>\<open>storage::client_state\<close>; \<open>sc_send_queue\<close> says whether the member holds a connected send queue.\<close>

record storage_client =
  sc_connected :: bool
  sc_disconnected :: bool
  sc_send_queue :: bool
  sc_position :: position
  sc_latest_gsn :: u64

definition storage_client_new :: "u64 \<Rightarrow> storage_client" where
  "storage_client_new client_id =
     \<lparr>sc_connected = False, sc_disconnected = False, sc_send_queue = False,
      sc_position = position_init client_id, sc_latest_gsn = UINT64_MAX\<rparr>"

text \<open>
  \<open>change_t\<close>: a new \<open>subscriber_state\<close> with the numbers of its receive queues and of the send queues to
  it, or the identity of a subscriber that leaves.
\<close>

datatype change_t = Subscriber_state u64 nat nat | Subscriber_left u64

record storage_state =
  st_shard_id :: u64
  st_replica_id :: u64
  st_log :: log
  st_client_state :: "u64 \<Rightarrow> storage_client option"
  st_subscribers :: "u64 list"
  st_changes :: "change_t bag"
  st_subscriber_threads :: nat
  st_subscriber_depth :: nat
  st_iterator :: wraparound_iterator

definition storage_init ::
  "nat \<Rightarrow> nat \<Rightarrow> nat \<Rightarrow> u64 \<Rightarrow> u64 \<Rightarrow> storage_state res" where
  "storage_init client_threads subscriber_threads subscriber_depth shard_id replica_id =
     (if \<not> shard_id < NUM_SHARDS then Inl (Assert_failed ''invalid shard ID'')
      else if \<not> replica_id < MAX_REPLICAS then Inl (Assert_failed ''invalid replica ID'')
      else if \<not> client_threads > 0 then Inl (Assert_failed ''no client threads created'')
      else if \<not> subscriber_depth > 0 then Inl (Assert_failed ''invalid subscriber depth'')
      else Inr \<lparr>st_shard_id = shard_id, st_replica_id = replica_id, st_log = log_init,
                st_client_state = (\<lambda>_. None), st_subscribers = [], st_changes = bag_init,
                st_subscriber_threads = subscriber_threads, st_subscriber_depth = subscriber_depth,
                st_iterator = wraparound_init (MAX_OUTSTANDING_REQUESTS + 1)\<rparr>)"

text \<open>
  The array is indexed without a check. \<open>cas_ok\<close> is the outcome of \<open>compare_exchange_weak\<close> on a null
  location, which the standard lets fail spuriously; then \<open>*state\<close> dereferences null.
\<close>

definition get_client_state :: "bool \<Rightarrow> u64 \<Rightarrow> storage_state \<Rightarrow> storage_client res" where
  "get_client_state cas_ok client_id s =
     (if client_id \<ge> MAX_CLIENTS then Inl Out_of_bounds
      else case st_client_state s client_id of
             Some c \<Rightarrow> Inr c
           | None \<Rightarrow> if cas_ok then Inr (storage_client_new client_id) else Inl Null_deref)"

definition set_client :: "u64 \<Rightarrow> storage_client \<Rightarrow> storage_state \<Rightarrow> storage_state" where
  "set_client client_id c s = s\<lparr>st_client_state := (st_client_state s)(client_id \<mapsto> c)\<rparr>"

subsection \<open>Registration\<close>

definition storage_add_client :: "u64 \<Rightarrow> storage_state \<Rightarrow> storage_state res" where
  "storage_add_client client_id s =
     (if client_id \<ge> MAX_CLIENTS then Inr s
      else rbind (get_client_state True client_id s)
             (\<lambda>c. if sc_connected c then Inr (set_client client_id c s)
                  else Inr (set_client client_id (c\<lparr>sc_send_queue := True, sc_connected := True\<rparr>) s)))"

text \<open>
  The division that decides about the warning traps when there are no subscriber threads;
  \<open>set_max_outstanding\<close> checks the depth for each send queue.
\<close>

definition storage_add_subscriber :: "u64 \<Rightarrow> nat \<Rightarrow> nat \<Rightarrow> storage_state \<Rightarrow> storage_state res" where
  "storage_add_subscriber subscriber_id num_queues num_send_queues s =
     (if subscriber_id \<in> set (st_subscribers s) then Inr s
      else if st_subscriber_threads s = 0 then Inl Div_by_zero
      else if num_send_queues > 0 \<and> \<not> st_subscriber_depth s \<le> MAX_OUTSTANDING_REQUESTS
      then Inl (Assert_failed ''invalid value of maximum outstanding messages'')
      else Inr (s\<lparr>st_changes := bag_add (Subscriber_state subscriber_id num_queues num_send_queues) (st_changes s),
                  st_subscribers := st_subscribers s @ [subscriber_id]\<rparr>))"

subsection \<open>The control thread\<close>

type_synonym storage_handler = "message \<Rightarrow> storage_state \<Rightarrow> (storage_state \<times> send list) res option"

text \<open>Take the client's state and lock; the variant that waits until the client is connected.\<close>

definition with_client ::
  "u64 \<Rightarrow> storage_state \<Rightarrow> (storage_client \<Rightarrow> (storage_state \<times> send list) res option) \<Rightarrow>
   (storage_state \<times> send list) res option" where
  "with_client client_id s f =
     (case get_client_state True client_id s of Inl e \<Rightarrow> Some (Inl e) | Inr c \<Rightarrow> f c)"

definition with_connected ::
  "u64 \<Rightarrow> storage_state \<Rightarrow> (storage_client \<Rightarrow> (storage_state \<times> send list) res option) \<Rightarrow>
   (storage_state \<times> send list) res option" where
  "with_connected client_id s f =
     with_client client_id s (\<lambda>c. if sc_connected c then f c else None)"

definition disconnect :: "storage_client \<Rightarrow> storage_client" where
  "disconnect c = (if \<not> sc_disconnected c then c\<lparr>sc_send_queue := False, sc_disconnected := True\<rparr> else c)"

fun storage_on_failure :: storage_handler where
  "storage_on_failure (Client_intro client_id _ _) s =
     with_connected client_id s (\<lambda>c.
       Some (Inr (set_client client_id (disconnect c) s,
                  [Send To_order (Order_client_freeze client_id) 0 False])))"
| "storage_on_failure _ s = Some (Inr (s, []))"

fun storage_on_slots :: storage_handler where
  "storage_on_slots (Storage_slots start_gsn assignments) s =
     (if length assignments > 0
      then Some (rbind (add_entries start_gsn assignments (st_log s)) (\<lambda>l. Inr (s\<lparr>st_log := l\<rparr>, [])))
      else Some (Inr (s, [])))"
| "storage_on_slots _ s = Some (Inr (s, []))"

fun storage_on_freeze :: storage_handler where
  "storage_on_freeze (Storage_client_freeze client_id) s =
     with_connected client_id s (\<lambda>c.
       Some (Inr (set_client client_id (disconnect c) s,
                  [Send To_order (Order_client_cut client_id (st_shard_id s) (st_replica_id s) (sc_latest_gsn c)) 0 False])))"
| "storage_on_freeze _ s = Some (Inr (s, []))"

text \<open>The entries of the requested suffix that carry data, each in the next buffer of the ring.\<close>

definition data_messages :: "storage_state \<Rightarrow> ptr list \<Rightarrow> message list" where
  "data_messages s ps =
     map (\<lambda>p. let e = l_heap (st_log s) p
              in Order_client_data (e_client_id e) (st_shard_id s) (st_replica_id s) (e_gsn e) (entry_payload e))
       (filter (\<lambda>p. e_data_length (l_heap (st_log s) p) > 0) ps)"

fun storage_on_cut :: storage_handler where
  "storage_on_cut (Storage_client_cut client_id begin_gsn) s =
     with_client client_id s (\<lambda>c.
       map_option (\<lambda>ps.
         (let ms = data_messages s ps;
              flush = Order_client_data client_id (st_shard_id s) (st_replica_id s) UINT64_MAX []
          in Inr ((set_client client_id c s)\<lparr>st_iterator := snd (get_n (length ms) (st_iterator s))\<rparr>,
                  map (\<lambda>m. Send To_order m 0 False) (ms @ [flush]))))
         (if sc_latest_gsn c \<noteq> UINT64_MAX then position_suffix (st_log s) (sc_position c) begin_gsn
          else Some []))"
| "storage_on_cut _ s = Some (Inr (s, []))"

text \<open>The handler inserts with the sequence number as the number of slots to close.\<close>

fun storage_on_patch :: storage_handler where
  "storage_on_patch (Storage_client_patch client_id gsn bytes) s =
     with_client client_id s (\<lambda>c. Some
       (if gsn > sc_latest_gsn c
        then rbind (position_insert (st_log s) (sc_position c) bytes (length bytes) gsn)
               (\<lambda>(l, pos, _). Inr ((set_client client_id (c\<lparr>sc_position := pos\<rparr>) s)\<lparr>st_log := l\<rparr>, []))
        else Inr (set_client client_id c s, [])))"
| "storage_on_patch _ s = Some (Inr (s, []))"

fun storage_on_finalize :: storage_handler where
  "storage_on_finalize (Storage_client_finalize client_id) s =
     with_client client_id s (\<lambda>c.
       map_option (\<lambda>(l, pos). Inr ((set_client client_id (c\<lparr>sc_position := pos\<rparr>) s)\<lparr>st_log := l\<rparr>, []))
         (position_close (st_log s) (sc_position c)))"
| "storage_on_finalize _ s = Some (Inr (s, []))"

fun storage_on_subscriber_finished :: storage_handler where
  "storage_on_subscriber_finished (Subscriber_finished subscriber_id) s =
     Some (Inr (if subscriber_id \<notin> set (st_subscribers s) then (s, [])
                else (s\<lparr>st_changes := bag_add (Subscriber_left subscriber_id) (st_changes s),
                        st_subscribers := removeAll subscriber_id (st_subscribers s)\<rparr>, [])))"
| "storage_on_subscriber_finished _ s = Some (Inr (s, []))"

definition control_handlers :: "(message_types \<times> storage_handler) list" where
  "control_handlers =
     [(STORAGE_SLOTS, storage_on_slots), (STORAGE_CLIENT_FREEZE, storage_on_freeze),
      (STORAGE_CLIENT_CUT, storage_on_cut), (STORAGE_CLIENT_PATCH, storage_on_patch),
      (STORAGE_CLIENT_FINALIZE, storage_on_finalize), (SUBSCRIBER_FINISHED, storage_on_subscriber_finished)]"

definition storage_failure_handlers :: "(message_types \<times> storage_handler) list" where
  "storage_failure_handlers = [(CLIENT_INTRO, storage_on_failure)]"

subsection \<open>The client threads\<close>

fun storage_on_insert :: storage_handler where
  "storage_on_insert (Storage_insert client_id num_slots bytes) s =
     with_connected client_id s (\<lambda>c. Some
       (if \<not> sc_disconnected c
        then rbind (position_insert (st_log s) (sc_position c) bytes (length bytes) num_slots)
               (\<lambda>(l, pos, gsn).
                  Inr ((set_client client_id (c\<lparr>sc_position := pos, sc_latest_gsn := gsn\<rparr>) s)\<lparr>st_log := l\<rparr>,
                       [Send (To_client client_id) (Client_insert_ack (st_replica_id s) gsn) 0 False]))
        else Inr (set_client client_id c s, [])))"
| "storage_on_insert _ s = Some (Inr (s, []))"

fun storage_on_client_finished :: storage_handler where
  "storage_on_client_finished (Client_finished client_id) s =
     with_connected client_id s (\<lambda>c. Some
       (Inr (set_client client_id (disconnect c) s,
             if \<not> sc_disconnected c
             then [Send (To_client client_id) (Storage_finished (st_shard_id s) (st_replica_id s)) 0 True]
             else [])))"
| "storage_on_client_finished _ s = Some (Inr (s, []))"

definition client_handlers :: "(message_types \<times> storage_handler) list" where
  "client_handlers = [(STORAGE_INSERT, storage_on_insert), (CLIENT_FINISHED, storage_on_client_finished)]"

definition run_storage_handler ::
  "(message_types \<times> storage_handler) list \<Rightarrow> message \<Rightarrow> nat \<Rightarrow> storage_state \<Rightarrow>
   (storage_state \<times> send list) res option" where
  "run_storage_handler fs m len s =
     (case apply_switch fs m len of
        Inl e \<Rightarrow> Some (Inl e)
      | Inr None \<Rightarrow> Some (Inr (s, []))
      | Inr (Some f) \<Rightarrow> f s)"

subsection \<open>The subscriber threads\<close>

text \<open>The local variables of \<open>subscriber(index)\<close>; a subscriber is named with the number of its queues.\<close>

record subscriber_thread =
  th_index :: nat
  th_subscribers :: "(u64 \<times> nat) list"
  th_changes :: bag_reader
  th_num_sent :: u64
  th_buffers :: wraparound_iterator
  th_log :: iter

definition subscriber_thread_init :: "nat \<Rightarrow> storage_state \<Rightarrow> subscriber_thread" where
  "subscriber_thread_init index s =
     \<lparr>th_index = index, th_subscribers = [], th_changes = bag_reader_init, th_num_sent = index,
      th_buffers = wraparound_init (st_subscriber_depth s + 1),
      th_log = iterator_init index (st_subscriber_threads s)\<rparr>"

text \<open>
  The constructor: \<open>connection\<close> is the answer of the ordering service, its message and the length received.
  It starts the control thread, the client threads and one subscriber thread for each of its CPUs.
\<close>

definition storage_new ::
  "(message \<times> nat) option \<Rightarrow> nat \<Rightarrow> nat \<Rightarrow> nat \<Rightarrow> u64 \<Rightarrow> u64 \<Rightarrow> (storage_state \<times> subscriber_thread list) res" where
  "storage_new connection client_threads subscriber_threads subscriber_depth shard_id replica_id =
     rbind (storage_init client_threads subscriber_threads subscriber_depth shard_id replica_id) (\<lambda>s.
       rbind (check_order_intro ''failed to connect to ordering service'' connection) (\<lambda>_.
         Inr (s, map (\<lambda>index. subscriber_thread_init index s) [0..<subscriber_threads])))"

definition apply_change ::
  "storage_state \<Rightarrow> change_t \<Rightarrow> subscriber_thread \<Rightarrow> (subscriber_thread \<times> send list) res" where
  "apply_change s change t =
     (case change of
        Subscriber_state sid num_queues num_send_queues \<Rightarrow>
          if th_index t \<ge> num_send_queues then Inl Out_of_bounds
          else if sid \<in> fst ` set (th_subscribers t) then Inr (t, [])
          else Inr (t\<lparr>th_subscribers := th_subscribers t @ [(sid, num_queues)]\<rparr>, [])
      | Subscriber_left sid \<Rightarrow>
          if sid \<notin> fst ` set (th_subscribers t) then Inl Null_deref
          else Inr (t\<lparr>th_subscribers := AList.delete sid (th_subscribers t)\<rparr>,
                    [Send (To_subscriber sid) (Storage_finished (st_shard_id s) (st_replica_id s)) 0 True]))"

definition materialize :: "storage_state \<Rightarrow> subscriber_thread \<Rightarrow> (subscriber_thread \<times> send list) res" where
  "materialize s t =
     (case bag_get (st_changes s) (th_changes t) of
        (None, r) \<Rightarrow> Inr (t\<lparr>th_changes := r\<rparr>, [])
      | (Some change, r) \<Rightarrow> apply_change s change (t\<lparr>th_changes := r\<rparr>))"

definition entry_message :: "storage_state \<Rightarrow> subscriber_thread \<Rightarrow> entry \<Rightarrow> message" where
  "entry_message s t e =
     Subscriber_log_entry \<lparr>le_replica_id = st_replica_id s, le_shard_id = st_shard_id s,
       le_thread_id = th_index t, le_client_id = e_client_id e, le_gsn = e_gsn e, le_data = entry_payload e\<rparr>"

definition stream_entry :: "storage_state \<Rightarrow> subscriber_thread \<Rightarrow> (subscriber_thread \<times> send list) res" where
  "stream_entry s t =
     (case next_entry (st_log s) (th_log t) of
        (None, it) \<Rightarrow> Inr (t\<lparr>th_log := it\<rparr>, [])
      | (Some p, it) \<Rightarrow>
          if (\<exists>x \<in> set (th_subscribers t). snd x = 0) then Inl Div_by_zero
          else Inr (t\<lparr>th_log := it, th_buffers := snd (get_and_increment (th_buffers t)),
                      th_num_sent := u64_add (th_num_sent t) (st_subscriber_threads s)\<rparr>,
                    map (\<lambda>(sid, num_queues). Send (To_subscriber sid) (entry_message s t (l_heap (st_log s) p))
                           (1 + th_num_sent t mod num_queues) False) (th_subscribers t)))"

definition subscriber_iteration :: "storage_state \<Rightarrow> subscriber_thread \<Rightarrow> (subscriber_thread \<times> send list) res" where
  "subscriber_iteration s t =
     rbind (materialize s t) (\<lambda>(t', out). rbind (stream_entry s t') (\<lambda>(t'', out'). Inr (t'', out @ out')))"

subsection \<open>The accept loop and executions\<close>

text \<open>
  \<open>start_storage\<close> of \<open>src/storage/main.cpp\<close> adds the client or subscriber that an accepted connection
  introduces; \<open>num_send_queues\<close> is the number of send queues the connection has.
\<close>

fun storage_on_client_intro :: storage_handler where
  "storage_on_client_intro (Client_intro client_id shard_id _) s =
     (if shard_id \<noteq> st_shard_id s then Some (Inl (Assert_failed ''invalid shard ID''))
      else Some (rbind (storage_add_client client_id s) (\<lambda>s'. Inr (s', []))))"
| "storage_on_client_intro _ s = Some (Inr (s, []))"

fun storage_on_subscriber_intro :: "nat \<Rightarrow> storage_handler" where
  "storage_on_subscriber_intro num_send_queues (Subscriber_intro subscriber_id num_queues) s =
     Some (rbind (storage_add_subscriber subscriber_id num_queues num_send_queues s) (\<lambda>s'. Inr (s', [])))"
| "storage_on_subscriber_intro num_send_queues _ s = Some (Inr (s, []))"

definition storage_accept_handlers :: "nat \<Rightarrow> (message_types \<times> storage_handler) list" where
  "storage_accept_handlers num_send_queues =
     [(CLIENT_INTRO, storage_on_client_intro), (SUBSCRIBER_INTRO, storage_on_subscriber_intro num_send_queues)]"

datatype storage_event =
    St_accepted nat message nat
  | St_failure message nat
  | St_control message nat
  | St_client message nat

fun storage_handle :: "storage_event \<Rightarrow> storage_state \<Rightarrow> (storage_state \<times> send list) res option" where
  "storage_handle (St_accepted n m len) s = run_storage_handler (storage_accept_handlers n) m len s"
| "storage_handle (St_failure m len) s = run_storage_handler storage_failure_handlers m len s"
| "storage_handle (St_control m len) s = run_storage_handler control_handlers m len s"
| "storage_handle (St_client m len) s = run_storage_handler client_handlers m len s"

fun event_message :: "storage_event \<Rightarrow> message" where
  "event_message (St_accepted _ m _) = m"
| "event_message (St_failure m _) = m"
| "event_message (St_control m _) = m"
| "event_message (St_client m _) = m"

end
