(* ===== verification/Storage_Facts.thy ===== *)
theory Storage_Facts
  imports Storage
begin

text \<open>
  The invariant of a storage server: the log is well formed, and the position of every client stands
  right behind its last set slot. The lemmas say what each handler does on every branch and that it
  keeps the invariant.
\<close>

subsection \<open>Slots of a client\<close>

lemma cidx_extends:
  assumes "log_extends l l'"
  shows "\<exists>ys. cidx l' c = cidx l c @ ys \<and> (\<forall>i \<in> set ys. l_current_entries l \<le> i \<and> i < l_current_entries l')"
proof -
  have le: "l_current_entries l \<le> l_current_entries l'"
    using assms by (simp add: log_extends_def)
  let ?new = "filter (\<lambda>i. e_client_id (ent l' i) = c) [l_current_entries l..<l_current_entries l']"
  have "cidx l' c = filter (\<lambda>i. e_client_id (ent l' i) = c) [0..<l_current_entries l] @ ?new"
    using le unfolding cidx_def by (metis filter_append le_add_diff_inverse upt_add_eq_append zero_le)
  also have "filter (\<lambda>i. e_client_id (ent l' i) = c) [0..<l_current_entries l] = cidx l c"
    unfolding cidx_def using assms by (intro filter_cong) (auto simp: log_extends_def)
  finally show ?thesis by auto
qed

lemma span_cidx_iff:
  assumes "j < length (cidx l c)" and "k + n \<le> length (cidx l c)"
  shows "cidx l c ! j \<in> span (cidx l c) k n \<longleftrightarrow> k \<le> j \<and> j < k + n"
proof
  assume "cidx l c ! j \<in> span (cidx l c) k n"
  then obtain i where "i \<in> {k..<k + n}" "cidx l c ! j = cidx l c ! i"
    by (auto simp: span_def)
  with assms show "k \<le> j \<and> j < k + n"
    using cidx_nth_inject [of j l c i] by auto
qed (auto simp: span_def)

lemma span_client: "k + n \<le> length (cidx l c) \<Longrightarrow> i \<in> span (cidx l c) k n \<Longrightarrow> e_client_id (ent l i) = c"
  by (auto simp: span_def intro: cidx_nth_client)

text \<open>The position of a client stands behind exactly its set slots.\<close>

definition cursor :: "log \<Rightarrow> position \<Rightarrow> nat \<Rightarrow> bool" where
  "cursor l pos k \<longleftrightarrow>
     pos_at l pos k \<and> (\<forall>j < length (cidx l (p_client_id pos)). e_set (ent l (cidx l (p_client_id pos) ! j)) \<longleftrightarrow> j < k)"

lemma cursor_extends:
  assumes ext: "log_extends l l'" and cur: "cursor l pos k"
  shows "cursor l' pos k"
proof -
  let ?c = "p_client_id pos"
  obtain ys where ys: "cidx l' ?c = cidx l ?c @ ys"
      "\<forall>i \<in> set ys. l_current_entries l \<le> i \<and> i < l_current_entries l'"
    using cidx_extends [OF ext] by blast
  have k: "k \<le> length (cidx l ?c)"
    using cur by (simp add: cursor_def pos_at_def)
  have "pos_at l' pos k"
    using cur k by (auto simp: cursor_def pos_at_def ys(1) nth_append)
  moreover have "e_set (ent l' (cidx l' ?c ! j)) \<longleftrightarrow> j < k" if j: "j < length (cidx l' ?c)" for j
  proof (cases "j < length (cidx l ?c)")
    case True
    then have "e_set (ent l' (cidx l ?c ! j)) = e_set (ent l (cidx l ?c ! j))"
      using ext cidx_nth_less [OF True] by (simp add: log_extends_def)
    with True cur show ?thesis
      by (simp add: ys(1) nth_append cursor_def)
  next
    case False
    then have "ys ! (j - length (cidx l ?c)) \<in> set ys"
      using j by (intro nth_mem) (simp add: ys(1))
    with False k ext ys(2) show ?thesis
      by (simp add: ys(1) nth_append log_extends_def)
  qed
  ultimately show ?thesis
    by (simp add: cursor_def)
qed

text \<open>What \<open>insert\<close> and \<open>close\<close> do to the slots of their client and to those of the others.\<close>

lemma insert_result_cursor:
  fixes l :: log and pos :: position
  defines "c \<equiv> p_client_id pos"
  assumes cur: "cursor l pos k" and room: "0 < n" "k + n \<le> length (cidx l c)"
    and at: "pos_at (insert_result l c k mem len n) pos' (k + n)" "p_client_id pos' = c"
  shows "cursor (insert_result l c k mem len n) pos' (k + n)"
proof -
  let ?l' = "insert_result l c k mem len n"
  have cid: "cidx ?l' = cidx l"
    using insert_result_layout [OF room] by (rule same_layout_cidx)
  have "e_set (ent ?l' (cidx l c ! j)) \<longleftrightarrow> j < k + n" if j: "j < length (cidx l c)" for j
  proof -
    have last: "cidx l c ! j = cidx l c ! (k + n - 1) \<longleftrightarrow> j = k + n - 1"
      using j room by (intro cidx_nth_inject) auto
    have "e_set (ent ?l' (cidx l c ! j)) \<longleftrightarrow>
        j = k + n - 1 \<or> (k \<le> j \<and> j < k + (n - 1)) \<or> e_set (ent l (cidx l c ! j))"
      using span_cidx_iff [OF j, of k "n - 1"] room unfolding insert_result_ent last by auto
    also have "e_set (ent l (cidx l c ! j)) \<longleftrightarrow> j < k"
      using cur j by (simp add: cursor_def c_def)
    finally show ?thesis
      using room(1) by auto
  qed
  with at show ?thesis
    by (simp add: cursor_def cid)
qed

lemma insert_result_other:
  assumes room: "0 < n" "k + n \<le> length (cidx l c)" and i: "e_client_id (ent l i) \<noteq> c"
  shows "ent (insert_result l c k mem len n) i = ent l i"
proof -
  have "e_client_id (ent l (cidx l c ! (k + n - 1))) = c"
    using room by (intro cidx_nth_client) auto
  then have "i \<noteq> cidx l c ! (k + n - 1)"
    using i by auto
  moreover have "i \<notin> span (cidx l c) k (n - 1)"
    using i span_client [of k "n - 1" l c i] le_trans [OF _ room(2), of "k + (n - 1)"] by auto
  ultimately show ?thesis
    by (simp add: insert_result_ent)
qed

lemma cursor_other:
  assumes lay: "same_layout l l'" and cur: "cursor l pos k"
    and same: "\<And>i. e_client_id (ent l i) = p_client_id pos \<Longrightarrow> ent l' i = ent l i"
  shows "cursor l' pos k"
  using cur same cidx_nth_client [of _ l "p_client_id pos"]
  by (simp add: cursor_def same_layout_pos [OF lay] same_layout_cidx [OF lay])

subsection \<open>The invariant\<close>

definition client_of :: "storage_state \<Rightarrow> u64 \<Rightarrow> storage_client" where
  "client_of s cid = (case st_client_state s cid of None \<Rightarrow> storage_client_new cid | Some c \<Rightarrow> c)"

definition client_inv :: "log \<Rightarrow> u64 \<Rightarrow> storage_client \<Rightarrow> bool" where
  "client_inv l cid c \<longleftrightarrow>
     p_client_id (sc_position c) = cid \<and> (\<exists>k. cursor l (sc_position c) k) \<and>
     (sc_disconnected c \<longrightarrow> sc_connected c) \<and>
     (sc_send_queue c \<longleftrightarrow> sc_connected c \<and> \<not> sc_disconnected c)"

definition storage_inv :: "storage_state \<Rightarrow> bool" where
  "storage_inv s \<longleftrightarrow>
     log_inv (st_log s) \<and> (\<forall>cid. client_inv (st_log s) cid (client_of s cid)) \<and>
     distinct (st_subscribers s) \<and> wraparound_inv (st_iterator s) \<and>
     b_num_elements (st_changes s) = length (b_list (st_changes s))"

lemma cursor_init: "cursor log_init (position_init c) 0"
  by (simp add: cursor_def pos_at_def position_init_def cidx_def log_init_def)

lemma storage_inv_init: "storage_init ct sub depth sh rep = Inr s \<Longrightarrow> storage_inv s"
  by (auto simp: storage_init_def storage_inv_def client_inv_def client_of_def storage_client_new_def
      log_inv_init wraparound_inv_def wraparound_init_def bag_init_def position_init_def
      split: if_splits intro!: exI [of _ "0 :: nat"] cursor_init [unfolded position_init_def])

lemma get_client_state_of: "cid < MAX_CLIENTS \<Longrightarrow> get_client_state True cid s = Inr (client_of s cid)"
  by (simp add: get_client_state_def client_of_def split: option.split)

lemma with_client_of:
  "with_client cid s f = (if cid < MAX_CLIENTS then f (client_of s cid) else Some (Inl Out_of_bounds))"
  by (simp add: with_client_def get_client_state_of) (simp add: get_client_state_def)

lemma with_connected_of:
  "with_connected cid s f =
     (if cid < MAX_CLIENTS then (if sc_connected (client_of s cid) then f (client_of s cid) else None)
      else Some (Inl Out_of_bounds))"
  by (simp add: with_connected_def with_client_of)

lemma client_of_set_client: "client_of (set_client cid c s) d = (if d = cid then c else client_of s d)"
  by (simp add: client_of_def set_client_def)

lemma set_client_frame [frame_simps]:
  "st_log (set_client cid c s) = st_log s" "st_subscribers (set_client cid c s) = st_subscribers s"
  "st_iterator (set_client cid c s) = st_iterator s" "st_changes (set_client cid c s) = st_changes s"
  by (simp_all add: set_client_def)

lemma client_of_log [frame_simps]:
  "client_of (s\<lparr>st_log := l\<rparr>) = client_of s" "client_of (s\<lparr>st_iterator := w\<rparr>) = client_of s"
  "client_of (s\<lparr>st_changes := ch, st_subscribers := subs\<rparr>) = client_of s"
  by (simp_all add: client_of_def fun_eq_iff)

lemma set_client_inv [inv_intros]:
  "storage_inv s \<Longrightarrow> client_inv (st_log s) cid c \<Longrightarrow> storage_inv (set_client cid c s)"
  by (simp add: storage_inv_def frame_simps client_of_set_client)

lemma client_inv_of: "storage_inv s \<Longrightarrow> client_inv (st_log s) cid (client_of s cid)"
  by (simp add: storage_inv_def)

lemma disconnect_inv: "client_inv l cid c \<Longrightarrow> sc_connected c \<Longrightarrow> client_inv l cid (disconnect c)"
  by (simp add: client_inv_def disconnect_def)

lemma obtain_cursor:
  assumes "storage_inv s"
  obtains k where "cursor (st_log s) (sc_position (client_of s cid)) k"
    "p_client_id (sc_position (client_of s cid)) = cid"
  using client_inv_of [OF assms, of cid] by (auto simp: client_inv_def)

text \<open>A new log and a new position for one client keep the invariant.\<close>

lemma move_inv [inv_intros]:
  assumes inv: "storage_inv s" and log: "log_inv l'" and lay: "same_layout (st_log s) l'"
    and other: "\<And>i. e_client_id (ent (st_log s) i) \<noteq> cid \<Longrightarrow> ent l' i = ent (st_log s) i"
    and cur: "cursor l' pos' k" and id: "p_client_id pos' = cid"
    and c: "sc_position c = pos'" "sc_connected c = sc_connected (client_of s cid)"
      "sc_disconnected c = sc_disconnected (client_of s cid)" "sc_send_queue c = sc_send_queue (client_of s cid)"
  shows "storage_inv ((set_client cid c s)\<lparr>st_log := l'\<rparr>)"
proof -
  have "client_inv l' d (client_of (set_client cid c s) d)" for d
  proof (cases "d = cid")
    case True
    with client_inv_of [OF inv, of cid] cur id c show ?thesis
      by (auto simp: client_inv_def client_of_set_client)
  next
    case False
    obtain k where k: "cursor (st_log s) (sc_position (client_of s d)) k" "p_client_id (sc_position (client_of s d)) = d"
      using obtain_cursor [OF inv] .
    have "cursor l' (sc_position (client_of s d)) k"
      using other False k(2) by (intro cursor_other [OF lay k(1)]) auto
    with False client_inv_of [OF inv, of d] show ?thesis
      by (auto simp: client_inv_def client_of_set_client)
  qed
  with inv log show ?thesis
    by (simp add: storage_inv_def frame_simps)
qed

subsection \<open>What the handlers do\<close>

text \<open>
  The insert of a connected client with enough slots left: the payload is in the last slot it closes,
  the acknowledgement carries the sequence number of that slot, and nothing else of the log changes.
\<close>

lemma storage_on_insert_ok:
  fixes s :: storage_state and cid :: u64
  defines "c \<equiv> client_of s cid" and "l \<equiv> st_log s"
  assumes inv: "storage_inv s" and cid: "cid < MAX_CLIENTS"
    and live: "sc_connected c" "\<not> sc_disconnected c"
    and k: "cursor l (sc_position c) k" and n: "0 < n" "n < 2 ^ 64" "k + n \<le> length (cidx l cid)"
  obtains s' where
    "storage_on_insert (Storage_insert cid n bytes) s =
       Some (Inr (s', [Send (To_client cid) (Client_insert_ack (st_replica_id s) (e_gsn (ent l (cidx l cid ! (k + n - 1))))) 0 False]))"
    "storage_inv s'" "st_log s' = insert_result l cid k bytes (length bytes) n"
    "cursor (st_log s') (sc_position (client_of s' cid)) (k + n)"
    "sc_latest_gsn (client_of s' cid) = e_gsn (ent l (cidx l cid ! (k + n - 1)))"
proof -
  let ?g = "e_gsn (ent l (cidx l cid ! (k + n - 1)))" and ?l' = "insert_result l cid k bytes (length bytes) n"
  have id: "p_client_id (sc_position c) = cid"
    using client_inv_of [OF inv, of cid] by (simp add: client_inv_def c_def)
  have log: "log_inv l"
    using inv by (simp add: storage_inv_def l_def)
  have at: "pos_at l (sc_position c) k"
    using k by (simp add: cursor_def)
  obtain pos' where run: "position_insert l (sc_position c) bytes (length bytes) n = Inr (?l', pos', ?g)"
    and l': "log_inv ?l'" "same_layout l ?l'" "pos_at ?l' pos' (k + n)" "p_client_id pos' = cid"
    using position_insert_ok [OF log at n(1,2), of bytes "length bytes"] n(3) id by metis
  have cur: "cursor ?l' pos' (k + n)"
    using insert_result_cursor [OF k n(1), of bytes "length bytes" pos'] n(3) l' id by simp
  let ?c' = "c\<lparr>sc_position := pos', sc_latest_gsn := ?g\<rparr>"
  let ?s' = "(set_client cid ?c' s)\<lparr>st_log := ?l'\<rparr>"
  have "storage_inv ?s'"
    using insert_result_other [OF n(1,3)] l' cur
    by (intro move_inv [OF inv l'(1), where pos' = pos']) (simp_all add: l_def c_def)
  moreover have "storage_on_insert (Storage_insert cid n bytes) s =
      Some (Inr (?s', [Send (To_client cid) (Client_insert_ack (st_replica_id s) ?g) 0 False]))"
    using run live cid by (simp add: with_connected_of c_def l_def)
  ultimately show thesis
    using that [of ?s'] cur by (simp add: client_of_set_client frame_simps)
qed

lemma storage_on_insert_exhausted:
  fixes s :: storage_state and cid :: u64
  defines "c \<equiv> client_of s cid" and "l \<equiv> st_log s"
  assumes inv: "storage_inv s" and cid: "cid < MAX_CLIENTS"
    and live: "sc_connected c" "\<not> sc_disconnected c"
    and k: "cursor l (sc_position c) k" and n: "n < 2 ^ 64" "n = 0 \<or> length (cidx l cid) < k + n"
    and size: "length (cidx l cid) < 2 ^ 64"
  shows "storage_on_insert (Storage_insert cid n bytes) s = Some (Inl no_entry)"
proof -
  have "p_client_id (sc_position c) = cid"
    using client_inv_of [OF inv, of cid] by (simp add: client_inv_def c_def)
  then have "position_insert l (sc_position c) bytes (length bytes) n = Inl no_entry"
    using k n size inv by (intro position_insert_fails) (auto simp: cursor_def storage_inv_def l_def)
  with live cid show ?thesis
    by (simp add: with_connected_of c_def l_def)
qed

lemma set_client_of_inv: "storage_inv s \<Longrightarrow> storage_inv (set_client cid (client_of s cid) s)"
  by (intro set_client_inv client_inv_of)

lemma storage_on_finalize_ok:
  fixes s :: storage_state and cid :: u64
  defines "l \<equiv> st_log s"
  assumes inv: "storage_inv s" and cid: "cid < MAX_CLIENTS"
  obtains s' where
    "storage_on_finalize (Storage_client_finalize cid) s = Some (Inr (s', []))" "storage_inv s'"
    "same_layout l (st_log s')"
    "\<forall>i < l_current_entries l. e_client_id (ent l i) = cid \<longrightarrow> e_set (ent (st_log s') i)"
    "\<forall>i. e_client_id (ent l i) \<noteq> cid \<longrightarrow> ent (st_log s') i = ent l i"
    "\<forall>i. entry_payload (ent (st_log s') i) = entry_payload (ent l i) \<and>
         e_data_length (ent (st_log s') i) = e_data_length (ent l i)"
proof -
  let ?c = "client_of s cid" and ?xs = "cidx l cid"
  obtain k where k: "cursor l (sc_position ?c) k" and id: "p_client_id (sc_position ?c) = cid"
    unfolding l_def using obtain_cursor [OF inv] .
  have log: "log_inv l" and at: "pos_at l (sc_position ?c) k"
    using inv k by (simp_all add: storage_inv_def l_def cursor_def)
  obtain l' pos' where close: "position_close l (sc_position ?c) = Some (l', pos')"
    and l': "log_inv l'" "same_layout l l'" "pos_at l' pos' (length ?xs)" "p_client_id pos' = cid"
      "l' = l\<lparr>l_heap := update_slots mark (span ?xs k (length ?xs - k)) (l_heap l)\<rparr>"
    using position_close_ok [OF log at] unfolding id by metis
  have ent': "ent l' i = (if i \<in> span ?xs k (length ?xs - k) then mark (ent l i) else ent l i)" for i
    by (simp add: l'(5) ent_def)
  have kl: "k + (length ?xs - k) \<le> length ?xs"
    using pos_at_bound [OF at] id by simp
  have set': "e_set (ent l' (?xs ! j))" if j: "j < length ?xs" for j
    using k j id span_cidx_iff [OF j kl] by (auto simp: ent' cursor_def)
  have other: "ent l' i = ent l i" if "e_client_id (ent l i) \<noteq> cid" for i
    using that span_client [OF kl, of i] by (auto simp: ent')
  have cur: "cursor l' pos' (length ?xs)"
    using l'(3,4) set' same_layout_cidx [OF l'(2)] by (simp add: cursor_def)
  let ?s' = "(set_client cid (?c\<lparr>sc_position := pos'\<rparr>) s)\<lparr>st_log := l'\<rparr>"
  have "storage_inv ?s'"
    using l' other cur by (intro move_inv [OF inv l'(1), where pos' = pos']) (simp_all add: l_def)
  moreover have "storage_on_finalize (Storage_client_finalize cid) s = Some (Inr (?s', []))"
    using close cid by (simp add: with_client_of l_def)
  moreover have "e_set (ent l' i)" if "i < l_current_entries l" "e_client_id (ent l i) = cid" for i
  proof -
    have "i \<in> set ?xs"
      using that by (simp add: cidx_def)
    with set' show ?thesis
      by (auto simp: in_set_conv_nth)
  qed
  moreover have "entry_payload (ent l' i) = entry_payload (ent l i) \<and> e_data_length (ent l' i) = e_data_length (ent l i)" for i
    by (simp add: ent' entry_payload_def split: edata.split)
  ultimately show thesis
    using that [of ?s'] l'(2) other by simp
qed

text \<open>A frozen client: no insert takes effect and no acknowledgement is sent any more.\<close>

lemma storage_on_insert_frozen:
  assumes "cid < MAX_CLIENTS" and "sc_connected (client_of s cid)" and "sc_disconnected (client_of s cid)"
  shows "storage_on_insert (Storage_insert cid n bytes) s = Some (Inr (set_client cid (client_of s cid) s, []))"
  using assms by (simp add: with_connected_of)

lemma storage_on_freeze_ok:
  assumes "cid < MAX_CLIENTS" and "sc_connected (client_of s cid)"
  shows "storage_on_freeze (Storage_client_freeze cid) s =
         Some (Inr (set_client cid (disconnect (client_of s cid)) s,
           [Send To_order (Order_client_cut cid (st_shard_id s) (st_replica_id s) (sc_latest_gsn (client_of s cid))) 0 False]))"
  using assms by (simp add: with_connected_of)

text \<open>The reply to a cut: the data after the given sequence number, newest first, and the flush.\<close>

lemma storage_on_cut_ok:
  assumes inv: "storage_inv s" and cid: "cid < MAX_CLIENTS"
    and k: "cursor (st_log s) (sc_position (client_of s cid)) k"
    and some: "sc_latest_gsn (client_of s cid) \<noteq> UINT64_MAX"
  shows "\<exists>s'. storage_on_cut (Storage_client_cut cid b) s =
     Some (Inr (s', map (\<lambda>m. Send To_order m 0 False)
       (map (\<lambda>i. let e = ent (st_log s) i in
              Order_client_data (e_client_id e) (st_shard_id s) (st_replica_id s) (e_gsn e) (entry_payload e))
          (filter (\<lambda>i. e_data_length (ent (st_log s) i) > 0)
            (takeWhile (\<lambda>i. b = UINT64_MAX \<or> b < e_gsn (ent (st_log s) i)) (rev (take k (cidx (st_log s) cid))))) @
        [Order_client_data cid (st_shard_id s) (st_replica_id s) UINT64_MAX []]))) \<and> storage_inv s'"
proof -
  let ?c = "client_of s cid"
  have id: "p_client_id (sc_position ?c) = cid"
    using client_inv_of [OF inv, of cid] by (simp add: client_inv_def)
  have suffix: "position_suffix (st_log s) (sc_position ?c) b =
      Some (map ptr_of (takeWhile (\<lambda>i. b = UINT64_MAX \<or> b < e_gsn (ent (st_log s) i)) (rev (take k (cidx (st_log s) cid)))))"
    using position_suffix_at [of "st_log s" "sc_position ?c" k b] inv k id
    by (simp add: storage_inv_def cursor_def)
  have "storage_inv ((set_client cid ?c s)\<lparr>st_iterator := w\<rparr>)" if "wraparound_inv w" for w
    using set_client_of_inv [OF inv, of cid] that by (simp add: storage_inv_def frame_simps)
  moreover have "wraparound_inv (st_iterator s)"
    using inv by (simp add: storage_inv_def)
  ultimately show ?thesis
    using some cid
    by (simp add: with_client_of suffix data_messages_def filter_map comp_def ent_def Let_def get_n_inv)
qed

subsection \<open>Every handler keeps the invariant\<close>

text \<open>An insert into the log that succeeds, whichever handler asked for it.\<close>

lemma insert_inv:
  assumes inv: "storage_inv s" and n: "n < 2 ^ 64" and size: "length (cidx (st_log s) cid) < 2 ^ 64"
    and run: "position_insert (st_log s) (sc_position (client_of s cid)) bytes len n = Inr (l', pos', g)"
    and c: "sc_position c = pos'" "sc_connected c = sc_connected (client_of s cid)"
      "sc_disconnected c = sc_disconnected (client_of s cid)" "sc_send_queue c = sc_send_queue (client_of s cid)"
  shows "storage_inv ((set_client cid c s)\<lparr>st_log := l'\<rparr>)"
proof -
  let ?l = "st_log s" and ?pos = "sc_position (client_of s cid)"
  obtain k where k: "cursor ?l ?pos k" and id: "p_client_id ?pos = cid"
    using obtain_cursor [OF inv] .
  have log: "log_inv ?l" and at: "pos_at ?l ?pos k"
    using inv k by (simp_all add: storage_inv_def cursor_def)
  have room: "0 < n" "k + n \<le> length (cidx ?l cid)"
    using position_insert_fails [OF log at n, of bytes len] run id size by force+
  obtain l2 pos2 where "position_insert ?l ?pos bytes len n = Inr (l2, pos2, e_gsn (ent ?l (cidx ?l cid ! (k + n - 1))))"
    and l2: "log_inv l2" "same_layout ?l l2" "pos_at l2 pos2 (k + n)" "p_client_id pos2 = cid"
      "l2 = insert_result ?l cid k bytes len n"
    using position_insert_ok [OF log at room(1) n, of bytes len] room(2) id by metis
  with run have eq: "l' = l2" "pos' = pos2"
    by simp_all
  have "cursor l2 pos2 (k + n)"
    using insert_result_cursor [OF k room(1), of bytes len pos2] room(2) l2 id by simp
  then show ?thesis
    using l2 c insert_result_other [OF room] unfolding eq by (intro move_inv [OF inv l2(1)]) simp_all
qed

definition wire_ok :: "message \<Rightarrow> storage_state \<Rightarrow> bool" where
  "wire_ok m s \<longleftrightarrow>
     (case m of
        Storage_slots g asg \<Rightarrow> asg \<noteq> [] \<longrightarrow> wf_assignments asg \<and> g + sum_list (map as_num_slots asg) \<le> 2 ^ 64
      | Storage_insert cid n _ \<Rightarrow> n < 2 ^ 64 \<and> length (cidx (st_log s) cid) < 2 ^ 64
      | Storage_client_patch cid g _ \<Rightarrow> g < 2 ^ 64 \<and> length (cidx (st_log s) cid) < 2 ^ 64
      | _ \<Rightarrow> True)"

lemma extends_inv:
  assumes inv: "storage_inv s" and l': "log_inv l'" "log_extends (st_log s) l'"
  shows "storage_inv (s\<lparr>st_log := l'\<rparr>)"
  using inv l' cursor_extends [OF l'(2)]
  unfolding storage_inv_def client_inv_def by (simp add: frame_simps) blast

lemma storage_on_slots_inv:
  assumes inv: "storage_inv s" and ok: "wire_ok m s" and run: "storage_on_slots m s = Some (Inr (s', out))"
  shows "storage_inv s'"
proof (cases m)
  case (Storage_slots g asg)
  show ?thesis
  proof (cases "asg = []")
    case False
    then obtain l' where "add_entries g asg (st_log s) = Inr l'" "log_inv l'" "log_extends (st_log s) l'"
      using add_entries_log [of "st_log s" asg g] inv ok by (auto simp: wire_ok_def Storage_slots storage_inv_def)
    with False run extends_inv [OF inv] show ?thesis
      by (auto simp: Storage_slots)
  qed (use inv run Storage_slots in simp)
qed (use inv run in simp_all)

lemma storage_on_insert_inv:
  assumes inv: "storage_inv s" and ok: "wire_ok m s" and run: "storage_on_insert m s = Some (Inr (s', out))"
  shows "storage_inv s'"
proof (cases m)
  case (Storage_insert cid n bytes)
  show ?thesis
    using run ok insert_inv [OF inv, of n cid bytes "length bytes"] set_client_of_inv [OF inv, of cid]
    by (auto simp: Storage_insert with_connected_of wire_ok_def rbind_eq_Inr split: if_splits)
qed (use inv run in simp_all)

lemma storage_on_patch_inv:
  assumes inv: "storage_inv s" and ok: "wire_ok m s" and run: "storage_on_patch m s = Some (Inr (s', out))"
  shows "storage_inv s'"
proof (cases m)
  case (Storage_client_patch cid g bytes)
  show ?thesis
    using run ok insert_inv [OF inv, of g cid bytes "length bytes"] set_client_of_inv [OF inv, of cid]
    by (auto simp: Storage_client_patch with_client_of wire_ok_def rbind_eq_Inr split: if_splits)
qed (use inv run in simp_all)

lemma storage_on_finalize_inv:
  assumes inv: "storage_inv s" and run: "storage_on_finalize m s = Some (Inr (s', out))"
  shows "storage_inv s'"
proof (cases m)
  case (Storage_client_finalize cid)
  show ?thesis
  proof (cases "cid < MAX_CLIENTS")
    case True
    then show ?thesis
      using storage_on_finalize_ok [OF inv True] run unfolding Storage_client_finalize by force
  qed (use run in \<open>simp add: Storage_client_finalize with_client_of\<close>)
qed (use inv run in simp_all)

lemma storage_on_cut_inv:
  assumes inv: "storage_inv s" and run: "storage_on_cut m s = Some (Inr (s', out))"
  shows "storage_inv s'"
proof (cases m)
  case (Storage_client_cut cid b)
  have "storage_inv ((set_client cid (client_of s cid) s)\<lparr>st_iterator := w\<rparr>)" if "wraparound_inv w" for w
    using set_client_of_inv [OF inv, of cid] that by (simp add: storage_inv_def frame_simps)
  moreover have "wraparound_inv (st_iterator s)"
    using inv by (simp add: storage_inv_def)
  ultimately show ?thesis
    using run by (auto simp: Storage_client_cut with_client_of Let_def get_n_inv split: if_splits)
qed (use inv run in simp_all)

lemma storage_on_disconnect_inv:
  assumes inv: "storage_inv s"
  shows "storage_on_failure m s = Some (Inr (s', out)) \<Longrightarrow> storage_inv s'"
    and "storage_on_freeze m s = Some (Inr (s', out)) \<Longrightarrow> storage_inv s'"
    and "storage_on_client_finished m s = Some (Inr (s', out)) \<Longrightarrow> storage_inv s'"
  using inv set_client_inv [OF inv disconnect_inv [OF client_inv_of [OF inv]]]
  by (cases m; auto simp: with_connected_of split: if_splits)+

lemma storage_on_subscriber_finished_inv:
  "storage_inv s \<Longrightarrow> storage_on_subscriber_finished m s = Some (Inr (s', out)) \<Longrightarrow> storage_inv s'"
  by (cases m) (auto simp: storage_inv_def frame_simps bag_add_def distinct_removeAll split: if_splits)

lemma storage_add_client_inv:
  assumes inv: "storage_inv s" and run: "storage_add_client cid s = Inr s'"
  shows "storage_inv s'"
proof (cases "cid < MAX_CLIENTS")
  case True
  let ?c = "client_of s cid"
  have "client_inv (st_log s) cid (?c\<lparr>sc_send_queue := True, sc_connected := True\<rparr>)" if "\<not> sc_connected ?c"
    using client_inv_of [OF inv, of cid] that by (auto simp: client_inv_def)
  with set_client_inv [OF inv] set_client_of_inv [OF inv, of cid] run True show ?thesis
    by (auto simp: storage_add_client_def get_client_state_of split: if_splits)
qed (use assms in \<open>simp add: storage_add_client_def\<close>)

lemma storage_add_subscriber_inv:
  "storage_inv s \<Longrightarrow> storage_add_subscriber sid nq ns s = Inr s' \<Longrightarrow> storage_inv s'"
  by (auto simp: storage_add_subscriber_def storage_inv_def frame_simps bag_add_def split: if_splits)

lemma run_storage_handler_cases:
  assumes "run_storage_handler fs m len s = Some (Inr (s', out))"
  shows "s' = s \<or> (\<exists>f. map_of fs (msg_type m) = Some f \<and> f m s = Some (Inr (s', out)))"
  using assms by (induction fs) (auto simp: run_storage_handler_def type_value_inject split: if_splits)

lemma storage_handle_inv:
  assumes inv: "storage_inv s" and ok: "wire_ok (event_message ev) s"
    and run: "storage_handle ev s = Some (Inr (s', out))"
  shows "storage_inv s'"
proof (cases ev)
  case (St_accepted n m len)
  with run consider "s' = s" | f where "map_of (storage_accept_handlers n) (msg_type m) = Some f" "f m s = Some (Inr (s', out))"
    using run_storage_handler_cases [of "storage_accept_handlers n" m len s s' out] by auto
  then show ?thesis
  proof cases
    case 2
    then show ?thesis
      using storage_add_client_inv [OF inv] storage_add_subscriber_inv [OF inv] inv
      by (cases m) (auto simp: storage_accept_handlers_def rbind_eq_Inr split: if_splits)
  qed (use inv in simp)
next
  case (St_failure m len)
  then show ?thesis
    using run run_storage_handler_cases [of storage_failure_handlers m len s s' out] inv
      storage_on_disconnect_inv(1) [OF inv, of m s' out]
    by (auto simp: storage_failure_handlers_def simp del: storage_on_failure.simps split: if_splits)
next
  case (St_control m len)
  note keep = storage_on_slots_inv [OF inv, of m s' out] storage_on_disconnect_inv(2) [OF inv, of m s' out]
    storage_on_cut_inv [OF inv, of m s' out] storage_on_patch_inv [OF inv, of m s' out]
    storage_on_finalize_inv [OF inv, of m s' out] storage_on_subscriber_finished_inv [OF inv, of m s' out]
  from St_control show ?thesis
    using run ok run_storage_handler_cases [of control_handlers m len s s' out] inv keep
    by (auto simp: control_handlers_def simp del: storage_on_slots.simps storage_on_freeze.simps
        storage_on_cut.simps storage_on_patch.simps storage_on_finalize.simps
        storage_on_subscriber_finished.simps split: if_splits)
next
  case (St_client m len)
  then show ?thesis
    using run ok run_storage_handler_cases [of client_handlers m len s s' out] inv
      storage_on_insert_inv [OF inv, of m s' out] storage_on_disconnect_inv(3) [OF inv, of m s' out]
    by (auto simp: client_handlers_def simp del: storage_on_insert.simps storage_on_client_finished.simps
        split: if_splits)
qed

end
