(* ===== verification/Epoch.thy ===== *)
theory Epoch
  imports Epoch_Layout Order_Facts "HOL-Library.Multiset"
begin

text \<open>
  An epoch end to end: the messages of the ordering service meet what the storage log expects of
  them, all replicas of a shard lay out the same slots, and over all shards every sequence number of
  the epoch belongs to exactly one slot, with every client getting the number it was told.
\<close>

subsection \<open>The assignments of an epoch\<close>

abbreviation client_tuple :: "u64 \<times> client_state \<Rightarrow> u64 \<times> u64 \<times> u64" where
  "client_tuple \<equiv> \<lambda>(cid, c). (oc_num_slots c, oc_shard_id c, cid)"

text \<open>The total number of slots stays far below the range of the 64-bit counters.\<close>

definition slots_bounded :: "order_state \<Rightarrow> bool" where
  "slots_bounded s \<longleftrightarrow> sum_list (map (\<lambda>(_, c). oc_num_slots c) (active_clients s)) < 2 ^ 62"

lemma epoch_slots_set: "set (epoch_slots s) = client_tuple ` set (active_clients s)"
  by (simp add: epoch_slots_def)

lemma epoch_slots_length: "length (epoch_slots s) = length (active_clients s)"
  by (simp add: epoch_slots_def)

lemma distinct_epoch_slots: "order_inv s \<Longrightarrow> distinct (epoch_slots s)"
proof -
  assume "order_inv s"
  then have "distinct (map fst (active_clients s))"
    by (simp add: order_inv_def clients_ok_def active_clients_def distinct_map_filter)
  then have "inj_on fst (set (active_clients s))" "distinct (active_clients s)"
    by (simp_all add: distinct_map)
  moreover from this(1) have "inj_on client_tuple (set (active_clients s))"
    by (fastforce simp: inj_on_def)
  ultimately show ?thesis
    by (simp add: epoch_slots_def distinct_map)
qed

lemma epoch_slots_decreasing: "sorted_wrt (\<ge>) (epoch_slots s)"
  by (simp add: epoch_slots_def sorted_wrt_rev)

lemma active_clients_length: "order_inv s \<Longrightarrow> length (active_clients s) \<le> MAX_CLIENTS"
proof -
  assume inv: "order_inv s"
  have "distinct (map fst (os_clients s))"
    using inv by (simp add: order_inv_def clients_ok_def)
  moreover have "set (map fst (os_clients s)) \<subseteq> {..<MAX_CLIENTS}"
    using inv by (auto simp: order_inv_def clients_ok_def client_ok_def)
  ultimately have "length (os_clients s) \<le> MAX_CLIENTS"
    using card_mono [of "{..<MAX_CLIENTS}" "set (map fst (os_clients s))"] by (metis card_lessThan
        distinct_card finite_lessThan length_map)
  then show ?thesis
    using le_trans [OF length_filter_le] by (simp add: active_clients_def)
qed

lemma active_client_ok:
  assumes "order_inv s" and "(cid, c) \<in> set (active_clients s)"
  shows "map_of (os_clients s) cid = Some c" and "cid < MAX_CLIENTS" and "oc_shard_id c < NUM_SHARDS"
    and "\<not> oc_failed c"
proof -
  have "(cid, c) \<in> set (os_clients s)" "\<not> oc_failed c"
    using assms(2) by (auto simp: active_clients_def)
  then show "map_of (os_clients s) cid = Some c" "\<not> oc_failed c"
    using assms(1) by (simp_all add: order_inv_def clients_ok_def)
  then show "cid < MAX_CLIENTS" "oc_shard_id c < NUM_SHARDS"
    using client_ok_of [OF assms(1)] by (auto simp: client_ok_def)
qed

lemma MAX_CLIENTS_less_max: "MAX_CLIENTS < UINT64_MAX"
  by (simp add: MAX_CLIENTS_value UINT64_MAX_def)

lemma foldl_u64_add: "sum_list xs + a < 2 ^ 64 \<Longrightarrow> foldl u64_add a xs = a + sum_list xs"
proof (induction xs arbitrary: a)
  case (Cons x xs)
  then have "u64_add a x = a + x"
    by (intro u64_add_small) simp
  with Cons show ?case by simp
qed simp

lemma epoch_total_eq:
  assumes "slots_bounded s"
  shows "epoch_total s = sum_list (map fst (epoch_slots s))"
proof -
  have "mset (map fst (epoch_slots s)) = mset (map (fst \<circ> client_tuple) (active_clients s))"
    by (simp add: epoch_slots_def multiset.map_comp)
  then have "sum_list (map fst (epoch_slots s)) = sum_list (map (fst \<circ> client_tuple) (active_clients s))"
    by (simp only: sum_mset_sum_list [symmetric])
  also have "map (fst \<circ> client_tuple) (active_clients s) = map (\<lambda>(_, c). oc_num_slots c) (active_clients s)"
    by (auto simp: comp_def)
  finally have "sum_list (map fst (epoch_slots s)) = sum_list (map (\<lambda>(_, c). oc_num_slots c) (active_clients s))" .
  then show ?thesis
    using assms unfolding epoch_total_def slots_bounded_def by (simp add: foldl_u64_add)
qed

lemma shard_assignments_nth:
  assumes "j < length sl"
  shows "as_num_slots (shard_assignments sid sl ! j) = fst (sl ! j)"
    and "as_client_id (shard_assignments sid sl ! j) =
           (if fst (snd (sl ! j)) \<noteq> sid then UINT64_MAX else snd (snd (sl ! j)))"
  using assms by (auto simp: shard_assignments_def split_def)

lemma shard_assignments_slots [simp]:
  "map as_num_slots (shard_assignments sid sl) = map fst sl" "length (shard_assignments sid sl) = length sl"
  by (auto simp: shard_assignments_def)

text \<open>The layout depends on the numbers of slots only: it is the same in all shards.\<close>

lemma epoch_plan_cong:
  assumes "map as_num_slots asg = map as_num_slots asg'" and "asg \<noteq> []"
  shows "epoch_plan asg = epoch_plan asg'"
proof -
  have len: "length asg = length asg'"
    using assms(1) by (metis length_map)
  have nth: "as_num_slots (asg ! j) = as_num_slots (asg' ! j)" if "j < length asg" for j
    using assms(1) that len by (metis nth_map)
  then have 0: "as_num_slots (asg ! 0) = as_num_slots (asg' ! 0)"
    using assms(2) by simp
  have "round_plan asg = round_plan asg'"
    unfolding round_plan_def fun_eq_iff len [symmetric]
    by (auto intro!: filter_cong simp: due_def err_def first_error_def nth 0 len)
  then show ?thesis
    by (simp add: epoch_plan_def 0)
qed

lemma epoch_assignments_wf:
  assumes inv: "order_inv s" and some: "active_clients s \<noteq> []" and small: "slots_bounded s"
  shows "wf_assignments (shard_assignments sid (epoch_slots s))"
proof -
  let ?sl = "epoch_slots s"
  have ne: "?sl \<noteq> []"
    using some by (metis epoch_slots_length length_0_conv)
  have mono: "fst (?sl ! j) \<le> fst (?sl ! 0)" if "j < length ?sl" for j
  proof (cases "j = 0")
    case False
    then have "?sl ! j \<le> ?sl ! 0"
      using sorted_wrt_nth_less [OF epoch_slots_decreasing, of 0 j] that by simp
    then show ?thesis
      by (auto simp: less_eq_prod_def)
  qed simp
  have "fst (?sl ! 0) \<le> sum_list (map fst ?sl)"
    using ne by (intro elem_le_sum_list [of 0 "map fst ?sl", simplified]) simp
  also have "\<dots> < 2 ^ 62"
    using small epoch_total_eq [OF small] unfolding slots_bounded_def epoch_total_def
    by (simp add: foldl_u64_add)
  finally have first: "fst (?sl ! 0) < 2 ^ 62" .
  have id: "snd (snd (?sl ! j)) < MAX_CLIENTS" if "j < length ?sl" for j
    using nth_mem [OF that] active_client_ok(2) [OF inv] by (auto simp: epoch_slots_set)
  show ?thesis
    unfolding wf_assignments_def
    using ne first mono id
    by (auto simp: in_set_conv_nth shard_assignments_nth simp flip: length_greater_0_conv)
qed

lemma epoch_assignments_fit:
  assumes "order_inv s"
  shows "within_limits (Storage_slots g (shard_assignments sid (epoch_slots s)))"
  using active_clients_length [OF assms] by (simp add: epoch_slots_length)

subsection \<open>The slots of an epoch over all shards\<close>

text \<open>The client of the \<open>k\<close>-th sequence number of the epoch: its number of slots, shard and identity.\<close>

definition epoch_owner :: "order_state \<Rightarrow> nat \<Rightarrow> u64 \<times> u64 \<times> u64" where
  "epoch_owner s k = epoch_slots s ! (epoch_plan (shard_assignments 0 (epoch_slots s)) ! k)"

text \<open>The slots that the epoch adds to the logs of a shard.\<close>

definition new_slots :: "order_state \<Rightarrow> u64 \<Rightarrow> (u64 \<times> u64) list" where
  "new_slots s sid =
     map (\<lambda>k. (snd (snd (epoch_owner s k)), os_gsn_base s + k))
       (filter (\<lambda>k. fst (snd (epoch_owner s k)) = sid) [0..<sum_list (map fst (epoch_slots s))])"

definition epoch_ok :: "order_state \<Rightarrow> bool" where
  "epoch_ok s \<longleftrightarrow> order_inv s \<and> active_clients s \<noteq> [] \<and> slots_bounded s"

lemma epoch_ok_wf: "epoch_ok s \<Longrightarrow> wf_assignments (shard_assignments sid (epoch_slots s))"
  by (simp add: epoch_ok_def epoch_assignments_wf)

lemma epoch_plan_shard:
  assumes "epoch_ok s"
  shows "epoch_plan (shard_assignments sid (epoch_slots s)) = epoch_plan (shard_assignments 0 (epoch_slots s))"
proof (rule epoch_plan_cong)
  show "shard_assignments sid (epoch_slots s) \<noteq> []"
    using epoch_ok_wf [OF assms] by (simp add: wf_assignments_def)
qed simp

lemma epoch_plan_length:
  assumes "epoch_ok s"
  shows "length (epoch_plan (shard_assignments sid (epoch_slots s))) = sum_list (map fst (epoch_slots s))"
  using length_epoch_plan [OF epoch_ok_wf [OF assms, of sid]] by simp

lemma epoch_plan_index:
  assumes ok: "epoch_ok s" and k: "k < sum_list (map fst (epoch_slots s))"
  shows "epoch_plan (shard_assignments sid (epoch_slots s)) ! k < length (epoch_slots s)"
proof -
  have "shard_assignments sid (epoch_slots s) \<noteq> []"
    using epoch_ok_wf [OF ok, of sid] by (simp add: wf_assignments_def)
  then show ?thesis
    using set_epoch_plan [of "shard_assignments sid (epoch_slots s)"] k epoch_plan_length [OF ok, of sid]
    by (force simp: subset_iff)
qed

lemma epoch_owner_active:
  assumes ok: "epoch_ok s" and k: "k < sum_list (map fst (epoch_slots s))"
  obtains cid c where "(cid, c) \<in> set (active_clients s)" "epoch_owner s k = client_tuple (cid, c)"
proof -
  have "epoch_owner s k \<in> set (epoch_slots s)"
    unfolding epoch_owner_def by (rule nth_mem) (rule epoch_plan_index [OF ok k])
  with that show ?thesis
    by (auto simp: epoch_slots_set)
qed

lemma epoch_owner_ids:
  assumes ok: "epoch_ok s" and k: "k < sum_list (map fst (epoch_slots s))"
  shows "fst (snd (epoch_owner s k)) < NUM_SHARDS" and "snd (snd (epoch_owner s k)) < MAX_CLIENTS"
proof -
  obtain cid c where "(cid, c) \<in> set (active_clients s)" "epoch_owner s k = client_tuple (cid, c)"
    using epoch_owner_active [OF ok k] .
  with active_client_ok [of s cid c] ok
  show "fst (snd (epoch_owner s k)) < NUM_SHARDS" "snd (snd (epoch_owner s k)) < MAX_CLIENTS"
    by (simp_all add: epoch_ok_def)
qed

lemma add_entries_epoch:
  assumes ok: "epoch_ok s" and "log_inv l" and "os_gsn_base s + sum_list (map fst (epoch_slots s)) \<le> 2 ^ 64"
  shows "\<exists>l'. add_entries (os_gsn_base s) (shard_assignments sid (epoch_slots s)) l = Inr l' \<and> log_inv l' \<and>
           log_extends l l' \<and> l_num_entries l' = l_current_entries l' \<and> log_slots l' = log_slots l @ new_slots s sid"
proof -
  let ?asg = "shard_assignments sid (epoch_slots s)" and ?T = "sum_list (map fst (epoch_slots s))"
  let ?client = "\<lambda>k. as_client_id (?asg ! (epoch_plan ?asg ! k))"
  have owner: "?client k = (if fst (snd (epoch_owner s k)) \<noteq> sid then UINT64_MAX else snd (snd (epoch_owner s k)))"
    if "k < ?T" for k
    using shard_assignments_nth(2) [OF epoch_plan_index [OF ok that, of sid]] epoch_plan_shard [OF ok, of sid]
    by (simp add: epoch_owner_def)
  have "?client k \<noteq> UINT64_MAX \<longleftrightarrow> fst (snd (epoch_owner s k)) = sid" if "k < ?T" for k
    using owner [OF that] epoch_owner_ids(2) [OF ok that] MAX_CLIENTS_less_max by auto
  then have "filter (\<lambda>k. ?client k \<noteq> UINT64_MAX) [0..<?T] = filter (\<lambda>k. fst (snd (epoch_owner s k)) = sid) [0..<?T]"
    by (intro filter_cong) auto
  then have "map (\<lambda>k. (?client k, os_gsn_base s + k)) (filter (\<lambda>k. ?client k \<noteq> UINT64_MAX) [0..<?T]) =
      new_slots s sid"
    by (auto simp: new_slots_def owner)
  then show ?thesis
    using add_entries_log [OF assms(2) epoch_ok_wf [OF ok, of sid], of "os_gsn_base s"] assms(3)
    by simp
qed

lemma distinct_concat_classes: "distinct xs \<Longrightarrow> distinct (concat (map (\<lambda>i. filter (\<lambda>x. f x = i) xs) [0..<n]))"
  by (induction n) auto

lemma new_slots_partition:
  assumes ok: "epoch_ok s"
  shows "distinct (concat (map (\<lambda>sid. map snd (new_slots s sid)) [0..<NUM_SHARDS]))"
    and "set (concat (map (\<lambda>sid. map snd (new_slots s sid)) [0..<NUM_SHARDS])) =
           {os_gsn_base s..<os_gsn_base s + sum_list (map fst (epoch_slots s))}"
proof -
  let ?T = "sum_list (map fst (epoch_slots s))" and ?f = "\<lambda>k. fst (snd (epoch_owner s k))"
  let ?ks = "concat (map (\<lambda>sid. filter (\<lambda>k. ?f k = sid) [0..<?T]) [0..<NUM_SHARDS])"
  have gsns: "concat (map (\<lambda>sid. map snd (new_slots s sid)) [0..<NUM_SHARDS]) = map ((+) (os_gsn_base s)) ?ks"
    by (simp add: new_slots_def map_concat comp_def)
  show "distinct (concat (map (\<lambda>sid. map snd (new_slots s sid)) [0..<NUM_SHARDS]))"
    unfolding gsns by (simp add: distinct_map distinct_concat_classes)
  have "set ?ks = {0..<?T}"
    using epoch_owner_ids(1) [OF ok] by auto
  then show "set (concat (map (\<lambda>sid. map snd (new_slots s sid)) [0..<NUM_SHARDS])) =
     {os_gsn_base s..<os_gsn_base s + ?T}"
    unfolding gsns by (simp add: image_add_atLeastLessThan add.commute)
qed

lemma count_list_filter_nth: "count_list xs x = length (filter (\<lambda>k. xs ! k = x) [0..<length xs])"
proof (induction xs rule: rev_induct)
  case (snoc y xs)
  have "filter (\<lambda>k. (xs @ [y]) ! k = x) [0..<length xs] = filter (\<lambda>k. xs ! k = x) [0..<length xs]"
    by (rule filter_cong) (auto simp: nth_append)
  with snoc show ?case by simp
qed simp

text \<open>Every active client gets exactly its number of slots, all in its shard.\<close>

lemma new_slots_count:
  assumes ok: "epoch_ok s" and c: "(cid, c) \<in> set (active_clients s)"
  shows "length (filter (\<lambda>(d, _). d = cid) (new_slots s sid)) =
         (if sid = oc_shard_id c then oc_num_slots c else 0)"
proof -
  let ?T = "sum_list (map fst (epoch_slots s))" and ?asg = "shard_assignments 0 (epoch_slots s)"
  have inv: "order_inv s"
    using ok by (simp add: epoch_ok_def)
  obtain j where j: "j < length (epoch_slots s)" "epoch_slots s ! j = client_tuple (cid, c)"
    using c by (metis (no_types, lifting) epoch_slots_set image_eqI in_set_conv_nth)
  have uniq: "snd (snd (epoch_owner s k)) = cid \<longleftrightarrow> epoch_plan ?asg ! k = j" if k: "k < ?T" for k
  proof
    assume "snd (snd (epoch_owner s k)) = cid"
    then have "epoch_owner s k = client_tuple (cid, c)"
      using epoch_owner_active [OF ok k] active_client_ok(1) [OF inv] active_client_ok(1) [OF inv c]
      by (metis (no_types, lifting) case_prod_conv option.inject snd_conv)
    then show "epoch_plan ?asg ! k = j"
      using j epoch_plan_index [OF ok k, of 0] distinct_epoch_slots [OF inv]
      unfolding epoch_owner_def by (metis nth_eq_iff_index_eq)
  qed (use j in \<open>simp add: epoch_owner_def\<close>)
  have owner: "epoch_owner s k = client_tuple (cid, c)" if "epoch_plan ?asg ! k = j" for k
    using that j by (simp add: epoch_owner_def)
  have "length (filter (\<lambda>(d, _). d = cid) (new_slots s sid)) =
      length (filter (\<lambda>k. snd (snd (epoch_owner s k)) = cid \<and> fst (snd (epoch_owner s k)) = sid) [0..<?T])"
    by (simp add: new_slots_def filter_map comp_def conj_commute)
  also have "filter (\<lambda>k. snd (snd (epoch_owner s k)) = cid \<and> fst (snd (epoch_owner s k)) = sid) [0..<?T] =
      (if sid = oc_shard_id c then filter (\<lambda>k. epoch_plan ?asg ! k = j) [0..<?T] else [])"
  proof -
    have "snd (snd (epoch_owner s k)) = cid \<and> fst (snd (epoch_owner s k)) = sid \<longleftrightarrow>
        epoch_plan ?asg ! k = j \<and> sid = oc_shard_id c" if "k < ?T" for k
      using uniq [OF that] owner [of k] by (cases "epoch_plan ?asg ! k = j") auto
    then have "filter (\<lambda>k. snd (snd (epoch_owner s k)) = cid \<and> fst (snd (epoch_owner s k)) = sid) [0..<?T] =
        filter (\<lambda>k. epoch_plan ?asg ! k = j \<and> sid = oc_shard_id c) [0..<?T]"
      by (intro filter_cong) auto
    then show ?thesis
      by (cases "sid = oc_shard_id c") simp_all
  qed
  finally have "length (filter (\<lambda>(d, _). d = cid) (new_slots s sid)) =
      (if sid = oc_shard_id c then length (filter (\<lambda>k. epoch_plan ?asg ! k = j) [0..<?T]) else 0)"
    by auto
  moreover have "length (filter (\<lambda>k. epoch_plan ?asg ! k = j) [0..<?T]) = oc_num_slots c"
    using count_epoch_plan [OF epoch_ok_wf [OF ok, of 0], of j] j epoch_plan_length [OF ok, of 0]
    by (simp add: count_list_filter_nth shard_assignments_nth)
  ultimately show ?thesis by simp
qed

subsection \<open>Properties\<close>

text \<open>Two active clients of shard 0, with three slots and one slot, one storage server.\<close>

definition example_order :: order_state where
  "example_order = order_init\<lparr>os_gsn_base := 7, os_addresses := (os_addresses order_init)[0 := [(0, (1, 2))]],
     os_queues := (os_queues order_init)[0 := [0]],
     os_clients := [(0, client_state_new 0 1), (5, client_state_new 0 3)]\<rparr>"

lemma example_order_ok: "epoch_ok example_order"
proof -
  have "shards_ok example_order"
    unfolding shards_ok_def example_order_def order_init_def by (auto simp: nth_list_update consts_defs)
  then show ?thesis
    by (auto simp: epoch_ok_def order_inv_def example_order_def order_init_def clients_ok_def client_ok_def
        client_state_new_def wraparound_inv_def wraparound_init_def active_clients_def slots_bounded_def MAX_CLIENTS_value)
qed

lemma example_order_active:
  "(5, client_state_new 0 3) \<in> set (active_clients example_order)" "sum_list (map fst (epoch_slots example_order)) = 4"
  using epoch_total_eq [of example_order] example_order_ok
  by (simp_all add: epoch_ok_def active_clients_def example_order_def client_state_new_def epoch_total_def u64_add_def)

text \<open>
  C3. In every epoch, each sequence number from the current base up to the base of the next epoch belongs to
  exactly one slot of exactly one shard: no number is handed out twice and none is left out, so over all
  epochs the sequence numbers of the log have no gap and no duplicate.
\<close>

theorem epoch_partition:
  assumes "epoch_ok s" and "os_gsn_base s + epoch_total s < 2 ^ 64"
  shows "distinct (concat (map (\<lambda>sid. map snd (new_slots s sid)) [0..<NUM_SHARDS])) \<and>
    set (concat (map (\<lambda>sid. map snd (new_slots s sid)) [0..<NUM_SHARDS])) =
      {os_gsn_base s..<os_gsn_base (fst (start_epoch now s))}"
  using new_slots_partition [OF assms(1)] assms epoch_total_eq [of s]
  by (simp add: start_epoch_def u64_add_small epoch_ok_def)

theorem epoch_partition_witness:
  "distinct (concat (map (\<lambda>sid. map snd (new_slots example_order sid)) [0..<NUM_SHARDS])) \<and>
   set (concat (map (\<lambda>sid. map snd (new_slots example_order sid)) [0..<NUM_SHARDS])) =
     {os_gsn_base example_order..<os_gsn_base (fst (start_epoch 0 example_order))}"
proof (rule epoch_partition [OF example_order_ok])
  show "os_gsn_base example_order + epoch_total example_order < 2 ^ 64"
    by (simp add: epoch_total_def example_order_def active_clients_def client_state_new_def u64_add_def)
qed

text \<open>
  When an epoch starts, every client that has not failed is told its number of slots, and exactly that
  many slots of the epoch carry its identity, all of them in the log of its own shard.
\<close>

lemma epoch_grants:
  assumes "epoch_ok s" and "(cid, c) \<in> set (active_clients s)"
  shows "Send (To_client cid) (Client_new_epoch (now + EPOCH_DURATION) (oc_num_slots c)) 0 False \<in> set (snd (start_epoch now s)) \<and>
    length (filter (\<lambda>(d, _). d = cid) (new_slots s sid)) = (if sid = oc_shard_id c then oc_num_slots c else 0)"
  using new_slots_count [OF assms, of sid] assms(2) by (force simp: start_epoch_def)

text \<open>
  C12. Every storage server of a shard is sent the same description of the epoch, and the layout that a server
  computes from it extends its log, whatever it holds, by the same slots with the same sequence numbers: the
  replicas of a shard agree on the layout without talking to each other.
\<close>

theorem replicas_lay_out_alike:
  assumes "epoch_ok s" and "sid < NUM_SHARDS" and "rid \<in> set (os_queues s ! sid)" and "log_inv l"
    and "os_gsn_base s + epoch_total s < 2 ^ 64"
  shows "\<exists>asg l'. Send (To_storage sid rid) (Storage_slots (os_gsn_base s) asg) 0 False \<in> set (snd (start_epoch now s)) \<and>
    add_entries (os_gsn_base s) asg l = Inr l' \<and> log_inv l' \<and> log_extends l l' \<and>
    l_num_entries l' = l_current_entries l' \<and> log_slots l' = log_slots l @ new_slots s sid"
proof -
  have "os_gsn_base s + sum_list (map fst (epoch_slots s)) \<le> 2 ^ 64"
    using assms(1,5) epoch_total_eq [of s] by (simp add: epoch_ok_def)
  from add_entries_epoch [OF assms(1,4) this, of sid] assms(2,3) show ?thesis
    by (intro exI [of _ "shard_assignments sid (epoch_slots s)"]) (force simp: start_epoch_def to_replicas_def)
qed

theorem replicas_lay_out_alike_witness:
  "\<exists>asg l'. Send (To_storage 0 0) (Storage_slots (os_gsn_base example_order) asg) 0 False \<in> set (snd (start_epoch 0 example_order)) \<and>
    add_entries (os_gsn_base example_order) asg log_init = Inr l' \<and> log_inv l' \<and> log_extends log_init l' \<and>
    l_num_entries l' = l_current_entries l' \<and> log_slots l' = log_slots log_init @ new_slots example_order 0"
proof (rule replicas_lay_out_alike [OF example_order_ok])
  show "0 \<in> set (os_queues example_order ! 0)"
    by (simp add: example_order_def order_init_def)
  show "os_gsn_base example_order + epoch_total example_order < 2 ^ 64"
    by (simp add: epoch_total_def example_order_def active_clients_def client_state_new_def u64_add_def)
qed (simp_all add: log_inv_init)

end
