(* ===== verification/Replica.thy ===== *)
theory Replica
  imports Storage_Facts Epoch "HOL-Library.Sublist"
begin

text \<open>
  What a storage server promises, apart from blocks, pointers and positions: a sequence of slots, each owned by
  a client, and for every client the stream of payloads that fills its slots from the first one on. Every
  operation of the server is one of this abstract log; the content of a replica is then determined by the
  epochs and the streams, so replicas that have got the same ones agree on every filled slot.
\<close>

subsection \<open>The abstract log\<close>

record abs_log =
  al_slots :: "(u64 \<times> u64) list"
  al_stream :: "u64 \<Rightarrow> byte list list"

definition abs_extend :: "(u64 \<times> u64) list \<Rightarrow> abs_log \<Rightarrow> abs_log" where
  "abs_extend new a = a\<lparr>al_slots := al_slots a @ new\<rparr>"

text \<open>An insert that closes \<open>n\<close> slots leaves all but the last of them empty.\<close>

definition abs_insert :: "u64 \<Rightarrow> nat \<Rightarrow> byte list \<Rightarrow> abs_log \<Rightarrow> abs_log" where
  "abs_insert cid n bytes a =
     a\<lparr>al_stream := (al_stream a)(cid := al_stream a cid @ replicate (n - 1) [] @ [bytes])\<rparr>"

definition abs_owned :: "u64 \<Rightarrow> abs_log \<Rightarrow> u64 list" where
  "abs_owned cid a = map snd (filter (\<lambda>(d, _). d = cid) (al_slots a))"

definition abs_close :: "u64 \<Rightarrow> abs_log \<Rightarrow> abs_log" where
  "abs_close cid a =
     a\<lparr>al_stream := (al_stream a)(cid := al_stream a cid @ replicate (length (abs_owned cid a) - length (al_stream a cid)) [])\<rparr>"

subsection \<open>The abstraction\<close>

definition client_stream :: "log \<Rightarrow> u64 \<Rightarrow> byte list list" where
  "client_stream l cid = map (\<lambda>i. entry_payload (ent l i)) (filter (\<lambda>i. e_set (ent l i)) (cidx l cid))"

definition abs_of :: "log \<Rightarrow> abs_log" where
  "abs_of l = \<lparr>al_slots = log_slots l, al_stream = client_stream l\<rparr>"

definition unset_empty :: "log \<Rightarrow> bool" where
  "unset_empty l \<longleftrightarrow> (\<forall>i < l_current_entries l. \<not> e_set (ent l i) \<longrightarrow> e_data_length (ent l i) = 0)"

lemma filter_prefix:
  assumes "k \<le> length xs" and "\<forall>j < length xs. P (xs ! j) \<longleftrightarrow> j < k"
  shows "filter P xs = take k xs"
proof -
  have "filter P (take k xs) = take k xs"
    using assms by (fastforce simp: filter_id_conv in_set_conv_nth)
  moreover have "filter P (drop k xs) = []"
    using assms by (fastforce simp: filter_empty_conv in_set_conv_nth)
  ultimately show ?thesis
    by (metis append_Nil2 append_take_drop_id filter_append)
qed

lemma cursor_stream:
  assumes "cursor l pos k"
  shows "client_stream l (p_client_id pos) = map (\<lambda>i. entry_payload (ent l i)) (take k (cidx l (p_client_id pos)))"
  using assms filter_prefix [of k "cidx l (p_client_id pos)" "\<lambda>i. e_set (ent l i)"] pos_at_bound [of l pos k]
  by (simp add: client_stream_def cursor_def)

lemma cursor_stream_length: "cursor l pos k \<Longrightarrow> length (client_stream l (p_client_id pos)) = k"
  using pos_at_bound [of l pos k] cursor_stream [of l pos k] by (simp add: cursor_def)

lemma abs_owned_cidx: "abs_owned cid (abs_of l) = map (\<lambda>i. e_gsn (ent l i)) (cidx l cid)"
  by (simp add: abs_owned_def abs_of_def log_slots_def cidx_def filter_map comp_def)

lemma entry_payload_unset: "e_data_length e = 0 \<Longrightarrow> entry_payload e = []"
  by (simp add: entry_payload_def split: edata.split)

lemma entry_payload_mark [simp]: "entry_payload (mark e) = entry_payload e"
  by (simp add: entry_payload_def cong: edata.case_cong)

text \<open>The other clients' streams, when their entries are untouched.\<close>

lemma client_stream_other:
  assumes "same_layout l l'" and "\<And>i. e_client_id (ent l i) = d \<Longrightarrow> ent l' i = ent l i"
  shows "client_stream l' d = client_stream l d"
proof -
  have "ent l' i = ent l i" if "i \<in> set (cidx l d)" for i
    using that assms(2) by (simp add: cidx_def)
  then show ?thesis
    unfolding client_stream_def same_layout_cidx [OF assms(1)] by (intro map_cong filter_cong) auto
qed

text \<open>The entries of the client after an insert, by their place in its list.\<close>

lemma insert_result_payload:
  assumes room: "0 < n" "k + n \<le> length (cidx l c)" and j: "j < length (cidx l c)"
  shows "entry_payload (ent (insert_result l c k bytes (length bytes) n) (cidx l c ! j)) =
    (if j = k + n - 1 then bytes else entry_payload (ent l (cidx l c ! j)))"
proof -
  have last: "cidx l c ! j = cidx l c ! (k + n - 1) \<longleftrightarrow> j = k + n - 1"
    using j room by (intro cidx_nth_inject) auto
  then show ?thesis
    unfolding insert_result_ent last by (simp add: entry_payload_def alloc_copy_def split: edata.split)
qed

lemma stream_append:
  assumes k: "cursor l pos k" and k': "cursor l' pos' (k + n)" and id: "p_client_id pos = c" "p_client_id pos' = c"
    and idx: "cidx l' c = cidx l c" and kn: "k + n \<le> length (cidx l c)"
    and old: "\<And>j. j < k \<Longrightarrow> entry_payload (ent l' (cidx l c ! j)) = entry_payload (ent l (cidx l c ! j))"
    and new: "\<And>j. j < n \<Longrightarrow> entry_payload (ent l' (cidx l c ! (k + j))) = ys ! j" and ys: "length ys = n"
  shows "client_stream l' c = client_stream l c @ ys"
proof (rule nth_equalityI)
  have len: "length (client_stream l c) = k" "length (client_stream l' c) = k + n"
    using cursor_stream_length [OF k] cursor_stream_length [OF k'] id by simp_all
  then show "length (client_stream l' c) = length (client_stream l c @ ys)"
    by (simp add: ys)
  fix j assume "j < length (client_stream l' c)"
  then have j: "j < k + n" by (simp add: len)
  have "client_stream l' c ! j = entry_payload (ent l' (cidx l c ! j))"
    using cursor_stream [OF k'] id idx j kn by simp
  moreover have "client_stream l c ! j = entry_payload (ent l (cidx l c ! j))" if "j < k"
    using cursor_stream [OF k] id that kn by simp
  ultimately show "client_stream l' c ! j = (client_stream l c @ ys) ! j"
    using old [of j] new [of "j - k"] j by (cases "j < k") (simp_all add: nth_append len)
qed

lemma unset_payload:
  assumes "unset_empty l" and "cursor l pos k" and "p_client_id pos = c" and "k \<le> j" and "j < length (cidx l c)"
  shows "entry_payload (ent l (cidx l c ! j)) = []"
proof -
  have "\<not> e_set (ent l (cidx l c ! j))"
    using assms by (simp add: cursor_def)
  then show ?thesis
    using assms(1) cidx_nth_less [OF assms(5)] by (intro entry_payload_unset) (simp add: unset_empty_def)
qed

lemma abs_of_stream_upd:
  assumes "log_slots l' = log_slots l" and "client_stream l' c = xs" and "\<And>d. d \<noteq> c \<Longrightarrow> client_stream l' d = client_stream l d"
  shows "abs_of l' = (abs_of l)\<lparr>al_stream := (al_stream (abs_of l))(c := xs)\<rparr>"
  using assms by (auto simp: abs_of_def fun_eq_iff)

lemma insert_result_abs:
  assumes k: "cursor l pos k" and id: "p_client_id pos = cid" and un: "unset_empty l"
    and n: "0 < n" and room: "k + n \<le> length (cidx l cid)"
    and l': "l' = insert_result l cid k bytes (length bytes) n" and k': "cursor l' pos' (k + n)" and id': "p_client_id pos' = cid"
  shows "abs_of l' = abs_insert cid n bytes (abs_of l) \<and> unset_empty l'"
proof -
  have lay: "same_layout l l'"
    unfolding l' using insert_result_layout [OF n room] .
  have "client_stream l' cid = client_stream l cid @ replicate (n - 1) [] @ [bytes]"
  proof (rule stream_append [OF k k' id id' _ room])
    show "cidx l' cid = cidx l cid"
      using same_layout_cidx [OF lay] by simp
    show "entry_payload (ent l' (cidx l cid ! j)) = entry_payload (ent l (cidx l cid ! j))" if "j < k" for j
      using that room n by (auto simp: l' insert_result_payload)
    show "entry_payload (ent l' (cidx l cid ! (k + j))) = (replicate (n - 1) [] @ [bytes]) ! j" if "j < n" for j
      using that room n unset_payload [OF un k id, of "k + j"]
      by (auto simp: l' insert_result_payload nth_append)
  qed (use n in simp)
  moreover have "client_stream l' d = client_stream l d" if "d \<noteq> cid" for d
    using that insert_result_other [OF n room] by (intro client_stream_other [OF lay]) (auto simp: l')
  ultimately have "abs_of l' = abs_insert cid n bytes (abs_of l)"
    using same_layout_slots [OF lay] unfolding abs_insert_def
    by (intro abs_of_stream_upd) (simp_all add: abs_of_def)
  moreover have "unset_empty l'"
    using un lay by (auto simp: unset_empty_def l' insert_result_ent same_layout_def)
  ultimately show ?thesis by blast
qed

subsection \<open>Refinement\<close>

text \<open>
  An insert of a connected client: the abstract insert, acknowledged with the sequence number of the slot
  that got the payload.
\<close>

lemma insert_refines:
  fixes s :: storage_state and cid :: u64
  defines "a \<equiv> abs_of (st_log s)"
  assumes inv: "storage_inv s" and un: "unset_empty (st_log s)" and cid: "cid < MAX_CLIENTS"
    and live: "sc_connected (client_of s cid)" "\<not> sc_disconnected (client_of s cid)"
    and n: "0 < n" "n < 2 ^ 64" "length (al_stream a cid) + n \<le> length (abs_owned cid a)"
  obtains s' where "storage_on_insert (Storage_insert cid n bytes) s =
      Some (Inr (s', [Send (To_client cid) (Client_insert_ack (st_replica_id s)
                        (abs_owned cid a ! (length (al_stream a cid) + n - 1))) 0 False]))"
    "storage_inv s'" "unset_empty (st_log s')" "abs_of (st_log s') = abs_insert cid n bytes a"
proof -
  let ?l = "st_log s" and ?c = "client_of s cid"
  obtain k where k: "cursor ?l (sc_position ?c) k" and id: "p_client_id (sc_position ?c) = cid"
    using obtain_cursor [OF inv] .
  have len: "length (al_stream a cid) = k"
    using cursor_stream_length [OF k] id by (simp add: a_def abs_of_def)
  have owned: "abs_owned cid a = map (\<lambda>i. e_gsn (ent ?l i)) (cidx ?l cid)"
    by (simp add: a_def abs_owned_cidx)
  have room: "k + n \<le> length (cidx ?l cid)"
    using n(3) by (simp add: len owned)
  obtain s' where run: "storage_on_insert (Storage_insert cid n bytes) s =
       Some (Inr (s', [Send (To_client cid) (Client_insert_ack (st_replica_id s) (e_gsn (ent ?l (cidx ?l cid ! (k + n - 1))))) 0 False]))"
    and inv': "storage_inv s'" and log': "st_log s' = insert_result ?l cid k bytes (length bytes) n"
    and k': "cursor (st_log s') (sc_position (client_of s' cid)) (k + n)"
    using storage_on_insert_ok [OF inv cid live k n(1,2) room] by metis
  have id': "p_client_id (sc_position (client_of s' cid)) = cid"
    using client_inv_of [OF inv', of cid] by (simp add: client_inv_def)
  have "abs_of (st_log s') = abs_insert cid n bytes a \<and> unset_empty (st_log s')"
    unfolding a_def by (rule insert_result_abs [OF k id un n(1) room log' k' id'])
  moreover have "k + n - 1 < length (cidx ?l cid)"
    using n(1) room by simp
  ultimately show thesis
    using that [of s'] run inv' by (simp add: owned len)
qed

lemma finalize_refines:
  fixes s :: storage_state and cid :: u64
  defines "a \<equiv> abs_of (st_log s)"
  assumes inv: "storage_inv s" and un: "unset_empty (st_log s)" and cid: "cid < MAX_CLIENTS"
  obtains s' where "storage_on_finalize (Storage_client_finalize cid) s = Some (Inr (s', []))"
    "storage_inv s'" "unset_empty (st_log s')" "abs_of (st_log s') = abs_close cid a"
proof -
  let ?l = "st_log s" and ?c = "client_of s cid" and ?xs = "cidx (st_log s) cid"
  obtain k where k: "cursor ?l (sc_position ?c) k" and id: "p_client_id (sc_position ?c) = cid"
    using obtain_cursor [OF inv] .
  have kl: "k \<le> length ?xs"
    using k id pos_at_bound [of ?l "sc_position ?c" k] by (simp add: cursor_def)
  obtain s' where run: "storage_on_finalize (Storage_client_finalize cid) s = Some (Inr (s', []))" and inv': "storage_inv s'"
    and lay: "same_layout ?l (st_log s')"
    and set': "\<forall>i < l_current_entries ?l. e_client_id (ent ?l i) = cid \<longrightarrow> e_set (ent (st_log s') i)"
    and other: "\<forall>i. e_client_id (ent ?l i) \<noteq> cid \<longrightarrow> ent (st_log s') i = ent ?l i"
    and same: "\<forall>i. entry_payload (ent (st_log s') i) = entry_payload (ent ?l i) \<and>
         e_data_length (ent (st_log s') i) = e_data_length (ent ?l i)"
    using storage_on_finalize_ok [OF inv cid] by metis
  obtain k' where k': "cursor (st_log s') (sc_position (client_of s' cid)) k'" and id': "p_client_id (sc_position (client_of s' cid)) = cid"
    using obtain_cursor [OF inv'] .
  have idx: "cidx (st_log s') cid = ?xs"
    using same_layout_cidx [OF lay] by simp
  have "k' = length ?xs"
  proof (rule ccontr)
    assume "k' \<noteq> length ?xs"
    then have "k' < length ?xs"
      using k' id' idx pos_at_bound [of "st_log s'" "sc_position (client_of s' cid)" k'] by (simp add: cursor_def)
    then show False
      using k' id' idx set' cidx_nth_less [of k' ?l cid] cidx_nth_client [of k' ?l cid] by (auto simp: cursor_def)
  qed
  with k' kl have k'': "cursor (st_log s') (sc_position (client_of s' cid)) (k + (length ?xs - k))"
    by simp
  have "client_stream (st_log s') cid = client_stream ?l cid @ replicate (length ?xs - k) []"
    using unset_payload [OF un k id] same kl by (intro stream_append [OF k k'' id id' idx]) auto
  moreover have "client_stream (st_log s') d = client_stream ?l d" if "d \<noteq> cid" for d
    using that other by (intro client_stream_other [OF lay]) auto
  moreover have "length (al_stream a cid) = k" "length (abs_owned cid a) = length ?xs"
    using cursor_stream_length [OF k] id by (simp_all add: a_def abs_owned_cidx) (simp add: abs_of_def)
  ultimately have "abs_of (st_log s') = abs_close cid a"
    using same_layout_slots [OF lay] unfolding abs_close_def a_def
    by (intro abs_of_stream_upd) (simp_all add: abs_of_def)
  moreover have "e_set (ent ?l i) \<Longrightarrow> e_set (ent (st_log s') i)" if "i < l_current_entries ?l" for i
    using set' other that by (cases "e_client_id (ent ?l i) = cid") auto
  then have "unset_empty (st_log s')"
    using un lay same by (auto simp: unset_empty_def same_layout_def)
  ultimately show thesis
    using that [of s'] run inv' by simp
qed

text \<open>An epoch extends the slots and leaves the streams alone.\<close>

lemma extends_refines:
  assumes ext: "log_extends l l'" and new: "log_slots l' = log_slots l @ new" and un: "unset_empty l"
  shows "abs_of l' = abs_extend new (abs_of l)" and "unset_empty l'"
proof -
  have "client_stream l' c = client_stream l c" for c
  proof -
    obtain ys where ys: "cidx l' c = cidx l c @ ys" "\<forall>i \<in> set ys. l_current_entries l \<le> i \<and> i < l_current_entries l'"
      using cidx_extends [OF ext] by blast
    have "filter (\<lambda>i. e_set (ent l' i)) ys = []"
      using ys(2) ext by (auto simp: filter_empty_conv log_extends_def)
    moreover have "map (\<lambda>i. entry_payload (ent l' i)) (filter (\<lambda>i. e_set (ent l' i)) (cidx l c)) = client_stream l c"
      unfolding client_stream_def using ext by (intro map_cong filter_cong) (auto simp: log_extends_def dest: cidx_less)
    ultimately show ?thesis
      by (simp add: client_stream_def [of l'] ys(1))
  qed
  then show "abs_of l' = abs_extend new (abs_of l)"
    by (simp add: abs_of_def abs_extend_def new fun_eq_iff)
  show "unset_empty l'"
    unfolding unset_empty_def
  proof (intro allI impI)
    fix i assume "i < l_current_entries l'" "\<not> e_set (ent l' i)"
    then show "e_data_length (ent l' i) = 0"
      using ext un by (cases "i < l_current_entries l") (auto simp: log_extends_def unset_empty_def)
  qed
qed

subsection \<open>Agreement of replicas\<close>

text \<open>
  The place of a slot among those of its client is determined by the slots alone, so two logs with the same
  slots, where the streams of a client are one a prefix of the other, hold the same payload in every slot of
  the client that the shorter one has filled.
\<close>

lemma log_slots_length [simp]: "length (log_slots l) = l_current_entries l"
  by (simp add: log_slots_def)

lemma log_slots_nth: "i < l_current_entries l \<Longrightarrow> log_slots l ! i = (e_client_id (ent l i), e_gsn (ent l i))"
  by (simp add: log_slots_def)

lemma cidx_slots: "cidx l c = filter (\<lambda>i. fst (log_slots l ! i) = c) [0..<length (log_slots l)]"
  unfolding cidx_def by (intro filter_cong) (auto simp: log_slots_nth)

lemma replicas_agree:
  assumes c1: "cursor l1 p1 k1" "p_client_id p1 = c" and c2: "cursor l2 p2 k2" "p_client_id p2 = c"
    and slots: "log_slots l1 = log_slots l2" and streams: "prefix (client_stream l1 c) (client_stream l2 c)"
    and i: "i < l_current_entries l1" "e_client_id (ent l1 i) = c" "e_set (ent l1 i)"
  shows "e_client_id (ent l2 i) = c \<and> e_gsn (ent l2 i) = e_gsn (ent l1 i) \<and> e_set (ent l2 i) \<and>
    entry_payload (ent l2 i) = entry_payload (ent l1 i)"
proof -
  have len: "l_current_entries l2 = l_current_entries l1"
    using slots by (metis log_slots_length)
  have idx: "cidx l2 c = cidx l1 c"
    by (simp add: cidx_slots slots)
  have "i \<in> set (cidx l1 c)"
    using i by (simp add: cidx_def)
  then obtain j where j: "j < length (cidx l1 c)" "i = cidx l1 c ! j"
    by (auto simp: in_set_conv_nth)
  then have jk: "j < k1"
    using i(3) c1 by (simp add: cursor_def)
  have k: "k1 \<le> k2"
    using prefix_length_le [OF streams] cursor_stream_length [OF c1(1)] cursor_stream_length [OF c2(1)] c1(2) c2(2) by simp
  have "client_stream l1 c ! j = client_stream l2 c ! j"
    using streams jk cursor_stream_length [OF c1(1)] c1(2) by (auto simp: prefix_def nth_append)
  then have "entry_payload (ent l2 i) = entry_payload (ent l1 i)"
    using cursor_stream [OF c1(1)] cursor_stream [OF c2(1)] c1(2) c2(2) idx j jk k by simp
  moreover have "e_set (ent l2 i)"
    using c2 idx j jk k by (simp add: cursor_def)
  moreover have "e_client_id (ent l2 i) = e_client_id (ent l1 i) \<and> e_gsn (ent l2 i) = e_gsn (ent l1 i)"
    using i(1) len slots log_slots_nth [of i l1] log_slots_nth [of i l2] by simp
  ultimately show ?thesis
    using i(2) by simp
qed

subsection \<open>An example\<close>

text \<open>Replica \<open>r\<close> of the first shard with two slots for client 0, which is connected.\<close>

definition example_log :: log where
  "example_log = (case add_entries 0 [\<lparr>as_client_id = 0, as_num_slots = 2\<rparr>] log_init of Inr l \<Rightarrow> l | Inl _ \<Rightarrow> log_init)"

definition example_server :: "u64 \<Rightarrow> log \<Rightarrow> storage_state" where
  "example_server r l =
     \<lparr>st_shard_id = 0, st_replica_id = r, st_log = l,
      st_client_state = [0 \<mapsto> (storage_client_new 0)\<lparr>sc_connected := True, sc_send_queue := True\<rparr>],
      st_subscribers = [], st_changes = bag_init, st_subscriber_threads = 1, st_subscriber_depth = 1,
      st_iterator = wraparound_init (MAX_OUTSTANDING_REQUESTS + 1)\<rparr>"

lemma example_log_slots: "log_slots log_init = []"
  by (simp add: log_slots_def log_init_def)

lemma unset_empty_init: "unset_empty log_init"
  by (simp add: unset_empty_def log_init_def)

lemma example_laid:
  assumes "g + 2 \<le> 2 ^ 64"
  obtains l where "add_entries g [\<lparr>as_client_id = 0, as_num_slots = 2\<rparr>] log_init = Inr l" "log_inv l" "log_extends log_init l"
    "log_slots l = [(0, g), (0, Suc g)]" "l_num_entries l = 2"
    "abs_of l = \<lparr>al_slots = [(0, g), (0, Suc g)], al_stream = \<lambda>_. []\<rparr>" "unset_empty l"
proof -
  let ?asg = "[\<lparr>as_client_id = 0, as_num_slots = 2\<rparr>]"
  have "epoch_plan ?asg = [0, 0]"
    by (simp add: epoch_plan_def round_plan_def upt_rec)
  moreover have "wf_assignments ?asg"
    by (simp add: wf_assignments_def MAX_CLIENTS_value)
  ultimately obtain l where l: "add_entries g ?asg log_init = Inr l" "log_inv l" "log_extends log_init l" "l_num_entries l = l_current_entries l"
      "log_slots l = [(0, g), (0, Suc g)]"
    using add_entries_log [OF log_inv_init, of ?asg g] assms by (auto simp: upt_rec example_log_slots)
  have "client_stream log_init = (\<lambda>_. [])"
    by (simp add: client_stream_def cidx_def log_init_def fun_eq_iff)
  then have "abs_of l = \<lparr>al_slots = [(0, g), (0, Suc g)], al_stream = \<lambda>_. []\<rparr>" "unset_empty l"
    using extends_refines [OF l(3), of "[(0, g), (0, Suc g)]"] l(5) unset_empty_init
    by (simp_all add: example_log_slots abs_of_def abs_extend_def)
  moreover have "l_num_entries l = 2"
    using l(4) arg_cong [OF l(5), of length] by simp
  ultimately show thesis
    using that l by blast
qed

lemma example_log_eq:
  "add_entries 0 [\<lparr>as_client_id = 0, as_num_slots = 2\<rparr>] log_init = Inr example_log"
  "log_inv example_log" "log_extends log_init example_log" "log_slots example_log = [(0, 0), (0, 1)]"
  "l_num_entries example_log = 2"
  "abs_of example_log = \<lparr>al_slots = [(0, 0), (0, 1)], al_stream = \<lambda>_. []\<rparr>" "unset_empty example_log"
  by (rule example_laid [of 0]; simp add: example_log_def)+

lemmas example_abs = example_log_eq(6,7)

lemma example_server_inv:
  assumes "log_inv l" and "log_extends log_init l"
  shows "storage_inv (example_server r l)"
proof -
  have "client_inv log_init cid (client_of (example_server r log_init) cid)" for cid
    using cursor_init by (auto simp: client_inv_def client_of_def example_server_def storage_client_new_def position_init_def
        split: option.splits if_splits)
  then have "storage_inv (example_server r log_init)"
    by (simp add: storage_inv_def example_server_def log_inv_init wraparound_inv_def wraparound_init_def bag_init_def)
  from extends_inv [OF this, of l] assms show ?thesis
    by (simp add: example_server_def)
qed

lemma example_server_client:
  "sc_connected (client_of (example_server r l) 0)" "\<not> sc_disconnected (client_of (example_server r l) 0)" "st_log (example_server r l) = l"
  "st_replica_id (example_server r l) = r"
  by (simp_all add: client_of_def example_server_def storage_client_new_def)

lemma example_ok: "storage_inv (example_server r example_log)"
  by (intro example_server_inv example_log_eq(2,3))

text \<open>The same server after an insert of one byte into the first slot.\<close>

definition example_filled :: log where
  "example_filled = insert_result example_log 0 0 [42] 1 1"

lemma example_log_published: "l_current_entries example_log = 2" "l_num_entries example_log = 2" "cidx example_log 0 = [0, 1]"
proof -
  show "l_current_entries example_log = 2"
    using arg_cong [OF example_log_eq(4), of length] by simp
qed (simp_all add: example_log_eq(5) cidx_slots example_log_eq(4) upt_rec)

lemma example_insert:
  obtains s where "storage_on_insert (Storage_insert 0 1 [42]) (example_server r example_log) =
      Some (Inr (s, [Send (To_client 0) (Client_insert_ack r 0) 0 False]))"
    "storage_inv s" "unset_empty (st_log s)" "st_log s = example_filled" "st_subscriber_threads s = 1" "st_changes s = bag_init"
    "abs_of (st_log s) = abs_insert 0 1 [42] (abs_of example_log)"
proof -
  let ?s = "example_server r example_log"
  have pos: "sc_position (client_of ?s 0) = position_init 0"
    by (simp add: client_of_def example_server_def storage_client_new_def)
  have k: "cursor (st_log ?s) (sc_position (client_of ?s 0)) 0"
    using cursor_extends [OF example_log_eq(3) cursor_init [of 0]] by (simp add: pos example_server_client)
  obtain s where s: "storage_on_insert (Storage_insert 0 1 [42]) ?s =
      Some (Inr (s, [Send (To_client 0) (Client_insert_ack r (e_gsn (ent example_log 0))) 0 False]))"
    "storage_inv s" "st_log s = example_filled"
    using storage_on_insert_ok [OF example_ok _ example_server_client(1,2) k, of 1 "[42]"]
    by (auto simp: MAX_CLIENTS_value example_server_client example_log_published example_filled_def
        simp del: storage_on_insert.simps)
  obtain s2 where "storage_on_insert (Storage_insert 0 1 [42]) ?s = Some (Inr (s2, [Send (To_client 0) (Client_insert_ack r 0) 0 False]))"
    "unset_empty (st_log s2)" "abs_of (st_log s2) = abs_insert 0 1 [42] (abs_of example_log)"
    by (rule insert_refines [of ?s 0 1 "[42]"])
       (auto simp: example_ok example_server_client example_abs abs_owned_def MAX_CLIENTS_value simp del: storage_on_insert.simps)
  moreover have "st_subscriber_threads s = 1" "st_changes s = bag_init"
    using s(1) by (auto simp: with_connected_of rbind_eq_Inr set_client_def example_server_def split: if_splits)
  ultimately show thesis
    using that [of s] s by simp
qed

lemma example_filled_entry:
  "e_set (ent example_filled 0)" "l_num_entries example_filled = 2" "e_client_id (ent example_filled 0) = 0" "e_gsn (ent example_filled 0) = 0"
  "l_current_entries example_filled = 2"
proof -
  have lay: "same_layout example_log example_filled"
    unfolding example_filled_def by (intro insert_result_layout) (simp_all add: example_log_published)
  then show "l_num_entries example_filled = 2" "l_current_entries example_filled = 2"
    by (simp_all add: same_layout_def example_log_published)
  show "e_set (ent example_filled 0)"
    by (simp add: example_filled_def insert_result_ent example_log_published)
  show "e_client_id (ent example_filled 0) = 0" "e_gsn (ent example_filled 0) = 0"
    using lay log_slots_nth [of 0 example_log] by (simp_all add: same_layout_def example_log_published example_log_eq(4))
qed

subsection \<open>Properties\<close>

text \<open>
  C4. An insert that closes \<open>n\<close> slots is the abstract one: the payload goes to the \<open>n\<close>-th open slot of the client, the
  slots before it stay empty for good, nothing else changes, and the acknowledgement carries the sequence
  number of the slot with the payload.
\<close>

theorem insert_appends:
  assumes "storage_inv s" and "unset_empty (st_log s)" and "cid < MAX_CLIENTS"
    and "sc_connected (client_of s cid)" and "\<not> sc_disconnected (client_of s cid)" and "0 < n" and "n < 2 ^ 64"
    and "length (al_stream (abs_of (st_log s)) cid) + n \<le> length (abs_owned cid (abs_of (st_log s)))"
  shows "\<exists>s'. storage_on_insert (Storage_insert cid n bytes) s =
      Some (Inr (s', [Send (To_client cid) (Client_insert_ack (st_replica_id s)
        (abs_owned cid (abs_of (st_log s)) ! (length (al_stream (abs_of (st_log s)) cid) + n - 1))) 0 False])) \<and>
    storage_inv s' \<and> unset_empty (st_log s') \<and> abs_of (st_log s') = abs_insert cid n bytes (abs_of (st_log s))"
  using insert_refines [OF assms] by metis

theorem insert_appends_witness:
  "\<exists>s'. storage_on_insert (Storage_insert 0 2 [42]) (example_server 0 example_log) =
      Some (Inr (s', [Send (To_client 0) (Client_insert_ack 0 1) 0 False])) \<and>
    al_stream (abs_of (st_log s')) 0 = [[], [42]]"
  using insert_appends [of "example_server 0 example_log" 0 2 "[42]"] example_ok
  by (auto simp: example_server_client example_abs abs_owned_def abs_insert_def MAX_CLIENTS_value)

text \<open>
  C22. When the ordering service finalizes a client, the loop over the open slots ends, all of them are closed
  empty, and the payloads that were there stay: after this, readers of the log are never held up by this client.
\<close>

theorem finalize_closes:
  assumes "storage_inv s" and "unset_empty (st_log s)" and "cid < MAX_CLIENTS"
  shows "\<exists>s'. storage_on_finalize (Storage_client_finalize cid) s = Some (Inr (s', [])) \<and>
    storage_inv s' \<and> unset_empty (st_log s') \<and> abs_of (st_log s') = abs_close cid (abs_of (st_log s))"
  using finalize_refines [OF assms] by metis

theorem finalize_closes_witness:
  "\<exists>s'. storage_on_finalize (Storage_client_finalize 0) (example_server 0 example_log) = Some (Inr (s', [])) \<and>
    al_stream (abs_of (st_log s')) 0 = [[], []]"
proof -
  obtain s' where "storage_on_finalize (Storage_client_finalize 0) (example_server 0 example_log) = Some (Inr (s', []))"
    "abs_of (st_log s') = abs_close 0 (abs_of example_log)"
    using finalize_closes [of "example_server 0 example_log" 0] example_ok
    by (auto simp: example_server_client example_abs(2) MAX_CLIENTS_value simp del: storage_on_finalize.simps)
  then show ?thesis
    by (auto simp: example_abs abs_close_def abs_owned_def eval_nat_numeral simp del: storage_on_finalize.simps)
qed

text \<open>
  An insert that asks for no slot, or for more slots than the client has left, fails the assertion of
  \<open>insert\<close> and ends the server.
\<close>

theorem insert_without_slot:
  assumes "storage_inv s" and "cid < MAX_CLIENTS" and "sc_connected (client_of s cid)" and "\<not> sc_disconnected (client_of s cid)"
    and "n < 2 ^ 64" and "length (abs_owned cid (abs_of (st_log s))) < 2 ^ 64"
    and "n = 0 \<or> length (abs_owned cid (abs_of (st_log s))) < length (al_stream (abs_of (st_log s)) cid) + n"
  shows "storage_on_insert (Storage_insert cid n bytes) s = Some (Inl no_entry)"
proof -
  obtain k where k: "cursor (st_log s) (sc_position (client_of s cid)) k" and id: "p_client_id (sc_position (client_of s cid)) = cid"
    using obtain_cursor [OF assms(1)] .
  have len: "length (abs_owned cid (abs_of (st_log s))) = length (cidx (st_log s) cid)" "length (al_stream (abs_of (st_log s)) cid) = k"
    using cursor_stream_length [OF k] id by (simp_all add: abs_owned_cidx) (simp add: abs_of_def)
  show ?thesis
    using storage_on_insert_exhausted [OF assms(1-4) k assms(5), of bytes] assms(6,7) unfolding len by blast
qed

text \<open>
  Two replicas that have laid out the same slots and have got the same requests of a client, one of them
  possibly fewer of them, agree on every slot of the client that the first has filled: it is filled on the other
  one too, with the same sequence number and the same payload.
\<close>

theorem replicas_hold_the_same:
  assumes "storage_inv s" and "storage_inv t" and "log_slots (st_log s) = log_slots (st_log t)"
    and "prefix (client_stream (st_log s) c) (client_stream (st_log t) c)"
    and "i < l_current_entries (st_log s)" and "e_client_id (ent (st_log s) i) = c" and "e_set (ent (st_log s) i)"
  shows "e_client_id (ent (st_log t) i) = c \<and> e_gsn (ent (st_log t) i) = e_gsn (ent (st_log s) i) \<and> e_set (ent (st_log t) i) \<and>
    entry_payload (ent (st_log t) i) = entry_payload (ent (st_log s) i)"
proof -
  obtain k where k: "cursor (st_log s) (sc_position (client_of s c)) k" "p_client_id (sc_position (client_of s c)) = c"
    using obtain_cursor [OF assms(1)] .
  obtain k' where k': "cursor (st_log t) (sc_position (client_of t c)) k'" "p_client_id (sc_position (client_of t c)) = c"
    using obtain_cursor [OF assms(2)] .
  show ?thesis
    by (rule replicas_agree [OF k k' assms(3-7)])
qed

end
