(* ===== verification/Recovery.thy ===== *)
theory Recovery
  imports Order_Facts Replica
begin

text \<open>
  The recovery of a failed client across the ordering service and the storage servers: the replicas are
  frozen and report their cuts, the ordering service compares them, and either finalizes the client or asks
  the replicas for the data behind the cut, which it forwards before it finalizes.
\<close>

subsection \<open>Collecting the cuts\<close>

fun order_cuts :: "u64 \<Rightarrow> u64 \<Rightarrow> (u64 \<times> u64) list \<Rightarrow> order_state \<Rightarrow> (order_state \<times> send list) res" where
  "order_cuts cid shard [] s = Inr (s, [])"
| "order_cuts cid shard ((rid, g) # xs) s =
     rbind (order_on_cut (Order_client_cut cid shard rid g) s)
       (\<lambda>(s1, out1). rbind (order_cuts cid shard xs s1) (\<lambda>(s2, out2). Inr (s2, out1 @ out2)))"

text \<open>The cuts in the order of the replicas, as the map holds them.\<close>

fun by_replica :: "(u64 \<times> u64) list \<Rightarrow> (u64 \<times> u64) list \<Rightarrow> (u64 \<times> u64) list" where
  "by_replica m [] = m"
| "by_replica m ((rid, g) # xs) = by_replica (smap_update rid g m) xs"

lemma length_smap_update: "k \<notin> fst ` set m \<Longrightarrow> length (smap_update k v m) = Suc (length m)"
  by (induction k v m rule: smap_update.induct) auto

lemma by_replica_keys: "fst ` set (by_replica m xs) = fst ` set m \<union> fst ` set xs"
  by (induction m xs rule: by_replica.induct) auto

lemma by_replica_sorted:
  "sorted (map fst m) \<Longrightarrow> distinct (map fst m) \<Longrightarrow>
     sorted (map fst (by_replica m xs)) \<and> distinct (map fst (by_replica m xs))"
  by (induction m xs rule: by_replica.induct) (simp_all add: sorted_smap_update)

lemma map_of_by_replica:
  "sorted (map fst m) \<Longrightarrow> distinct (map fst m) \<Longrightarrow> distinct (map fst xs) \<Longrightarrow> fst ` set m \<inter> fst ` set xs = {} \<Longrightarrow>
     map_of (by_replica m xs) = map_of m ++ map_of xs"
proof (induction m xs rule: by_replica.induct)
  case (2 m rid g xs)
  then have "map_of (by_replica (smap_update rid g m) xs) = map_of (smap_update rid g m) ++ map_of xs"
    using sorted_smap_update [of m rid g] by (intro "2.IH") auto
  moreover have "(map_of m)(rid \<mapsto> g) ++ map_of xs = map_of m ++ (map_of xs)(rid \<mapsto> g)"
    using 2(4) by (simp add: map_add_upd_left dom_map_of_conv_image_fst)
  moreover have "map_of (smap_update rid g m) = (map_of m)(rid \<mapsto> g)"
    using 2(2,3) by (rule map_of_smap_update)
  ultimately show ?case
    by (simp del: fun_upd_apply)
qed simp

lemma to_replicas_put [simp]: "to_replicas (put_client cid c s) shard m sync = to_replicas s shard m sync"
  by (simp add: to_replicas_def put_client_def)

text \<open>
  What the ordering service does when the last replica has reported: it compares the first and the last
  entry of the map, and either finalizes the client or asks for the data after the first entry.
\<close>

definition cuts_agree :: "(u64 \<times> u64) list \<Rightarrow> bool" where
  "cuts_agree cs \<longleftrightarrow> cut_min cs = cut_max cs"

lemma order_cuts_decision:
  assumes "map_of (os_clients s) cid = Some c" and "oc_failed c" and "\<not> oc_requested c"
    and "distinct (map fst xs)" and "fst ` set (oc_cuts c) \<inter> fst ` set xs = {}" and "xs \<noteq> []"
    and "length (oc_cuts c) + length xs = length (os_queues s ! oc_shard_id c)"
  defines "cs \<equiv> by_replica (oc_cuts c) xs"
  shows "\<exists>s'. order_cuts cid (oc_shard_id c) xs s =
      Inr (s', to_replicas s (oc_shard_id c)
                 (if cuts_agree cs then Storage_client_finalize cid else Storage_client_cut cid (cut_min cs)) False) \<and>
    os_queues s' = os_queues s \<and>
    map_of (os_clients s') cid = (if cuts_agree cs then None else Some (c\<lparr>oc_cuts := cs, oc_requested := True\<rparr>))"
  using assms(1-7) unfolding cs_def
proof (induction xs arbitrary: c s)
  case (Cons x xs)
  obtain rid g where x: "x = (rid, g)" by fastforce
  define c1 where "c1 = c\<lparr>oc_cuts := smap_update rid g (oc_cuts c)\<rparr>"
  define s1 where "s1 = put_client cid c1 s"
  have new: "rid \<notin> fst ` set (oc_cuts c)"
    using Cons.prems(5) x by auto
  then have len: "length (oc_cuts c1) = Suc (length (oc_cuts c))"
    by (simp add: c1_def length_smap_update)
  have c1: "map_of (os_clients s1) cid = Some c1" "os_queues s1 = os_queues s" "oc_shard_id c1 = oc_shard_id c"
    "oc_failed c1" "\<not> oc_requested c1"
    using Cons.prems by (simp_all add: s1_def c1_def put_client_def update_conv')
  have step: "order_on_cut (Order_client_cut cid (oc_shard_id c) rid g) s =
      (if length (oc_cuts c1) = length (os_queues s ! oc_shard_id c)
       then Inr (if cuts_agree (oc_cuts c1) then finalized cid c1 s1 else requested cid c1 (cut_min (oc_cuts c1)) s1)
       else Inr (s1, []))"
    using Cons.prems(1-3) new by (simp add: Let_def c1_def s1_def cuts_agree_def)
  show ?case
  proof (cases "xs = []")
    case True
    with Cons.prems(3,7) len step x show ?thesis
      by (simp add: c1_def s1_def finalized_def requested_def put_client_def to_replicas_def update_conv' delete_conv')
  next
    case False
    then have "length (oc_cuts c1) \<noteq> length (os_queues s ! oc_shard_id c)"
      using Cons.prems(7) len by (cases xs) simp_all
    then have "order_cuts cid (oc_shard_id c) (x # xs) s = order_cuts cid (oc_shard_id c1) xs s1"
      using step x c1(3) by (auto simp: rbind_def split: sum.splits)
    moreover have "fst ` set (oc_cuts c1) \<inter> fst ` set xs = {}"
      using Cons.prems(4,5) x by (auto simp: c1_def)
    ultimately show ?thesis
      using Cons.IH [OF c1(1,4,5) _ _ False] Cons.prems(4,7) c1(2,3) len x
      by (auto simp: c1_def s1_def)
  qed
qed simp

text \<open>The first and the last entry are the cuts of the replicas with the smallest and the largest number.\<close>

lemma hd_sorted_map:
  assumes "sorted (map fst m)" and "distinct (map fst m)" and "(k, v) \<in> set m" and "\<forall>k' \<in> fst ` set m. k \<le> (k' :: u64)"
  shows "hd m = (k, v)"
  using assms by (cases m) force+

lemma last_sorted_map:
  assumes "sorted (map fst m)" and "distinct (map fst m)" and "(k, v) \<in> set m" and "\<forall>k' \<in> fst ` set m. (k' :: u64) \<le> k"
  shows "last m = (k, v)"
  using assms
proof (induction m)
  case (Cons x m)
  show ?case
  proof (cases "m = []")
    case False
    then have "hd m \<in> set m" by simp
    then have "fst x < fst (hd m)" "fst (hd m) \<le> k"
      using Cons.prems by (auto simp: order.order_iff_strict)
    then have "(k, v) \<in> set m"
      using Cons.prems(3) by auto
    with Cons False show ?thesis by simp
  qed (use Cons.prems in simp)
qed simp

text \<open>
  Agreement is recognised: when every replica reports the same cut, also the one of a replica without data,
  the client is finalized.
\<close>

lemma same_cuts_agree:
  assumes "cs \<noteq> []" and "\<forall>x \<in> set cs. snd x = g"
  shows "cuts_agree cs"
  using assms hd_in_set [of cs] last_in_set [of cs] by (simp add: cuts_agree_def cut_min_def cut_max_def Let_def)

text \<open>
  Only these two cuts are compared: when they are equal the client is finalized, whatever the other replicas
  have reported.
\<close>

lemma outer_cuts_agree:
  assumes cs: "sorted (map fst cs)" "distinct (map fst cs)" and lo: "(lo, g) \<in> set cs" "\<forall>r \<in> fst ` set cs. lo \<le> r"
    and hi: "(hi, g) \<in> set cs" "\<forall>r \<in> fst ` set cs. r \<le> hi"
  shows "cuts_agree cs"
  using hd_sorted_map [OF cs lo] last_sorted_map [OF cs hi] by (simp add: cuts_agree_def cut_min_def cut_max_def)

subsection \<open>Forwarding the data\<close>

text \<open>The replies of the replicas to the request: the replica, the sequence number and the bytes.\<close>

fun order_datas :: "u64 \<Rightarrow> u64 \<Rightarrow> (u64 \<times> u64 \<times> byte list) list \<Rightarrow> order_state \<Rightarrow> (order_state \<times> send list) res" where
  "order_datas cid shard [] s = Inr (s, [])"
| "order_datas cid shard ((rid, g, bytes) # xs) s =
     rbind (order_on_data (Order_client_data cid shard rid g bytes) s)
       (\<lambda>(s1, out1). rbind (order_datas cid shard xs s1) (\<lambda>(s2, out2). Inr (s2, out1 @ out2)))"

text \<open>The patches collected from them: the first bytes received for each sequence number, in order.\<close>

fun collect :: "u64 \<Rightarrow> (u64 \<times> message) list \<Rightarrow> (u64 \<times> u64 \<times> byte list) list \<Rightarrow> (u64 \<times> message) list" where
  "collect cid m [] = m"
| "collect cid m ((rid, g, bytes) # xs) =
     collect cid (if g = UINT64_MAX \<or> g \<in> fst ` set m then m
                  else smap_update g (Storage_client_patch cid g bytes) m) xs"

definition flushers :: "(u64 \<times> u64 \<times> byte list) list \<Rightarrow> u64 list" where
  "flushers xs = map fst (filter (\<lambda>(_, g, _). g = UINT64_MAX) xs)"

text \<open>No replica sends anything after its flush, and the last message is a flush.\<close>

fun replies_ok :: "u64 list \<Rightarrow> (u64 \<times> u64 \<times> byte list) list \<Rightarrow> bool" where
  "replies_ok fl [] \<longleftrightarrow> False"
| "replies_ok fl [(rid, g, _)] \<longleftrightarrow> rid \<notin> set fl \<and> g = UINT64_MAX"
| "replies_ok fl ((rid, g, _) # x # xs) \<longleftrightarrow>
     rid \<notin> set fl \<and> replies_ok (if g = UINT64_MAX then rid # fl else fl) (x # xs)"

lemma replies_ok_last: "replies_ok fl (xs @ [(rid, g, bytes)]) \<Longrightarrow> g = UINT64_MAX"
  by (induction fl xs rule: replies_ok.induct) (auto split: if_splits)

lemma replies_ok_Cons: "replies_ok fl ((rid, g, bytes) # xs) \<Longrightarrow> xs \<noteq> [] \<Longrightarrow> replies_ok (if g = UINT64_MAX then rid # fl else fl) xs"
  by (cases xs) simp_all

lemma replies_ok_flushers: "replies_ok fl xs \<Longrightarrow> flushers xs \<noteq> []"
  by (cases xs rule: rev_cases) (auto simp: flushers_def dest: replies_ok_last)

lemma collect_keys: "fst ` set (collect cid m xs) = fst ` set m \<union> {g. g \<noteq> UINT64_MAX \<and> (\<exists>rid bytes. (rid, g, bytes) \<in> set xs)}"
proof (induction cid m xs rule: collect.induct)
  case (2 cid m rid g bytes xs)
  then show ?case by (cases "g = UINT64_MAX \<or> g \<in> fst ` set m") auto
qed simp

lemma collect_sorted:
  "sorted (map fst m) \<Longrightarrow> distinct (map fst m) \<Longrightarrow>
     sorted (map fst (collect cid m xs)) \<and> distinct (map fst (collect cid m xs))"
  by (induction cid m xs rule: collect.induct) (simp_all add: sorted_smap_update)

lemma order_datas_forward:
  assumes "map_of (os_clients s) cid = Some c" and "oc_requested c" and "replies_ok (oc_flushed c) xs"
    and "length (oc_flushed c) + length (flushers xs) = length (os_queues s ! oc_shard_id c)"
  shows "\<exists>s'. order_datas cid (oc_shard_id c) xs s =
      Inr (s', concat (map (\<lambda>(_, m). to_replicas s (oc_shard_id c) m False) (collect cid (oc_data c) xs)) @
               to_replicas s (oc_shard_id c) (Storage_client_finalize cid) True) \<and>
    map_of (os_clients s') cid = None"
  using assms
proof (induction xs arbitrary: c s)
  case (Cons x xs)
  obtain rid g bytes where x: "x = (rid, g, bytes)" by (cases x)
  have new: "rid \<notin> set (oc_flushed c)"
    using Cons.prems(3) x by (cases xs) auto
  show ?case
  proof (cases "g = UINT64_MAX")
    case True
    define c1 where "c1 = c\<lparr>oc_flushed := List.insert rid (oc_flushed c)\<rparr>"
    define s1 where "s1 = put_client cid c1 s"
    have len: "length (oc_flushed c1) = Suc (length (oc_flushed c))"
      using new by (simp add: c1_def)
    have step: "order_on_data (Order_client_data cid (oc_shard_id c) rid g bytes) s =
        (if length (oc_flushed c1) = length (os_queues s ! oc_shard_id c) then Inr (finalized cid c1 s1) else Inr (s1, []))"
      using Cons.prems(1,2) new True by (simp add: Let_def c1_def s1_def)
    show ?thesis
    proof (cases "xs = []")
      case end': True
      with True step len Cons.prems(2,4) x show ?thesis
        by (simp add: flushers_def finalized_def c1_def s1_def put_client_def to_replicas_def delete_conv' del: order_on_data.simps)
    next
      case False
      then have "flushers xs \<noteq> []"
        using replies_ok_flushers replies_ok_Cons Cons.prems(3) x by blast
      then have "length (oc_flushed c1) \<noteq> length (os_queues s ! oc_shard_id c)"
        using Cons.prems(4) len x True by (cases "flushers xs") (auto simp: flushers_def)
      then have run: "order_datas cid (oc_shard_id c) (x # xs) s = order_datas cid (oc_shard_id c1) xs s1"
        using step x by (auto simp: rbind_def c1_def split: sum.splits)
      have "replies_ok (oc_flushed c1) xs"
        using Cons.prems(3) False x True new by (cases xs) (auto simp: c1_def)
      with run Cons.IH [of s1 c1] Cons.prems(1,2,4) len True x show ?thesis
        by (auto simp: c1_def s1_def put_client_def update_conv' flushers_def to_replicas_def)
    qed
  next
    case False
    define c1 where "c1 = (if g \<in> fst ` set (oc_data c) then c
      else c\<lparr>oc_data := smap_update g (Storage_client_patch cid g bytes) (oc_data c)\<rparr>)"
    define s1 where "s1 = (if g \<in> fst ` set (oc_data c) then s else put_client cid c1 s)"
    have "order_on_data (Order_client_data cid (oc_shard_id c) rid g bytes) s = Inr (s1, [])"
      using Cons.prems(1,2) new False by (simp add: c1_def s1_def)
    then have run: "order_datas cid (oc_shard_id c) (x # xs) s = order_datas cid (oc_shard_id c1) xs s1"
      using x by (auto simp: rbind_def c1_def split: sum.splits)
    have "replies_ok (oc_flushed c1) xs"
      using Cons.prems(3) x False by (cases xs) (auto simp: c1_def)
    moreover have "map_of (os_clients s1) cid = Some c1" "oc_requested c1" "os_queues s1 = os_queues s"
      using Cons.prems(1,2) by (auto simp: c1_def s1_def put_client_def update_conv')
    moreover have "flushers (x # xs) = flushers xs" "collect cid (oc_data c) (x # xs) = collect cid (oc_data c1) xs"
      "oc_shard_id c1 = oc_shard_id c" "oc_flushed c1 = oc_flushed c"
      using False x by (simp_all add: flushers_def c1_def)
    moreover have "to_replicas s1 = to_replicas s"
      using \<open>os_queues s1 = os_queues s\<close> by (simp add: to_replicas_def fun_eq_iff)
    ultimately show ?thesis
      using run Cons.IH [of s1 c1] Cons.prems(4) by simp
  qed
qed simp

subsection \<open>What a replica does with a patch\<close>

text \<open>
  The handler of a patch passes the sequence number to \<open>insert\<close> as the number of slots to close. A replica
  with fewer open slots of the client than that number fails the assertion of \<open>insert\<close>; a replica that has
  nothing of the client ignores the patch, as its latest sequence number is the largest value.
\<close>

lemma patch_fails:
  assumes inv: "storage_inv s" and cid: "cid < MAX_CLIENTS" and k: "cursor (st_log s) (sc_position (client_of s cid)) k"
    and g: "sc_latest_gsn (client_of s cid) < g" "g < 2 ^ 64" "length (cidx (st_log s) cid) < k + g"
    and size: "length (cidx (st_log s) cid) < 2 ^ 64"
  shows "storage_on_patch (Storage_client_patch cid g bytes) s = Some (Inl no_entry)"
proof -
  have "p_client_id (sc_position (client_of s cid)) = cid"
    using client_inv_of [OF inv, of cid] by (simp add: client_inv_def)
  then have "position_insert (st_log s) (sc_position (client_of s cid)) bytes (length bytes) g = Inl no_entry"
    using k g size inv by (intro position_insert_fails) (auto simp: cursor_def storage_inv_def)
  with cid g(1) show ?thesis
    by (simp add: with_client_of)
qed

lemma patch_ignored:
  assumes "cid < MAX_CLIENTS" and "sc_latest_gsn (client_of s cid) = UINT64_MAX" and "g \<le> UINT64_MAX"
  shows "storage_on_patch (Storage_client_patch cid g bytes) s = Some (Inr (set_client cid (client_of s cid) s, []))"
  using assms by (simp add: with_client_of)

subsection \<open>Properties\<close>

text \<open>
  C23. When every replica of a failed client's shard has reported its cut, in any order, the ordering service decides at
  once: if the cuts it compares agree it finalizes the client on every replica and forgets it, otherwise it asks
  every replica for the data after the first cut and waits.
\<close>

theorem recovery_decides:
  assumes "map_of (os_clients s) cid = Some c" and "oc_failed c" and "\<not> oc_requested c" and "oc_cuts c = []"
    and "distinct (map fst xs)" and "xs \<noteq> []" and "length xs = length (os_queues s ! oc_shard_id c)"
  shows "\<exists>s'. order_cuts cid (oc_shard_id c) xs s =
      Inr (s', to_replicas s (oc_shard_id c)
                 (if cuts_agree (by_replica [] xs) then Storage_client_finalize cid
                  else Storage_client_cut cid (cut_min (by_replica [] xs))) False) \<and>
    map_of (os_clients s') cid =
      (if cuts_agree (by_replica [] xs) then None else Some (c\<lparr>oc_cuts := by_replica [] xs, oc_requested := True\<rparr>))"
  using order_cuts_decision [of s cid c xs] assms by auto

text \<open>A failed client with three replicas.\<close>

definition example_failed :: order_state where
  "example_failed = order_init\<lparr>os_queues := [[0, 1, 2]], os_clients := [(5, (client_state_new 0 100)\<lparr>oc_failed := True\<rparr>)]\<rparr>"

lemma example_failed_client:
  "map_of (os_clients example_failed) 5 = Some ((client_state_new 0 100)\<lparr>oc_failed := True\<rparr>)" "os_queues example_failed = [[0, 1, 2]]"
  by (simp_all add: example_failed_def)

theorem recovery_decides_witness:
  "\<exists>s'. order_cuts 5 0 [(2, 8), (0, 7), (1, 8)] example_failed =
     Inr (s', to_replicas example_failed 0 (Storage_client_cut 5 7) False)"
proof -
  have "by_replica [] [(2, 8), (0, 7), (1, 8)] = [(0, 7), (1, 8), (2, 8)]" by simp
  moreover have "cut_min [(0, 7), (1, 8), (2, 8)] = 7" "\<not> cuts_agree [(0, 7), (1, 8), (2, 8)]"
    by (simp_all add: cuts_agree_def cut_min_def cut_max_def UINT64_MAX_def)
  ultimately show ?thesis
    using recovery_decides [OF example_failed_client(1), of "[(2, 8), (0, 7), (1, 8)]"]
    by (auto simp: client_state_new_def example_failed_client(2) simp del: order_cuts.simps)
qed

text \<open>
  C24. Once the data of a failed client has been requested and every replica has flushed, the ordering service sends
  every replica one patch for each sequence number it got data for, in ascending order and with the first data
  it got for it, and then finalizes the client: nothing that any replica reported is lost.
\<close>

theorem recovery_forwards:
  assumes "map_of (os_clients s) cid = Some c" and "oc_requested c" and "oc_flushed c = []" and "oc_data c = []"
    and "replies_ok [] xs" and "length (flushers xs) = length (os_queues s ! oc_shard_id c)"
  shows "\<exists>s' ps. order_datas cid (oc_shard_id c) xs s =
      Inr (s', concat (map (\<lambda>(_, m). to_replicas s (oc_shard_id c) m False) ps) @
               to_replicas s (oc_shard_id c) (Storage_client_finalize cid) True) \<and>
    map_of (os_clients s') cid = None \<and> ps = collect cid [] xs \<and> sorted (map fst ps) \<and> distinct (map fst ps) \<and>
    fst ` set ps = {g. g \<noteq> UINT64_MAX \<and> (\<exists>rid bytes. (rid, g, bytes) \<in> set xs)}"
  using order_datas_forward [of s cid c xs] assms collect_sorted [of "[]" cid xs] collect_keys [of cid "[]" xs] by auto

theorem recovery_forwards_witness:
  "\<exists>s'. order_datas 5 0 [(1, 8, [42]), (0, UINT64_MAX, []), (2, 8, [42]), (1, UINT64_MAX, []), (2, UINT64_MAX, [])]
      (put_client 5 ((client_state_new 0 100)\<lparr>oc_failed := True, oc_requested := True\<rparr>) example_failed) =
     Inr (s', to_replicas example_failed 0 (Storage_client_patch 5 8 [42]) False @
              to_replicas example_failed 0 (Storage_client_finalize 5) True)"
proof -
  let ?xs = "[(1, 8, [42]), (0, UINT64_MAX, []), (2, 8, [42]), (1, UINT64_MAX, []), (2, UINT64_MAX, [])]"
  let ?c = "(client_state_new 0 100)\<lparr>oc_failed := True, oc_requested := True\<rparr>"
  have "map_of (os_clients (put_client 5 ?c example_failed)) 5 = Some ?c"
    by (simp add: put_client_def update_conv')
  moreover have "8 \<noteq> UINT64_MAX"
    by (simp add: UINT64_MAX_def)
  moreover have "os_queues (put_client 5 ?c example_failed) = [[0, 1, 2]]"
    by (simp add: put_client_def example_failed_client)
  ultimately show ?thesis
    using recovery_forwards [of "put_client 5 ?c example_failed" 5 ?c ?xs]
    by (auto simp: flushers_def client_state_new_def simp del: order_datas.simps)
qed

text \<open>
  C35. The two cuts that are compared are those of the replicas with the smallest and the largest number, not the
  smallest and the largest cut: when these two are equal the client is finalized without any exchange of data,
  even if a replica in between has reported another cut.
\<close>

theorem inner_cuts_ignored:
  assumes "map_of (os_clients s) cid = Some c" and "oc_failed c" and "\<not> oc_requested c" and "oc_cuts c = []"
    and "distinct (map fst xs)" and "length xs = length (os_queues s ! oc_shard_id c)"
    and "(lo, g) \<in> set xs" and "(hi, g) \<in> set xs" and "\<forall>r \<in> fst ` set xs. lo \<le> r \<and> r \<le> hi"
  shows "\<exists>s'. order_cuts cid (oc_shard_id c) xs s =
      Inr (s', to_replicas s (oc_shard_id c) (Storage_client_finalize cid) False) \<and> map_of (os_clients s') cid = None"
proof -
  let ?cs = "by_replica [] xs"
  have "map_of ?cs = map_of xs"
    using map_of_by_replica [of "[]" xs] assms(5) by simp
  moreover have cs: "sorted (map fst ?cs)" "distinct (map fst ?cs)" "fst ` set ?cs = fst ` set xs"
    using by_replica_sorted [of "[]" xs] by_replica_keys [of "[]" xs] by simp_all
  ultimately have "(lo, g) \<in> set ?cs" "(hi, g) \<in> set ?cs"
    using assms(5,7,8) by (metis map_of_eq_Some_iff)+
  with cs assms(9) have "cuts_agree ?cs"
    by (intro outer_cuts_agree [of _ lo g hi]) auto
  then show ?thesis
    using order_cuts_decision [of s cid c xs] assms(1-7) by (cases xs) auto
qed

theorem inner_cuts_ignored_witness:
  "\<exists>s'. order_cuts 5 0 [(0, 7), (1, 12), (2, 7)] example_failed =
     Inr (s', to_replicas example_failed 0 (Storage_client_finalize 5) False)"
  using inner_cuts_ignored [OF example_failed_client(1), of "[(0, 7), (1, 12), (2, 7)]" 0 7 2]
  by (auto simp: client_state_new_def example_failed_client(2) simp del: order_cuts.simps)

text \<open>
  C36. A patch with data that a replica does not have yet, that is with a sequence number beyond the latest one of the client at
  this replica, ends the replica if the number is larger than the number of slots that are left for the client: the handler passes
  the sequence number as the number of slots to close. A patch with data that the replica has changes nothing in its log.
\<close>

theorem patch_ends_replica:
  assumes "storage_inv s" and "cid < MAX_CLIENTS" and "g < 2 ^ 64"
    and "length (abs_owned cid (abs_of (st_log s))) < length (al_stream (abs_of (st_log s)) cid) + g"
    and "length (abs_owned cid (abs_of (st_log s))) < 2 ^ 64"
  shows "if sc_latest_gsn (client_of s cid) < g
    then storage_on_patch (Storage_client_patch cid g bytes) s = Some (Inl no_entry)
    else \<exists>s'. storage_on_patch (Storage_client_patch cid g bytes) s = Some (Inr (s', [])) \<and> st_log s' = st_log s"
proof (cases "sc_latest_gsn (client_of s cid) < g")
  case False
  with assms(2) show ?thesis
    by (simp add: with_client_of frame_simps)
next
  case True
  obtain k where k: "cursor (st_log s) (sc_position (client_of s cid)) k" and id: "p_client_id (sc_position (client_of s cid)) = cid"
    using obtain_cursor [OF assms(1)] .
  have len: "length (abs_owned cid (abs_of (st_log s))) = length (cidx (st_log s) cid)" "length (al_stream (abs_of (st_log s)) cid) = k"
    using cursor_stream_length [OF k] id by (simp_all add: abs_owned_cidx) (simp add: abs_of_def)
  show ?thesis
    using patch_fails [OF assms(1,2) k True assms(3)] assms(4,5) True unfolding len by simp
qed

lemma insert_latest_gsn:
  "storage_on_insert (Storage_insert cid n bytes) s = Some (Inr (s', [Send d (Client_insert_ack r g) q sy])) \<Longrightarrow>
     cid < MAX_CLIENTS \<Longrightarrow> sc_latest_gsn (client_of s' cid) = g"
  by (auto simp: with_connected_of rbind_eq_Inr set_client_def client_of_def split: if_splits)

theorem patch_ends_replica_witness:
  "\<exists>l s. add_entries 7 [\<lparr>as_client_id = 0, as_num_slots = 2\<rparr>] log_init = Inr l \<and>
    storage_on_insert (Storage_insert 0 1 [42]) (example_server 0 l) =
      Some (Inr (s, [Send (To_client 0) (Client_insert_ack 0 7) 0 False])) \<and>
    abs_owned 0 (abs_of (st_log s)) = [7, 8] \<and>
    storage_on_patch (Storage_client_patch 0 8 [1]) s = Some (Inl no_entry)"
proof -
  obtain l where l: "add_entries 7 [\<lparr>as_client_id = 0, as_num_slots = 2\<rparr>] log_init = Inr l" "log_inv l" "log_extends log_init l"
      "abs_of l = \<lparr>al_slots = [(0, 7), (0, 8)], al_stream = \<lambda>_. []\<rparr>" "unset_empty l"
    by (rule example_laid [of 7]) simp_all
  obtain s where s: "storage_on_insert (Storage_insert 0 1 [42]) (example_server 0 l) =
      Some (Inr (s, [Send (To_client 0) (Client_insert_ack 0 7) 0 False]))"
    and inv: "storage_inv s" and abs: "abs_of (st_log s) = abs_insert 0 1 [42] (abs_of l)"
    by (rule insert_refines [OF example_server_inv [OF l(2,3), of 0], of 0 1 "[42]"])
      (auto simp: example_server_client l(4,5) abs_owned_def MAX_CLIENTS_value simp del: storage_on_insert.simps)
  have "sc_latest_gsn (client_of s 0) = 7"
    using insert_latest_gsn [OF s] by (simp add: MAX_CLIENTS_value)
  moreover have "abs_owned 0 (abs_of (st_log s)) = [7, 8]" "al_stream (abs_of (st_log s)) 0 = [[42]]"
    by (simp_all add: abs l(4) abs_insert_def abs_owned_def)
  ultimately show ?thesis
    using patch_ends_replica [OF inv, of 0 8 "[1]"] s l(1)
    by (simp add: MAX_CLIENTS_value del: storage_on_insert.simps storage_on_patch.simps)
qed

end
