(* ===== verification/Quorum.thy ===== *)
theory Quorum
  imports Main
begin

text \<open>
  Counting how many replicas have passed a point of a common sequence. The replicas of a shard produce
  the same sequence, each in order and at its own pace; a polling thread of a subscriber and the loop of a
  client both act on an element once more than \<open>f\<close> replicas have produced it, so both rest on these
  facts. \<open>sent r\<close> is the number of elements replica \<open>r\<close> has produced.
\<close>

definition ackers :: "'r set \<Rightarrow> ('r \<Rightarrow> nat) \<Rightarrow> nat \<Rightarrow> nat" where
  "ackers R sent i = card {r \<in> R. i < sent r}"

text \<open>The elements below \<open>d\<close> are exactly those with enough replicas.\<close>

definition quorum_at :: "nat \<Rightarrow> nat \<Rightarrow> 'r set \<Rightarrow> ('r \<Rightarrow> nat) \<Rightarrow> nat \<Rightarrow> bool" where
  "quorum_at f n R sent d \<longleftrightarrow> d \<le> n \<and> (\<forall>i < n. f < ackers R sent i \<longleftrightarrow> i < d)"

lemma ackers_mono: "finite R \<Longrightarrow> i \<le> j \<Longrightarrow> ackers R sent j \<le> ackers R sent i"
  unfolding ackers_def by (rule card_mono) auto

lemma ackers_0 [simp]: "ackers R (\<lambda>_. 0) i = 0"
  by (simp add: ackers_def)

lemma ackers_step:
  assumes "finite R" and "r \<in> R"
  shows "ackers R (sent(r := Suc (sent r))) i = ackers R sent i + (if i = sent r then 1 else 0)"
proof (cases "i = sent r")
  case True
  then have "{x \<in> R. i < (sent(r := Suc (sent r))) x} = insert r {x \<in> R. i < sent x}"
    using assms(2) by auto
  with True assms(1) show ?thesis
    by (simp add: ackers_def)
next
  case False
  then have "{x \<in> R. i < (sent(r := Suc (sent r))) x} = {x \<in> R. i < sent x}"
    by auto
  with False show ?thesis
    by (simp add: ackers_def)
qed

lemma quorum_init [simp]: "quorum_at f n R (\<lambda>_. 0) 0"
  by (simp add: quorum_at_def)

text \<open>A further copy of an element that has enough already changes nothing.\<close>

lemma quorum_old:
  assumes "quorum_at f n R sent d" and "finite R" and "r \<in> R" and "sent r < d"
  shows "quorum_at f n R (sent(r := Suc (sent r))) d"
  using assms by (auto simp: quorum_at_def ackers_step intro: less_SucI)

text \<open>Neither does one of an element that still lacks some.\<close>

lemma quorum_short:
  assumes "quorum_at f n R sent d" and "finite R" and "r \<in> R" and "d \<le> sent r" and "Suc (ackers R sent (sent r)) \<le> f"
  shows "quorum_at f n R (sent(r := Suc (sent r))) d"
  using assms by (auto simp: quorum_at_def ackers_step)

text \<open>The copy that makes enough is of the first element that had not enough: later ones have at most as many.\<close>

lemma quorum_reached:
  assumes q: "quorum_at f n R sent d" and R: "finite R" "r \<in> R" and r: "d \<le> sent r" "sent r < n"
    and a: "f < Suc (ackers R sent (sent r))"
  shows "sent r = d \<and> ackers R sent d = f \<and> quorum_at f n R (sent(r := Suc (sent r))) (Suc d)"
proof -
  have at: "sent r = d"
  proof (rule ccontr)
    assume "sent r \<noteq> d"
    with r have "d < sent r" by simp
    then have "ackers R (sent(r := Suc (sent r))) (sent r) \<le> ackers R (sent(r := Suc (sent r))) d"
      by (intro ackers_mono R) simp
    then have "f < ackers R sent d"
      using \<open>d < sent r\<close> a by (simp add: ackers_step R)
    then show False
      using q \<open>d < sent r\<close> r by (simp add: quorum_at_def)
  qed
  moreover have "\<not> f < ackers R sent d"
    using q r at by (simp add: quorum_at_def)
  moreover have "f < ackers R sent i + (if i = d then 1 else 0) \<longleftrightarrow> i < Suc d" if "i < n" for i
    using q a at that unfolding quorum_at_def by (cases "i = d") auto
  ultimately show ?thesis
    using r a ackers_step [OF R, of sent] by (simp add: quorum_at_def)
qed

lemma quorum_missing: "quorum_at f n R sent d \<Longrightarrow> d \<le> i \<Longrightarrow> i < n \<Longrightarrow> ackers R sent i \<le> f"
  unfolding quorum_at_def by (metis leD leI)

text \<open>The elements known so far may grow, as long as no replica has produced the new ones.\<close>

lemma quorum_grow:
  assumes "quorum_at f n R sent d" and "\<forall>r \<in> R. sent r \<le> n" and "n \<le> m"
  shows "quorum_at f m R sent d"
proof -
  have "ackers R sent i = 0" if "n \<le> i" for i
  proof -
    have none: "{r \<in> R. i < sent r} = {}"
      using assms(2) that by fastforce
    show ?thesis by (simp add: ackers_def none)
  qed
  then show ?thesis
    using assms unfolding quorum_at_def by (metis le_trans not_less not_less0)
qed

end
