(* ===== verification/Client.thy ===== *)
theory Client
  imports Complex_Main Messaging Zip_Util Zip_Concurrent Quorum
begin

text \<open>
  A client of the log, \<open>src/client/client.h\<close> and \<open>src/client/client.cpp\<close>: the constructors, \<open>insert\<close>, and
  the iterations of the loop that paces the requests over the slots of the epochs, estimates the rate and
  collects the acknowledgements.
\<close>

subsection \<open>Data\<close>

text \<open>
  A \<open>double\<close> is a rational number; the argument \<open>rnd\<close> of the operations is the rounding of the machine,
  applied after each arithmetic operation. An epoch with slots is never empty, so the quotient below is
  never a NaN.
\<close>

record pid =
  pid_target :: rat
  pid_proportional :: rat
  pid_integral :: rat
  pid_detivative :: rat

record client_epoch =
  ep_begin :: time_point
  ep_first :: u64
  ep_last :: u64

definition FIRST_EPOCH :: client_epoch where
  "FIRST_EPOCH = \<lparr>ep_begin = - (2 ^ 63), ep_first = 0, ep_last = 0\<rparr>"

text \<open>The location of a response is an address; a null pointer is \<open>None\<close>.\<close>

record outstanding =
  out_response :: "nat option"
  out_gsn :: u64
  out_num_acks :: u64

text \<open>
  The members of the class and the local variables of \<open>loop\<close>. The map of send queues is the list of its
  keys, the responses are the memory the pointers \<open>response\<close> lead to, a request is its payload and the
  address of its response.
\<close>

record client =
  cl_client_id :: u64
  cl_shard_id :: u64
  cl_failures :: u64
  cl_estimate :: bool
  cl_pid :: pid
  cl_requests :: "(byte list \<times> nat) queue"
  cl_responses :: "nat \<Rightarrow> u64"
  cl_latest_gsn :: u64
  cl_client_queues :: u64
  cl_destination :: u64
  cl_queues :: "u64 list"
  cl_stopped :: bool
  cl_end :: bool
  cl_consumed :: u64
  cl_assigned :: u64
  cl_current :: client_epoch
  cl_epochs :: "client_epoch list"
  cl_current_rate :: rat
  cl_epoch_requests :: rat
  cl_last_error :: rat
  cl_total_error :: rat
  cl_requested :: u64
  cl_outstanding :: "outstanding list"

subsection \<open>Constructors\<close>

text \<open>\<open>rate * EPOCH_DURATION / std::chrono::seconds(1)\<close> is computed in milliseconds.\<close>

definition rate_slots :: "u64 \<Rightarrow> u64" where
  "rate_slots rate = align MIN_SLOTS (max 1 (u64_mul rate 5 div 1000))"

definition client_init :: "u64 \<Rightarrow> u64 \<Rightarrow> u64 \<Rightarrow> bool \<Rightarrow> pid \<Rightarrow> client" where
  "client_init client_id shard_id failures estimate pid =
     \<lparr>cl_client_id = client_id, cl_shard_id = shard_id, cl_failures = failures, cl_estimate = estimate, cl_pid = pid,
      cl_requests = queue_init, cl_responses = (\<lambda>_. 0), cl_latest_gsn = UINT64_MAX,
      cl_client_queues = 0, cl_destination = 0, cl_queues = [], cl_stopped = False, cl_end = False,
      cl_consumed = 0, cl_assigned = 0, cl_current = FIRST_EPOCH, cl_epochs = [],
      cl_current_rate = of_nat MIN_SLOTS, cl_epoch_requests = 0, cl_last_error = 0, cl_total_error = 0,
      cl_requested = MIN_SLOTS, cl_outstanding = []\<rparr>"

text \<open>\<open>initialize_client\<close>: the answer of the ordering service, its message and the length received.\<close>

definition initialize_client :: "(message \<times> nat) option \<Rightarrow> client \<Rightarrow> client res" where
  "initialize_client connection c =
     rbind (check_order_intro ''failed to connect to the ordering service'' connection) (\<lambda>_. Inr c)"

text \<open>The intro message and the client, for a fixed rate and for rate estimation.\<close>

definition client_new_rate ::
  "(message \<times> nat) option \<Rightarrow> u64 \<Rightarrow> u64 \<Rightarrow> u64 \<Rightarrow> u64 \<Rightarrow> pid \<Rightarrow> (message \<times> client) res" where
  "client_new_rate connection client_id shard_id rate failures pid =
     (if \<not> client_id < MAX_CLIENTS then Inl (Assert_failed ''invalid client ID'')
      else if \<not> shard_id < NUM_SHARDS then Inl (Assert_failed ''invalid shard ID'')
      else rbind (initialize_client connection (client_init client_id shard_id failures False pid))
             (\<lambda>c. Inr (Client_intro client_id shard_id (rate_slots rate), c)))"

definition client_new_pid ::
  "(message \<times> nat) option \<Rightarrow> u64 \<Rightarrow> u64 \<Rightarrow> pid \<Rightarrow> u64 \<Rightarrow> (message \<times> client) res" where
  "client_new_pid connection client_id shard_id pid failures =
     (if \<not> client_id < MAX_CLIENTS then Inl (Assert_failed ''invalid client ID'')
      else if \<not> shard_id < NUM_SHARDS then Inl (Assert_failed ''invalid shard ID'')
      else rbind (initialize_client connection (client_init client_id shard_id failures True pid))
             (\<lambda>c. Inr (Client_intro client_id shard_id MIN_SLOTS, c)))"

subsection \<open>Requests of the application\<close>

definition client_insert :: "byte list \<Rightarrow> nat \<Rightarrow> client \<Rightarrow> client res" where
  "client_insert data response c =
     (if \<not> length data \<le> MAX_PAYLOAD then Inl (Assert_failed ''payload is too large'')
      else Inr (c\<lparr>cl_responses := (cl_responses c)(response := UINT64_MAX),
                  cl_requests := enqueue (data, response) (cl_requests c)\<rparr>))"

subsection \<open>The loop\<close>

definition to_servers :: "client \<Rightarrow> message \<Rightarrow> send list" where
  "to_servers c m = map (\<lambda>rid. Send (To_storage (cl_shard_id c) rid) m (cl_destination c) False) (cl_queues c)"

definition client_stop :: "bool \<Rightarrow> client \<Rightarrow> client \<times> send list" where
  "client_stop stop c =
     (if \<not> cl_stopped c \<and> stop
      then (c\<lparr>cl_stopped := True\<rparr>, to_servers c (Client_finished (cl_client_id c)))
      else (c, []))"

text \<open>
  One step of the rate estimation, for an epoch that has slots: the ordering service never assigns none, and without
  any the quotient below would not be a number. \<open>std::round<unsigned long>\<close> converts its argument to an integer
  first, which rounds towards zero.
\<close>

definition quantize :: "(rat \<Rightarrow> rat) \<Rightarrow> rat \<Rightarrow> u64" where
  "quantize rnd rate = nat \<lfloor>rnd (of_nat MIN_SLOTS * of_int \<lfloor>rnd (rate / of_nat MIN_SLOTS)\<rfloor>)\<rfloor>"

definition estimate_rate :: "(rat \<Rightarrow> rat) \<Rightarrow> client \<Rightarrow> client \<times> send list" where
  "estimate_rate rnd c =
     (let p = cl_pid c;
          fraction_used = rnd (cl_epoch_requests c / rnd (of_nat (u64_sub (ep_last (cl_current c)) (ep_first (cl_current c)))));
          error = rnd (fraction_used - pid_target p);
          change = rnd (rnd (rnd (pid_proportional p * error) + rnd (pid_integral p * cl_total_error c))
                        + rnd (pid_detivative p * rnd (cl_last_error c - error)));
          rate = max (of_nat MIN_SLOTS) (rnd (cl_current_rate c + change));
          c1 = c\<lparr>cl_current_rate := rate, cl_total_error := rnd (cl_total_error c + error), cl_last_error := error\<rparr>;
          quantized = quantize rnd rate
      in if quantized \<noteq> cl_requested c
         then (c1\<lparr>cl_requested := quantized\<rparr>, [Send To_order (Order_client_rate (cl_client_id c) quantized) 0 False])
         else (c1, []))"

definition client_switch_epoch :: "(rat \<Rightarrow> rat) \<Rightarrow> time_point \<Rightarrow> client \<Rightarrow> client \<times> send list" where
  "client_switch_epoch rnd now c =
     (case cl_epochs c of
        [] \<Rightarrow> (c, [])
      | e # es \<Rightarrow>
          if ep_begin e \<le> now
          then (let (c1, out) = (if cl_estimate c \<and> ep_begin (cl_current c) \<noteq> ep_begin FIRST_EPOCH
                                 then estimate_rate rnd c else (c, []))
                in (c1\<lparr>cl_current := e, cl_epochs := es, cl_epoch_requests := 0\<rparr>, out))
          else (c, []))"

text \<open>
  \<open>time_in_us\<close> of \<open>src/util/util.h\<close> truncates a duration to microseconds and converts the count to an
  unsigned number. The position the client should have reached at the time \<open>now\<close> of an epoch:
\<close>

definition time_in_us :: "int \<Rightarrow> u64" where
  "time_in_us d = nat ((sgn d * (\<bar>d\<bar> div 1000)) mod 2 ^ 64)"

definition ideal :: "time_point \<Rightarrow> client_epoch \<Rightarrow> u64" where
  "ideal now e =
     u64_add (ep_first e)
       (u64_mul (u64_sub (ep_last e) (ep_first e)) (time_in_us (s64 (now - ep_begin e))) div time_in_us EPOCH_DURATION)"

definition send_allowed :: "time_point \<Rightarrow> client \<Rightarrow> bool" where
  "send_allowed now c \<longleftrightarrow>
     \<not> cl_stopped c \<and> cl_consumed c < ideal now (cl_current c) \<and> length (cl_queues c) > cl_failures c \<and>
     length (cl_outstanding c) \<le> MAX_OUTSTANDING_REQUESTS \<and> s64 (now - ep_begin (cl_current c)) \<le> EPOCH_DURATION"

definition client_send :: "time_point \<Rightarrow> client \<Rightarrow> client \<times> send list" where
  "client_send now c =
     (if send_allowed now c
      then (let advanced = u64_sub (ideal now (cl_current c)) (cl_consumed c); (request, q) = dequeue (cl_requests c)
            in case request of
                 Some (data, response) \<Rightarrow>
                   (c\<lparr>cl_requests := q,
                      cl_outstanding := cl_outstanding c @ [\<lparr>out_response = Some response, out_gsn = UINT64_MAX, out_num_acks = 0\<rparr>],
                      cl_consumed := u64_add (cl_consumed c) advanced,
                      cl_epoch_requests := cl_epoch_requests c + 1\<rparr>,
                    to_servers c (Storage_insert (cl_client_id c) advanced data))
               | None \<Rightarrow>
                   if cl_outstanding c = []
                   then (c\<lparr>cl_requests := q,
                           cl_outstanding := [\<lparr>out_response = None, out_gsn = UINT64_MAX, out_num_acks = 0\<rparr>],
                           cl_consumed := u64_add (cl_consumed c) advanced\<rparr>,
                         to_servers c (Storage_insert (cl_client_id c) advanced []))
                   else (c\<lparr>cl_requests := q\<rparr>, []))
      else (c, []))"

subsection \<open>Handlers\<close>

text \<open>The first outstanding request without a sequence number or with the one of the acknowledgement.\<close>

fun find_outstanding :: "u64 \<Rightarrow> outstanding list \<Rightarrow> (outstanding list \<times> outstanding \<times> outstanding list) option" where
  "find_outstanding gsn [] = None"
| "find_outstanding gsn (x # xs) =
     (if out_gsn x = UINT64_MAX \<or> gsn = out_gsn x then Some ([], x, xs)
      else map_option (\<lambda>(ys, y, zs). (x # ys, y, zs)) (find_outstanding gsn xs))"

definition on_insert_ack :: "u64 \<Rightarrow> client \<Rightarrow> client" where
  "on_insert_ack gsn c =
     (if cl_latest_gsn c \<noteq> UINT64_MAX \<and> gsn \<le> cl_latest_gsn c then c
      else case find_outstanding gsn (cl_outstanding c) of
             None \<Rightarrow> c
           | Some (ys, x, zs) \<Rightarrow>
               (let gsn' = (if out_gsn x = UINT64_MAX then gsn else out_gsn x);
                    x' = x\<lparr>out_gsn := gsn', out_num_acks := u64_add (out_num_acks x) 1\<rparr>
                in if out_num_acks x' > cl_failures c
                   then c\<lparr>cl_responses := (case out_response x of None \<Rightarrow> cl_responses c
                                           | Some a \<Rightarrow> (cl_responses c)(a := gsn')),
                          cl_latest_gsn := gsn', cl_outstanding := ys @ zs\<rparr>
                   else c\<lparr>cl_outstanding := ys @ x' # zs\<rparr>))"

definition on_new_epoch :: "time_point \<Rightarrow> u64 \<Rightarrow> client \<Rightarrow> client" where
  "on_new_epoch begin num_slots c =
     (let last = u64_add (cl_assigned c) num_slots
      in c\<lparr>cl_assigned := last,
           cl_epochs := cl_epochs c @ [\<lparr>ep_begin = begin, ep_first = cl_assigned c, ep_last = last\<rparr>]\<rparr>)"

definition client_on_storage_finished :: "u64 \<Rightarrow> u64 \<Rightarrow> client \<Rightarrow> client \<times> send list" where
  "client_on_storage_finished shard_id replica_id c =
     (if shard_id \<noteq> cl_shard_id c \<or> replica_id \<notin> set (cl_queues c) then (c, [])
      else (let c1 = c\<lparr>cl_queues := removeAll replica_id (cl_queues c)\<rparr>
            in (c1, if cl_queues c1 = [] then [Send To_order (Client_finished (cl_client_id c)) 0 False] else [])))"

text \<open>The connection to one storage server: its first message and the length received.\<close>

definition client_add_server :: "(message \<times> nat) option \<Rightarrow> client \<Rightarrow> client res" where
  "client_add_server connection c =
     (case connection of
        Some (Storage_intro shard_id replica_id client_queues port, len) \<Rightarrow>
          if len \<noteq> sizeof_storage_intro \<or> shard_id \<noteq> cl_shard_id c \<or> replica_id \<in> set (cl_queues c)
             \<or> \<not> (cl_queues c = [] \<or> cl_client_queues c = client_queues)
          then Inr c
          else if cl_queues c = [] \<and> client_queues = 0 then Inl Div_by_zero
          else (let c1 = (if cl_queues c = []
                          then c\<lparr>cl_client_queues := client_queues,
                                 cl_destination := 1 + (cl_client_id c div NUM_SHARDS) mod client_queues\<rparr>
                          else c)
                in Inr (c1\<lparr>cl_queues := cl_queues c1 @ [replica_id]\<rparr>))
      | _ \<Rightarrow> Inr c)"

fun client_on_storage_info :: "(message \<times> nat) option list \<Rightarrow> client \<Rightarrow> client res" where
  "client_on_storage_info [] c = Inr c"
| "client_on_storage_info (x # xs) c = rbind (client_add_server x c) (client_on_storage_info xs)"

text \<open>The handlers of a packet; the connections that a list of servers leads to are given with it.\<close>

definition loop_handlers :: "(message \<times> nat) option list \<Rightarrow> (message_types \<times> client handler) list" where
  "loop_handlers connections =
     [(CLIENT_INSERT_ACK, \<lambda>m c. Inr (on_insert_ack (ack_gsn m) c, [])),
      (CLIENT_NEW_EPOCH, \<lambda>m c. Inr (on_new_epoch (ne_begin m) (ne_num_slots m) c, [])),
      (STORAGE_FINISHED, \<lambda>m c. Inr (client_on_storage_finished (sf_shard_id m) (sf_replica_id m) c)),
      (ORDER_FINISHED, \<lambda>m c. Inr (c\<lparr>cl_end := True\<rparr>, [])),
      (CLIENT_STORAGE_INFO, \<lambda>m c. rbind (client_on_storage_info connections c) (\<lambda>c'. Inr (c', []))),
      (CLIENT_HEARTBEAT, \<lambda>m c. Inr (c, []))]"

text \<open>
  \<open>recv_apply\<close> polls the receive queue once and applies the handlers to every packet it finds, one after the other: at
  most \<open>RECEIVE_BATCH_SIZE\<close> of them, a bound that nothing below depends on. A packet is a message with the length received.
\<close>

type_synonym packet = "(message \<times> nat) \<times> (message \<times> nat) option list"

fun recv_packets :: "packet list \<Rightarrow> client \<Rightarrow> (client \<times> send list) res" where
  "recv_packets [] c = Inr (c, [])"
| "recv_packets (((m, len), connections) # ps) c =
     rbind (run_handler (loop_handlers connections) m len c) (\<lambda>(c1, out1).
     rbind (recv_packets ps c1) (\<lambda>(c2, out2). Inr (c2, out1 @ out2)))"

text \<open>One iteration, with what the loop reads from outside: the flag, the clock and the receive queue.\<close>

definition client_iteration ::
  "(rat \<Rightarrow> rat) \<Rightarrow> bool \<Rightarrow> time_point \<Rightarrow> packet list \<Rightarrow> client \<Rightarrow> (client \<times> send list) res" where
  "client_iteration rnd stop now packets c =
     (let (c1, out1) = client_stop stop c; (c2, out2) = client_switch_epoch rnd now c1; (c3, out3) = client_send now c2
      in rbind (recv_packets packets c3) (\<lambda>(c4, out4). Inr (c4, out1 @ out2 @ out3 @ out4)))"

text \<open>
  The loop itself, for what it reads in its iterations: it is left when \<open>force_stop_\<close> is set, which \<open>stop\<close> does to provoke a
  failure, or after the ordering service has said good-bye. The result says whether it has been left.
\<close>

record client_turn =
  tn_force_stop :: bool
  tn_stop :: bool
  tn_now :: time_point
  tn_packets :: "packet list"

fun client_loop :: "(rat \<Rightarrow> rat) \<Rightarrow> client_turn list \<Rightarrow> client \<Rightarrow> (bool \<times> client \<times> send list) res" where
  "client_loop rnd [] c = Inr (cl_end c, c, [])"
| "client_loop rnd (w # ws) c =
     (if tn_force_stop w \<or> cl_end c then Inr (True, c, [])
      else rbind (client_iteration rnd (tn_stop w) (tn_now w) (tn_packets w) c) (\<lambda>(c1, out1).
           rbind (client_loop rnd ws c1) (\<lambda>(left, c2, out2). Inr (left, c2, out1 @ out2))))"

end
