(* ===== verification/Client_Facts.thy ===== *)
theory Client_Facts
  imports Client
begin

text \<open>
  The client never uses more slots than the ordering service assigned to it, in any interleaving of its
  loop with the messages it receives; each storage server is told the same; the rate it asks for is a
  positive multiple of the minimum; and a response is the sequence number that more replicas than may fail
  have acknowledged.
\<close>

subsection \<open>Where the client should be\<close>

lemma time_in_us_nonneg: "0 \<le> d \<Longrightarrow> d < 2 ^ 63 \<Longrightarrow> time_in_us d = nat (d div 1000)"
proof -
  assume d: "0 \<le> d" "d < 2 ^ 63"
  have "d div 1000 \<le> d"
    using d by linarith
  with d have "(d div 1000) mod 2 ^ 64 = d div 1000"
    by (intro mod_pos_pos_trivial) auto
  with d show ?thesis
    by (cases "d = 0") (simp_all add: time_in_us_def)
qed

lemma time_in_us_epoch: "time_in_us EPOCH_DURATION = 5000"
  by (simp add: time_in_us_nonneg EPOCH_DURATION_def)

definition epoch_fits :: "client_epoch \<Rightarrow> bool" where
  "epoch_fits e \<longleftrightarrow> ep_first e \<le> ep_last e \<and> ep_last e < 2 ^ 64 \<and> (ep_last e - ep_first e) * 5000 < 2 ^ 64"

lemma ideal_eq:
  assumes e: "epoch_fits e" and t: "ep_begin e \<le> now" "now - ep_begin e \<le> EPOCH_DURATION"
  shows "ideal now e = ep_first e + (ep_last e - ep_first e) * nat ((now - ep_begin e) div 1000) div 5000"
    and "ep_first e \<le> ideal now e" and "ideal now e \<le> ep_last e"
proof -
  let ?n = "ep_last e - ep_first e" and ?t = "nat ((now - ep_begin e) div 1000)"
  have "(now - ep_begin e) div 1000 \<le> EPOCH_DURATION div 1000"
    using t by (intro zdiv_mono1) auto
  then have t5: "?t \<le> 5000"
    by (simp add: EPOCH_DURATION_def)
  have le: "?n * ?t \<le> ?n * 5000"
    using t5 by (rule mult_le_mono2)
  then have small: "?n * ?t < 2 ^ 64"
    using e unfolding epoch_fits_def by linarith
  have q: "?n * ?t div 5000 \<le> ?n"
    using div_le_mono [OF le, of 5000] by simp
  have sum: "ep_first e + ?n * ?t div 5000 < 2 ^ 64"
    using q e unfolding epoch_fits_def by linarith
  have d: "now - ep_begin e < 2 ^ 63" "0 \<le> now - ep_begin e"
    using t by (auto simp: EPOCH_DURATION_def)
  show eq: "ideal now e = ep_first e + ?n * ?t div 5000"
    using e d small sum unfolding ideal_def time_in_us_epoch epoch_fits_def
    by (simp add: s64_small time_in_us_nonneg u64_sub_small u64_mul_small u64_add_small)
  show "ep_first e \<le> ideal now e"
    by (simp add: eq)
  show "ideal now e \<le> ep_last e"
    using q e unfolding eq epoch_fits_def by linarith
qed

lemma ideal_end:
  assumes "epoch_fits e"
  shows "ideal (ep_begin e + EPOCH_DURATION) e = ep_last e"
  using ideal_eq(1) [OF assms, of "ep_begin e + EPOCH_DURATION"] assms
  by (simp add: EPOCH_DURATION_def epoch_fits_def)

lemma ideal_first: "ideal now FIRST_EPOCH = 0"
  by (simp add: ideal_def FIRST_EPOCH_def u64_sub_def u64_mul_def u64_add_def)

subsection \<open>Pacing\<close>

text \<open>The announced epochs follow each other without a gap, from slot \<open>x\<close> to slot \<open>y\<close>.\<close>

fun epoch_chain :: "u64 \<Rightarrow> client_epoch list \<Rightarrow> u64 \<Rightarrow> bool" where
  "epoch_chain x [] y \<longleftrightarrow> x = y"
| "epoch_chain x (e # es) y \<longleftrightarrow> ep_first e = x \<and> epoch_fits e \<and> 0 \<le> ep_begin e \<and> epoch_chain (ep_last e) es y"

definition pacing_inv :: "client \<Rightarrow> bool" where
  "pacing_inv c \<longleftrightarrow>
     epoch_chain (ep_last (cl_current c)) (cl_epochs c) (cl_assigned c) \<and>
     (cl_current c = FIRST_EPOCH \<or> 0 \<le> ep_begin (cl_current c)) \<and>
     epoch_fits (cl_current c) \<and> cl_consumed c \<le> ep_last (cl_current c) \<and>
     length (cl_outstanding c) \<le> Suc MAX_OUTSTANDING_REQUESTS"

text \<open>
  The clock may step back, but not behind the beginning of an epoch that the client has entered: the time since then would be negative, and as
  an unsigned number huge.
\<close>

definition clock_ok :: "time_point \<Rightarrow> client \<Rightarrow> bool" where
  "clock_ok now c \<longleftrightarrow> now < 2 ^ 63 \<and> (cl_current c = FIRST_EPOCH \<or> ep_begin (cl_current c) \<le> now)"

lemma epoch_chain_le: "epoch_chain x es y \<Longrightarrow> x \<le> y"
  by (induction x es y rule: epoch_chain.induct) (auto simp: epoch_fits_def)

lemma epoch_chain_snoc:
  "epoch_chain x es y \<Longrightarrow> ep_first e = y \<Longrightarrow> epoch_fits e \<Longrightarrow> 0 \<le> ep_begin e \<Longrightarrow> epoch_chain x (es @ [e]) (ep_last e)"
  by (induction x es y rule: epoch_chain.induct) auto

lemma consumed_assigned: "pacing_inv c \<Longrightarrow> cl_consumed c \<le> cl_assigned c"
  unfolding pacing_inv_def using epoch_chain_le order_trans by blast

lemma pacing_init: "pacing_inv (client_init cid sid f est p)"
  by (simp add: pacing_inv_def client_init_def FIRST_EPOCH_def epoch_fits_def)

lemma estimate_rate_frame [frame_simps]:
  "cl_epochs (fst (estimate_rate rnd c)) = cl_epochs c" "cl_assigned (fst (estimate_rate rnd c)) = cl_assigned c"
  "cl_consumed (fst (estimate_rate rnd c)) = cl_consumed c" "cl_outstanding (fst (estimate_rate rnd c)) = cl_outstanding c"
  by (simp_all add: estimate_rate_def Let_def)

lemma client_stop_pacing [inv_intros]: "pacing_inv c \<Longrightarrow> pacing_inv (fst (client_stop stop c))"
  by (simp add: pacing_inv_def client_stop_def)

lemma client_switch_pacing [inv_intros]:
  assumes "pacing_inv c"
  shows "pacing_inv (fst (client_switch_epoch rnd now c))"
proof (cases "\<exists>e es. cl_epochs c = e # es \<and> ep_begin e \<le> now")
  case True
  then obtain e es where e: "cl_epochs c = e # es" "ep_begin e \<le> now" by blast
  define c1 where "c1 = fst (if cl_estimate c \<and> ep_begin (cl_current c) \<noteq> ep_begin FIRST_EPOCH then estimate_rate rnd c else (c, []))"
  have eq: "fst (client_switch_epoch rnd now c) = c1\<lparr>cl_current := e, cl_epochs := es, cl_epoch_requests := 0\<rparr>"
    using e by (simp add: client_switch_epoch_def c1_def case_prod_beta)
  have "cl_assigned c1 = cl_assigned c" "cl_consumed c1 = cl_consumed c" "cl_outstanding c1 = cl_outstanding c"
    by (simp_all add: c1_def frame_simps)
  then show ?thesis
    using assms e by (auto simp: eq pacing_inv_def epoch_fits_def)
next
  case False
  then have "fst (client_switch_epoch rnd now c) = c"
    by (auto simp: client_switch_epoch_def split: list.splits)
  with assms show ?thesis
    by (auto simp: pacing_inv_def)
qed

lemma client_stop_clock: "clock_ok now c \<Longrightarrow> clock_ok now (fst (client_stop stop c))"
  by (simp add: clock_ok_def client_stop_def)

lemma client_switch_clock: "clock_ok now c \<Longrightarrow> clock_ok now (fst (client_switch_epoch rnd now c))"
  by (auto simp: clock_ok_def client_switch_epoch_def estimate_rate_def Let_def split: list.splits)

lemma send_allowed_bounds:
  assumes "pacing_inv c" and "send_allowed now c" and clock: "clock_ok now c"
  shows "cl_consumed c < ideal now (cl_current c)" "ideal now (cl_current c) \<le> ep_last (cl_current c)"
proof -
  let ?e = "cl_current c"
  show less: "cl_consumed c < ideal now ?e"
    using assms(2) by (simp add: send_allowed_def)
  then have b: "0 \<le> ep_begin ?e" "ep_begin ?e \<le> now"
    using assms(1) clock ideal_first [of now] by (auto simp: pacing_inv_def clock_ok_def)
  then have "s64 (now - ep_begin ?e) = now - ep_begin ?e"
    using clock by (intro s64_small) (auto simp: clock_ok_def)
  then have "now - ep_begin ?e \<le> EPOCH_DURATION"
    using assms(2) by (simp add: send_allowed_def)
  with b assms(1) ideal_eq(3) [of ?e now] show "ideal now ?e \<le> ep_last ?e"
    by (auto simp: pacing_inv_def)
qed

text \<open>
  What the sending step does: nothing, or it takes the slots up to the ideal position and tells every
  storage server it is connected to about the same number of them.
\<close>

lemma client_send_cases:
  assumes "pacing_inv c" and "clock_ok now c" and "client_send now c = (c', out)"
  shows "out = [] \<and> cl_outstanding c' = cl_outstanding c \<and> cl_consumed c' = cl_consumed c \<or>
    (\<exists>data x. out = to_servers c (Storage_insert (cl_client_id c) (cl_consumed c' - cl_consumed c) data) \<and>
       cl_consumed c < cl_consumed c' \<and> cl_consumed c' = ideal now (cl_current c) \<and>
       ideal now (cl_current c) \<le> ep_last (cl_current c) \<and> length (cl_outstanding c) \<le> MAX_OUTSTANDING_REQUESTS \<and>
       cl_failures c < length (cl_queues c) \<and> out_gsn x = UINT64_MAX \<and> out_num_acks x = 0 \<and>
       cl_outstanding c' = cl_outstanding c @ [x])"
proof (cases "send_allowed now c")
  case True
  let ?i = "ideal now (cl_current c)"
  note bounds = send_allowed_bounds [OF assms(1) True assms(2)]
  have "ep_last (cl_current c) < 2 ^ 64"
    using assms(1) by (simp add: pacing_inv_def epoch_fits_def)
  then have adv: "u64_sub ?i (cl_consumed c) = ?i - cl_consumed c" "u64_add (cl_consumed c) (?i - cl_consumed c) = ?i"
    using bounds by (simp_all add: u64_sub_small u64_add_small)
  obtain request q where deq: "dequeue (cl_requests c) = (request, q)" by fastforce
  show ?thesis
    using assms(3) True bounds deq
    by (auto simp: client_send_def Let_def adv send_allowed_def split: option.splits if_splits)
next
  case False
  with assms(3) show ?thesis by (simp add: client_send_def)
qed

lemma client_send_frame:
  "cl_epochs (fst (client_send now c)) = cl_epochs c" "cl_assigned (fst (client_send now c)) = cl_assigned c"
  "cl_current (fst (client_send now c)) = cl_current c"
  by (auto simp: client_send_def Let_def case_prod_beta split: option.splits)

lemma client_send_pacing [inv_intros]:
  assumes "pacing_inv c" and "clock_ok now c"
  shows "pacing_inv (fst (client_send now c))"
proof -
  obtain c' out where r: "client_send now c = (c', out)" by fastforce
  with client_send_frame [of now c] have f:
    "cl_epochs c' = cl_epochs c" "cl_assigned c' = cl_assigned c" "cl_current c' = cl_current c" by auto
  from client_send_cases [OF assms r] show ?thesis
    using assms(1) r f by (auto simp: pacing_inv_def)
qed

lemma find_outstanding_length: "find_outstanding g xs = Some (ys, y, zs) \<Longrightarrow> xs = ys @ y # zs"
  by (induction g xs arbitrary: ys rule: find_outstanding.induct) (auto split: if_splits)

lemma on_insert_ack_pacing [inv_intros]: "pacing_inv c \<Longrightarrow> pacing_inv (on_insert_ack g c)"
  by (auto simp: pacing_inv_def on_insert_ack_def Let_def dest: find_outstanding_length split: option.splits)

lemma on_new_epoch_pacing [inv_intros]:
  assumes "pacing_inv c" and "0 \<le> b" and "cl_assigned c + n < 2 ^ 64" and "n * 5000 < 2 ^ 64"
  shows "pacing_inv (on_new_epoch b n c)"
  using assms epoch_chain_snoc [of "ep_last (cl_current c)" "cl_epochs c" "cl_assigned c"
      "\<lparr>ep_begin = b, ep_first = cl_assigned c, ep_last = cl_assigned c + n\<rparr>"]
  by (simp add: pacing_inv_def on_new_epoch_def Let_def u64_add_small epoch_fits_def)

lemma client_add_server_pacing:
  "pacing_inv c \<Longrightarrow> client_add_server x c = Inr c' \<Longrightarrow> pacing_inv c'"
  by (auto simp: client_add_server_def pacing_inv_def Let_def split: option.splits message.splits if_splits)

lemma client_on_storage_info_pacing:
  "pacing_inv c \<Longrightarrow> client_on_storage_info xs c = Inr c' \<Longrightarrow> pacing_inv c'"
  by (induction xs arbitrary: c) (auto simp: rbind_eq_Inr intro: client_add_server_pacing)

lemma client_on_storage_info_consumed: "client_on_storage_info xs c = Inr c' \<Longrightarrow> cl_consumed c' = cl_consumed c"
  by (induction xs arbitrary: c)
     (force simp: rbind_eq_Inr client_add_server_def Let_def split: option.splits message.splits if_splits)+

lemma client_on_storage_finished_pacing:
  "client_on_storage_finished sid rid c = (c', out) \<Longrightarrow> (pacing_inv c' \<longleftrightarrow> pacing_inv c) \<and> cl_consumed c' = cl_consumed c"
  by (auto simp: client_on_storage_finished_def Let_def pacing_inv_def split: if_splits)

lemma handler_consumed [frame_simps]:
  "cl_consumed (on_insert_ack g c) = cl_consumed c" "cl_consumed (on_new_epoch b n c) = cl_consumed c"
  by (auto simp: on_insert_ack_def on_new_epoch_def Let_def split: option.splits)

lemma end_pacing [simp]: "pacing_inv (c\<lparr>cl_end := True\<rparr>) \<longleftrightarrow> pacing_inv c"
  by (simp add: pacing_inv_def)

text \<open>The packets of the ordering service announce epochs whose slots can be counted.\<close>

fun announced_slots :: "packet \<Rightarrow> nat" where
  "announced_slots ((Client_new_epoch _ n, _), _) = n"
| "announced_slots _ = 0"

definition announces :: "client \<Rightarrow> packet list \<Rightarrow> bool" where
  "announces c ps \<longleftrightarrow> cl_assigned c + sum_list (map announced_slots ps) < 2 ^ 64 \<and>
     (\<forall>((m, _), _) \<in> set ps. \<forall>b n. m = Client_new_epoch b n \<longrightarrow> 0 \<le> b \<and> n * 5000 < 2 ^ 64)"

lemma client_on_storage_info_assigned: "client_on_storage_info xs c = Inr c' \<Longrightarrow> cl_assigned c' = cl_assigned c"
  by (induction xs arbitrary: c)
     (force simp: rbind_eq_Inr client_add_server_def Let_def split: option.splits message.splits if_splits)+

lemma loop_handlers_pacing:
  assumes inv: "pacing_inv c" and p: "announces c (((m, len), connections) # ps)"
    and r: "run_handler (loop_handlers connections) m len c = Inr (c', out)"
  shows "pacing_inv c' \<and> cl_consumed c' = cl_consumed c \<and> announces c' ps"
proof -
  have "cl_assigned c' \<le> cl_assigned c + announced_slots ((m, len), connections)"
    using run_handler_cases [OF r] client_on_storage_info_assigned [of connections c] unfolding loop_handlers_def
    by (cases m) (auto simp: rbind_eq_Inr on_new_epoch_def on_insert_ack_def u64_add_def client_on_storage_finished_def Let_def
        split: option.splits if_splits)
  with p have "announces c' ps"
    by (auto simp: announces_def)
  moreover have "pacing_inv c' \<and> cl_consumed c' = cl_consumed c"
    using run_handler_cases [OF r] inv p unfolding loop_handlers_def
    by (cases m) (auto simp: announces_def rbind_eq_Inr frame_simps intro: inv_intros
        dest: client_on_storage_info_pacing client_on_storage_info_consumed client_on_storage_finished_pacing)
  ultimately show ?thesis by simp
qed

text \<open>
  The bytes a client sends to the storage servers in one iteration: at most one insert, the same for each
  of them, for exactly the slots by which the position advances.
\<close>

definition is_insert :: "send \<Rightarrow> bool" where
  "is_insert s \<longleftrightarrow> msg_type (s_msg s) = STORAGE_INSERT"

lemma filter_insert_simps [simp]:
  "filter is_insert (to_servers c (Storage_insert cid n d)) = to_servers c (Storage_insert cid n d)"
  "filter is_insert (to_servers c (Client_finished cid)) = []"
  by (auto simp: is_insert_def to_servers_def filter_empty_conv)

lemma switch_no_insert: "filter is_insert (snd (client_switch_epoch rnd now c)) = []"
  by (auto simp: client_switch_epoch_def estimate_rate_def Let_def is_insert_def split: list.splits)

lemma handlers_no_insert:
  "run_handler (loop_handlers connections) m len c = Inr (c', out) \<Longrightarrow> filter is_insert out = []"
  by (drule run_handler_cases)
     (auto simp: loop_handlers_def rbind_eq_Inr client_on_storage_finished_def Let_def is_insert_def split: if_splits)

lemma recv_packets_pacing:
  assumes "pacing_inv c" and "announces c ps" and "recv_packets ps c = Inr (c', out)"
  shows "pacing_inv c' \<and> cl_consumed c' = cl_consumed c \<and> filter is_insert out = []"
  using assms
proof (induction ps arbitrary: c out)
  case (Cons p ps)
  obtain m len connections where p: "p = ((m, len), connections)" by (metis surj_pair)
  with Cons.prems(3) obtain c1 out1 out2 where
    one: "run_handler (loop_handlers connections) m len c = Inr (c1, out1)"
    and rest: "recv_packets ps c1 = Inr (c', out2)" "out = out1 @ out2"
    by (auto simp: rbind_eq_Inr)
  from loop_handlers_pacing [OF Cons.prems(1) Cons.prems(2) [unfolded p] one] Cons.IH [OF _ _ rest(1)] handlers_no_insert [OF one] rest(2)
  show ?case by simp
qed simp

lemma switch_frame [frame_simps]:
  "cl_consumed (fst (client_switch_epoch rnd now c)) = cl_consumed c"
  "cl_client_id (fst (client_switch_epoch rnd now c)) = cl_client_id c"
  "cl_queues (fst (client_switch_epoch rnd now c)) = cl_queues c"
  "cl_shard_id (fst (client_switch_epoch rnd now c)) = cl_shard_id c"
  "cl_destination (fst (client_switch_epoch rnd now c)) = cl_destination c"
  by (auto simp: client_switch_epoch_def estimate_rate_def Let_def split: list.splits)

lemma stop_frame [frame_simps]:
  "cl_consumed (fst (client_stop stop c)) = cl_consumed c" "cl_client_id (fst (client_stop stop c)) = cl_client_id c"
  "cl_queues (fst (client_stop stop c)) = cl_queues c" "cl_shard_id (fst (client_stop stop c)) = cl_shard_id c"
  "cl_destination (fst (client_stop stop c)) = cl_destination c"
  "filter is_insert (snd (client_stop stop c)) = []"
  by (simp_all add: client_stop_def)

lemma client_send_assigned: "cl_assigned (fst (client_send now (fst (client_switch_epoch rnd now (fst (client_stop stop c)))))) = cl_assigned c"
  by (auto simp: client_send_frame client_switch_epoch_def client_stop_def estimate_rate_def Let_def split: list.splits)

lemma client_iteration_pacing:
  assumes inv: "pacing_inv c" and clock: "clock_ok now c" and m: "announces c packets"
    and r: "client_iteration rnd stop now packets c = Inr (c', out)"
  shows "pacing_inv c' \<and>
    (filter is_insert out = [] \<and> cl_consumed c' = cl_consumed c \<or>
     cl_consumed c < cl_consumed c' \<and>
     (\<exists>data. filter is_insert out = to_servers c (Storage_insert (cl_client_id c) (cl_consumed c' - cl_consumed c) data)))"
proof -
  define c1 where "c1 = fst (client_stop stop c)"
  define c2 where "c2 = fst (client_switch_epoch rnd now c1)"
  obtain c3 out3 where s: "client_send now c2 = (c3, out3)" by fastforce
  have inv2: "pacing_inv c2" and clock2: "clock_ok now c2"
    using client_switch_pacing [OF client_stop_pacing [OF inv]] client_switch_clock [OF client_stop_clock [OF clock]]
    by (simp_all add: c1_def c2_def)
  then have inv3: "pacing_inv c3"
    using client_send_pacing [OF inv2 clock2] s by simp
  have f: "cl_consumed c2 = cl_consumed c" "cl_client_id c2 = cl_client_id c" "to_servers c2 = to_servers c"
    by (simp_all add: c1_def c2_def frame_simps to_servers_def fun_eq_iff)
  have a: "announces c3 packets"
    using m client_send_assigned [of now rnd stop c] s by (simp add: announces_def c1_def c2_def)
  obtain out4 where h: "recv_packets packets c3 = Inr (c', out4)"
    and out: "out = snd (client_stop stop c) @ snd (client_switch_epoch rnd now c1) @ out3 @ out4"
    using r s by (cases "client_stop stop c", cases "client_switch_epoch rnd now c1")
      (auto simp: client_iteration_def c1_def c2_def rbind_eq_Inr)
  note recv_packets_pacing [OF inv3 a h]
  moreover have "filter is_insert out = filter is_insert out3 @ filter is_insert out4"
    by (simp add: out frame_simps switch_no_insert)
  ultimately show ?thesis
    using client_send_cases [OF inv2 clock2 s] by (auto simp: f)
qed

subsection \<open>Runs of a client\<close>

text \<open>
  A client from its construction on, with everything it has sent. The loop may be left at any time, so that a run covers one that
  ends with \<open>force_stop_\<close>, too.
\<close>

inductive client_run :: "(rat \<Rightarrow> rat) \<Rightarrow> client \<Rightarrow> send list \<Rightarrow> bool" for rnd where
  run_start: "client_run rnd (client_init cid sid f est p) []"
| run_request: "client_run rnd c out \<Longrightarrow> client_insert data response c = Inr c' \<Longrightarrow> client_run rnd c' out"
| run_iteration: "client_run rnd c out \<Longrightarrow> clock_ok now c \<Longrightarrow> announces c packets \<Longrightarrow>
    client_iteration rnd stop now packets c = Inr (c', out') \<Longrightarrow> client_run rnd c' (out @ out')"

text \<open>The slots that the inserts sent to a storage server close.\<close>

fun insert_slots :: "u64 \<Rightarrow> send \<Rightarrow> nat" where
  "insert_slots rid (Send (To_storage _ r) (Storage_insert _ n _) _ _) = (if r = rid then n else 0)"
| "insert_slots rid _ = 0"

definition sent_slots :: "u64 \<Rightarrow> send list \<Rightarrow> nat" where
  "sent_slots rid out = sum_list (map (insert_slots rid) out)"

lemma sent_slots_append [simp]: "sent_slots rid (xs @ ys) = sent_slots rid xs + sent_slots rid ys"
  by (simp add: sent_slots_def)

lemma sent_slots_Nil [simp]: "sent_slots rid [] = 0"
  by (simp add: sent_slots_def)

lemma sent_slots_Cons: "sent_slots rid (x # xs) = insert_slots rid x + sent_slots rid xs"
  by (simp add: sent_slots_def)

lemma sent_slots_filter: "sent_slots rid (filter is_insert out) = sent_slots rid out"
proof (induction out)
  case (Cons x out)
  moreover have "insert_slots rid x = 0" if "\<not> is_insert x"
    using that by (cases "(rid, x)" rule: insert_slots.cases) (auto simp: is_insert_def)
  ultimately show ?case by (simp add: sent_slots_Cons)
qed simp

lemma sent_slots_servers:
  "distinct (cl_queues c) \<Longrightarrow>
     sent_slots rid (to_servers c (Storage_insert cid n d)) = (if rid \<in> set (cl_queues c) then n else 0)"
proof -
  have "sum_list (map (\<lambda>r. if r = rid then n else 0) qs) = (if rid \<in> set qs then n else 0)" if "distinct qs" for qs
    using that by (induction qs) auto
  then show "distinct (cl_queues c) \<Longrightarrow> ?thesis"
    by (simp add: sent_slots_def to_servers_def comp_def)
qed

lemma client_send_queues: "cl_queues (fst (client_send now c)) = cl_queues c"
  by (simp add: client_send_def Let_def split: option.splits prod.splits)

lemma storage_info_queues:
  "client_on_storage_info xs c = Inr c' \<Longrightarrow> distinct (cl_queues c) \<Longrightarrow> distinct (cl_queues c')"
proof (induction xs arbitrary: c)
  case (Cons x xs)
  then obtain c1 where c1: "client_add_server x c = Inr c1" "client_on_storage_info xs c1 = Inr c'"
    by (auto simp: rbind_eq_Inr)
  have "distinct (cl_queues c1)"
    using c1(1) Cons.prems(2) by (auto simp: client_add_server_def Let_def split: option.splits prod.splits message.splits if_splits)
  with Cons.IH c1(2) show ?case by blast
qed simp

lemma handler_queues:
  assumes "run_handler (loop_handlers connections) m len c = Inr (c', out)" and "distinct (cl_queues c)"
  shows "distinct (cl_queues c')"
  using run_handler_cases [OF assms(1)] assms(2) storage_info_queues [of connections c]
  unfolding loop_handlers_def
  by (cases m) (auto simp: rbind_eq_Inr client_on_storage_finished_def on_new_epoch_def on_insert_ack_def Let_def
      distinct_removeAll split: if_splits option.splits)

lemma recv_packets_queues:
  "recv_packets ps c = Inr (c', out) \<Longrightarrow> distinct (cl_queues c) \<Longrightarrow> distinct (cl_queues c')"
proof (induction ps arbitrary: c out)
  case (Cons p ps)
  obtain m len connections where "p = ((m, len), connections)" by (metis surj_pair)
  with Cons show ?case
    by (auto simp: rbind_eq_Inr dest: handler_queues)
qed simp

lemma client_iteration_queues:
  assumes "client_iteration rnd stop now packets c = Inr (c', out)" and "distinct (cl_queues c)"
  shows "distinct (cl_queues c')"
  using assms recv_packets_queues
  by (fastforce simp: client_iteration_def rbind_eq_Inr frame_simps client_send_queues Let_def
      dest: arg_cong [where f = fst] split: prod.splits)

definition run_inv :: "client \<Rightarrow> send list \<Rightarrow> bool" where
  "run_inv c out \<longleftrightarrow>
     pacing_inv c \<and> distinct (cl_queues c) \<and> (\<forall>rid. sent_slots rid out \<le> cl_consumed c) \<and>
     (\<forall>s \<in> set out. is_insert s \<longrightarrow> 0 < ins_num_slots (s_msg s))"

lemma run_inv_loop:
  assumes inv: "run_inv c out" and clock: "clock_ok now c" and m: "announces c packets"
    and r: "client_iteration rnd stop now packets c = Inr (c', out')"
  shows "run_inv c' (out @ out')"
proof -
  have c: "pacing_inv c" "distinct (cl_queues c)" "\<And>rid. sent_slots rid out \<le> cl_consumed c"
    "\<forall>s \<in> set out. is_insert s \<longrightarrow> 0 < ins_num_slots (s_msg s)"
    using inv by (simp_all add: run_inv_def)
  have p: "pacing_inv c'" and cases: "filter is_insert out' = [] \<and> cl_consumed c' = cl_consumed c \<or>
     cl_consumed c < cl_consumed c' \<and>
     (\<exists>data. filter is_insert out' = to_servers c (Storage_insert (cl_client_id c) (cl_consumed c' - cl_consumed c) data))"
    using client_iteration_pacing [OF c(1) clock m r] by auto
  have slots: "sent_slots rid out' \<le> cl_consumed c' - cl_consumed c \<and> cl_consumed c \<le> cl_consumed c'" for rid
    using cases sent_slots_servers [OF c(2), of rid] sent_slots_filter [of rid out', symmetric]
    by (elim disjE conjE exE) (simp_all split del: if_split, simp)
  have "sent_slots rid (out @ out') \<le> cl_consumed c'" for rid
    using c(3) [of rid] slots [of rid] by (simp, linarith)
  moreover have "0 < ins_num_slots (s_msg s)" if "s \<in> set out'" "is_insert s" for s
  proof -
    have "s \<in> set (filter is_insert out')" using that by simp
    then show ?thesis using cases by (elim disjE conjE exE) (simp, force simp only: to_servers_def set_map
        send.sel message.sel zero_less_diff image_iff)
  qed
  ultimately show ?thesis
    using p c client_iteration_queues [OF r c(2)] by (auto simp: run_inv_def)
qed

lemma client_run_inv: "client_run rnd c out \<Longrightarrow> run_inv c out"
proof (induction rule: client_run.induct)
  case (run_start cid sid f est p)
  show ?case
    by (simp add: run_inv_def pacing_init sent_slots_def) (simp add: client_init_def)
next
  case (run_request c out data response c')
  then show ?case
    by (auto simp: client_insert_def run_inv_def pacing_inv_def split: if_splits)
next
  case (run_iteration c out now packets stop c' out')
  then show ?case using run_inv_loop by blast
qed

text \<open>
  What a clock that steps back does: a client that has entered an epoch of two slots at the time \<open>5000000\<close> and then reads
  a time one microsecond earlier asks for more slots than anybody has.
\<close>

lemma clock_step_back_oversends:
  assumes "cl_current c = \<lparr>ep_begin = 5000000, ep_first = 0, ep_last = 2\<rparr>" and "cl_consumed c = 0" and "\<not> cl_stopped c"
    and "cl_failures c < length (cl_queues c)" and "cl_outstanding c = []"
  shows "\<exists>data. snd (client_send 4999000 c) = to_servers c (Storage_insert (cl_client_id c) 3689348814741910 data)"
proof -
  have "ideal 4999000 (cl_current c) = 3689348814741910"
    by (simp add: assms(1) ideal_def time_in_us_def EPOCH_DURATION_def s64_def u64_sub_def u64_mul_def u64_add_def)
  moreover have "s64 (4999000 - 5000000) \<le> EPOCH_DURATION"
    by (simp add: s64_def EPOCH_DURATION_def)
  ultimately show ?thesis
    using assms by (auto simp: client_send_def send_allowed_def Let_def u64_sub_small MAX_OUTSTANDING_REQUESTS_def split: prod.splits option.splits)
qed

subsection \<open>Rate estimation\<close>

text \<open>The machine rounds monotonically and keeps the integers that its significand can hold.\<close>

definition rounds_integers :: "(rat \<Rightarrow> rat) \<Rightarrow> bool" where
  "rounds_integers rnd \<longleftrightarrow> mono rnd \<and> (\<forall>n. \<bar>n\<bar> \<le> 2 ^ 53 \<longrightarrow> rnd (of_int n) = of_int n)"

lemma quantize_multiple:
  assumes rnd: "rounds_integers rnd" and rate: "of_nat MIN_SLOTS \<le> rate" "rate \<le> 2 ^ 53"
    and slots: "int MIN_SLOTS * \<lfloor>rnd (rate / of_nat MIN_SLOTS)\<rfloor> \<le> 2 ^ 53"
  shows "\<exists>k > 0. quantize rnd rate = MIN_SLOTS * k"
proof -
  let ?q = "rnd (rate / of_nat MIN_SLOTS)"
  have one: "rnd 1 = 1"
    using rnd unfolding rounds_integers_def by (metis abs_one of_int_1 one_le_power one_le_numeral)
  have "(1 :: rat) \<le> rate / of_nat MIN_SLOTS"
    using rate(1) by (simp add: le_divide_eq)
  then have "1 \<le> ?q"
    using rnd one unfolding rounds_integers_def by (metis monoD)
  then have k: "1 \<le> \<lfloor>?q\<rfloor>"
    by simp
  then have "\<bar>int MIN_SLOTS * \<lfloor>?q\<rfloor>\<bar> \<le> 2 ^ 53"
    using slots by simp
  then have "rnd (of_int (int MIN_SLOTS * \<lfloor>?q\<rfloor>)) = of_int (int MIN_SLOTS * \<lfloor>?q\<rfloor>)"
    using rnd unfolding rounds_integers_def by blast
  moreover have "of_nat MIN_SLOTS * of_int \<lfloor>?q\<rfloor> = (of_int (int MIN_SLOTS * \<lfloor>?q\<rfloor>) :: rat)"
    by simp
  ultimately have "quantize rnd rate = nat (int MIN_SLOTS * \<lfloor>?q\<rfloor>)"
    unfolding quantize_def by (simp only: floor_of_int)
  also have "\<dots> = MIN_SLOTS * nat \<lfloor>?q\<rfloor>"
    using k by (simp add: nat_mult_distrib)
  finally show ?thesis
    using k by (intro exI [of _ "nat \<lfloor>?q\<rfloor>"]) simp
qed

lemma rate_slots_multiple:
  assumes "rate * 5 < 2 ^ 63"
  shows "\<exists>k > 0. rate_slots rate = MIN_SLOTS * k" and "rate * 5 div 1000 \<le> rate_slots rate"
    and "rate_slots rate < max 1 (rate * 5 div 1000) + MIN_SLOTS"
proof -
  let ?v = "max 1 (rate * 5 div 1000)"
  have v: "u64_mul rate 5 div 1000 = rate * 5 div 1000"
    using assms by (simp add: u64_mul_small)
  have "?v + MIN_SLOTS < 2 ^ 63"
    using assms by (auto simp: MIN_SLOTS_def)
  then have eq: "rate_slots rate = MIN_SLOTS * ((?v + MIN_SLOTS - 1) div MIN_SLOTS)"
    unfolding rate_slots_def v by (intro align_eq) simp_all
  note bounds = round_up_bounds [OF MIN_SLOTS_pos, of ?v]
  show "rate_slots rate < ?v + MIN_SLOTS" "rate * 5 div 1000 \<le> rate_slots rate"
    using bounds by (simp_all add: eq)
  have "0 < (?v + MIN_SLOTS - 1) div MIN_SLOTS"
    using bounds(2) by (intro Nat.gr0I) simp
  then show "\<exists>k > 0. rate_slots rate = MIN_SLOTS * k"
    using eq by blast
qed

subsection \<open>Acknowledgements\<close>

lemma find_outstanding_at:
  assumes "k < length xs" and "out_gsn (xs ! k) = UINT64_MAX \<or> g = out_gsn (xs ! k)"
    and "\<forall>j < k. out_gsn (xs ! j) \<noteq> UINT64_MAX \<and> g \<noteq> out_gsn (xs ! j)"
  shows "find_outstanding g xs = Some (take k xs, xs ! k, drop (Suc k) xs)"
  using assms
proof (induction g xs arbitrary: k rule: find_outstanding.induct)
  case (2 g x xs)
  show ?case
  proof (cases k)
    case 0
    with 2 show ?thesis by simp
  next
    case (Suc k')
    then have "\<not> (out_gsn x = UINT64_MAX \<or> g = out_gsn x)"
      using 2(4) by auto
    moreover have "find_outstanding g xs = Some (take k' xs, xs ! k', drop (Suc k') xs)"
      using 2 Suc \<open>\<not> (out_gsn x = UINT64_MAX \<or> g = out_gsn x)\<close> by (intro "2.IH") auto
    ultimately show ?thesis
      using Suc by simp
  qed
qed simp

text \<open>
  The requests of a client, in the order it sends them: \<open>resp\<close> holds their response addresses, \<open>gs\<close> the
  sequence numbers that the replicas give them, \<open>sent r\<close> how many replica \<open>r\<close> has acknowledged.
\<close>

definition pending_request :: "u64 list \<Rightarrow> nat option list \<Rightarrow> u64 set \<Rightarrow> (u64 \<Rightarrow> nat) \<Rightarrow> nat \<Rightarrow> outstanding" where
  "pending_request gs resp R sent i =
     \<lparr>out_response = resp ! i, out_gsn = (if ackers R sent i = 0 then UINT64_MAX else gs ! i), out_num_acks = ackers R sent i\<rparr>"

definition acks_inv :: "u64 list \<Rightarrow> u64 set \<Rightarrow> (u64 \<Rightarrow> nat) \<Rightarrow> nat option list \<Rightarrow> client \<Rightarrow> nat \<Rightarrow> bool" where
  "acks_inv gs R sent resp c d \<longleftrightarrow>
     quorum_at (cl_failures c) (length resp) R sent d \<and> (\<forall>r \<in> R. sent r \<le> length resp) \<and>
     cl_outstanding c = map (pending_request gs resp R sent) [d..<length resp] \<and>
     cl_latest_gsn c = (if d = 0 then UINT64_MAX else gs ! (d - 1)) \<and>
     (\<forall>i < length resp. \<forall>a. resp ! i = Some a \<longrightarrow> cl_responses c a = (if i < d then gs ! i else UINT64_MAX))"

definition own_addresses :: "nat option list \<Rightarrow> bool" where
  "own_addresses resp \<longleftrightarrow> distinct (filter (\<lambda>a. a \<noteq> None) resp)"

definition gsns_ok :: "u64 list \<Rightarrow> bool" where
  "gsns_ok gs \<longleftrightarrow> sorted_wrt (<) gs \<and> (\<forall>g \<in> set gs. g < UINT64_MAX)"

lemma gsns_le:
  assumes "gsns_ok gs" and "i < length gs" and "j < length gs"
  shows "gs ! i \<le> gs ! j \<longleftrightarrow> i \<le> j"
  using assms sorted_wrt_nth_less [of "(<)" gs i j] sorted_wrt_nth_less [of "(<)" gs j i]
  unfolding gsns_ok_def by (metis leD leI le_less_linear less_imp_le_nat nle_le)

lemma own_address_unique:
  assumes "own_addresses resp" and "i < length resp" and "j < length resp" and "resp ! i = Some a" and "resp ! j = Some a"
  shows "i = j"
  using assms unfolding own_addresses_def
proof (induction resp arbitrary: i j)
  case (Cons x resp)
  have notin: "Some a \<notin> set resp" if "x = Some a"
    using Cons.prems(1) that by auto
  show ?case
    using Cons notin nth_mem [of "i - 1" resp] nth_mem [of "j - 1" resp]
    by (cases i; cases j) (auto split: if_splits)
qed simp

lemma pending_request_step:
  assumes "finite R" and "r \<in> R"
  shows "pending_request gs resp R (sent(r := Suc (sent r))) j =
    (if j = sent r then \<lparr>out_response = resp ! j, out_gsn = gs ! j, out_num_acks = Suc (ackers R sent j)\<rparr>
     else pending_request gs resp R sent j)"
  by (simp add: pending_request_def ackers_step assms)

text \<open>The acknowledgement of a request that waits for some finds this request.\<close>

lemma find_pending:
  assumes gs: "gsns_ok gs" "length resp \<le> length gs" and R: "finite R" "r \<in> R"
    and i: "d \<le> sent r" "sent r < length resp"
  defines "xs \<equiv> map (pending_request gs resp R sent) [d..<length resp]"
  shows "find_outstanding (gs ! sent r) xs =
    Some (take (sent r - d) xs, pending_request gs resp R sent (sent r), drop (Suc (sent r - d)) xs)"
proof -
  have nth: "xs ! j = pending_request gs resp R sent (d + j)" if "d + j < length resp" for j
    using that by (simp add: xs_def)
  have "out_gsn (xs ! j) \<noteq> UINT64_MAX \<and> gs ! sent r \<noteq> out_gsn (xs ! j)" if "j < sent r - d" for j
  proof -
    have "r \<in> {r \<in> R. d + j < sent r}"
      using R that by auto
    then have "ackers R sent (d + j) \<noteq> 0"
      using R unfolding ackers_def by (metis (no_types, lifting) card_0_eq empty_iff finite_subset mem_Collect_eq subsetI)
    moreover have "gs ! (d + j) < UINT64_MAX"
      using gs i that by (simp add: gsns_ok_def)
    moreover have "gs ! (d + j) \<noteq> gs ! sent r"
      using gsns_le [OF gs(1), of "sent r" "d + j"] gs(2) i that by fastforce
    ultimately show ?thesis
      using that i by (simp add: nth pending_request_def)
  qed
  moreover have "out_gsn (xs ! (sent r - d)) = UINT64_MAX \<or> gs ! sent r = out_gsn (xs ! (sent r - d))"
    using i by (simp add: nth pending_request_def)
  moreover have "xs ! (sent r - d) = pending_request gs resp R sent (sent r)" "sent r - d < length xs"
    using i by (auto simp: nth xs_def)
  ultimately show ?thesis
    using find_outstanding_at [of "sent r - d" xs "gs ! sent r"] by auto
qed

lemma latest_ack_iff:
  assumes "gsns_ok gs" and "d \<le> length gs" and "i < length gs" and "g = (if d = 0 then UINT64_MAX else gs ! (d - 1))"
  shows "g \<noteq> UINT64_MAX \<and> gs ! i \<le> g \<longleftrightarrow> i < d"
proof (cases "d = 0")
  case False
  with assms have "gs ! (d - 1) < UINT64_MAX"
    by (simp add: gsns_ok_def)
  with False assms gsns_le [OF assms(1), of i "d - 1"] show ?thesis
    by auto
qed (use assms in simp)

text \<open>The effect of an acknowledgement of request \<open>i\<close>, which has not been answered yet.\<close>

lemma on_insert_ack_pending:
  assumes gs: "gsns_ok gs" "length resp \<le> length gs" and R: "finite R" "r \<in> R" and out: "cl_outstanding c = map (pending_request gs resp R sent) [d..<length resp]"
    and i: "i < length resp" "d \<le> i" and new: "\<not> (cl_latest_gsn c \<noteq> UINT64_MAX \<and> gs ! i \<le> cl_latest_gsn c)"
    and few: "ackers R sent i + 1 < 2 ^ 64" and at: "sent r = i"
  shows "on_insert_ack (gs ! i) c =
    (let xs = map (pending_request gs resp R sent) [d..<length resp]; a = ackers R sent i
     in if Suc a > cl_failures c
        then c\<lparr>cl_responses := (case resp ! i of None \<Rightarrow> cl_responses c | Some a \<Rightarrow> (cl_responses c)(a := gs ! i)),
               cl_latest_gsn := gs ! i, cl_outstanding := take (i - d) xs @ drop (Suc (i - d)) xs\<rparr>
        else c\<lparr>cl_outstanding := xs[i - d := \<lparr>out_response = resp ! i, out_gsn = gs ! i, out_num_acks = Suc a\<rparr>]\<rparr>)"
proof -
  define xs where "xs = map (pending_request gs resp R sent) [d..<length resp]"
  define a where "a = ackers R sent i"
  have find: "find_outstanding (gs ! i) xs = Some (take (i - d) xs, pending_request gs resp R sent i, drop (Suc (i - d)) xs)"
    using find_pending [where sent = sent, OF gs R] i at by (simp add: xs_def)
  have inc: "u64_add a (Suc 0) = Suc a"
    using few u64_add_small [of a 1] by (simp add: a_def)
  have upd: "take (i - d) xs @ x # drop (Suc (i - d)) xs = xs[i - d := x]" for x
    using i by (subst upd_conv_take_nth_drop) (auto simp: xs_def)
  have "pending_request gs resp R sent i =
      \<lparr>out_response = resp ! i, out_gsn = (if a = 0 then UINT64_MAX else gs ! i), out_num_acks = a\<rparr>"
    by (simp only: pending_request_def a_def)
  moreover have "(if (if a = 0 then UINT64_MAX else gs ! i) = UINT64_MAX then gs ! i
      else if a = 0 then UINT64_MAX else gs ! i) = gs ! i"
    by auto
  ultimately show ?thesis
    using new unfolding on_insert_ack_def out [folded xs_def] find
    by (simp only: if_False option.case prod.case) (simp add: Let_def inc upd xs_def [symmetric] a_def [symmetric] cong: option.case_cong)
qed

lemma acks_step:
  assumes gs: "gsns_ok gs" "length resp \<le> length gs" and R: "finite R" "r \<in> R" and f: "Suc (cl_failures c) < 2 ^ 64"
    and own: "own_addresses resp" and inv: "acks_inv gs R sent resp c d" and i: "sent r < length resp"
  shows "\<exists>d'. acks_inv gs R (sent(r := Suc (sent r))) resp (on_insert_ack (gs ! sent r) c) d'"
proof -
  let ?i = "sent r" and ?sent = "sent(r := Suc (sent r))" and ?n = "length resp" and ?f = "cl_failures c"
  define xs where "xs = map (pending_request gs resp R sent) [d..<?n]"
  define a where "a = ackers R sent ?i"
  have q: "quorum_at ?f ?n R sent d" and bound: "\<forall>r \<in> R. ?sent r \<le> ?n" and out: "cl_outstanding c = xs"
    and latest: "cl_latest_gsn c = (if d = 0 then UINT64_MAX else gs ! (d - 1))"
    and resp: "\<And>i a. i < ?n \<Longrightarrow> resp ! i = Some a \<Longrightarrow> cl_responses c a = (if i < d then gs ! i else UINT64_MAX)"
    using inv i by (auto simp: acks_inv_def xs_def)
  have d: "d \<le> length gs"
    using q gs by (simp add: quorum_at_def)
  have old: "cl_latest_gsn c \<noteq> UINT64_MAX \<and> gs ! ?i \<le> cl_latest_gsn c \<longleftrightarrow> ?i < d"
    using latest_ack_iff [OF gs(1) d _ latest] i gs by simp
  show ?thesis
  proof (cases "?i < d")
    case True
    then have "on_insert_ack (gs ! ?i) c = c"
      using old by (simp add: on_insert_ack_def)
    moreover have "map (pending_request gs resp R ?sent) [d..<?n] = xs"
      using True by (auto simp: xs_def pending_request_step R)
    ultimately have "acks_inv gs R ?sent resp (on_insert_ack (gs ! ?i) c) d"
      using quorum_old [OF q R True] bound out latest resp by (simp add: acks_inv_def)
    then show ?thesis ..
  next
    case False
    let ?x = "\<lparr>out_response = resp ! ?i, out_gsn = gs ! ?i, out_num_acks = Suc a\<rparr>"
    have "a \<le> ?f"
      using quorum_missing [OF q] i False by (simp add: a_def)
    have ack: "on_insert_ack (gs ! ?i) c =
        (if Suc a > ?f
         then c\<lparr>cl_responses := (case resp ! ?i of None \<Rightarrow> cl_responses c | Some a \<Rightarrow> (cl_responses c)(a := gs ! ?i)),
                cl_latest_gsn := gs ! ?i, cl_outstanding := take (?i - d) xs @ drop (Suc (?i - d)) xs\<rparr>
         else c\<lparr>cl_outstanding := xs[?i - d := ?x]\<rparr>)"
      using on_insert_ack_pending [OF gs R out [unfolded xs_def] i] old False \<open>a \<le> ?f\<close> f
      by (simp add: xs_def [symmetric] a_def [symmetric] Let_def cong: option.case_cong)
    show ?thesis
    proof (cases "?f < Suc a")
      case True
      have at: "?i = d" and q': "quorum_at ?f ?n R ?sent (Suc d)"
        using quorum_reached [OF q R _ i] False True by (auto simp: a_def)
      have "drop (Suc 0) xs = map (pending_request gs resp R ?sent) [Suc d..<?n]"
        using at by (auto simp: xs_def drop_map drop_upt pending_request_step R)
      moreover have "(case resp ! ?i of None \<Rightarrow> cl_responses c | Some a \<Rightarrow> (cl_responses c)(a := gs ! ?i)) b =
          (if j < Suc d then gs ! j else UINT64_MAX)" if "j < ?n" "resp ! j = Some b" for j b
        using that resp [of j b] own_address_unique [OF own that(1) i that(2)] at
        by (auto simp: less_Suc_eq split: option.splits)
      ultimately have "acks_inv gs R ?sent resp (on_insert_ack (gs ! ?i) c) (Suc d)"
        using q' bound True at unfolding ack acks_inv_def by (simp cong: option.case_cong)
      then show ?thesis ..
    next
      case short: False
      have "xs[?i - d := ?x] = map (pending_request gs resp R ?sent) [d..<?n]"
        using i False by (intro nth_equalityI) (auto simp: xs_def nth_list_update pending_request_step R a_def)
      then have "acks_inv gs R ?sent resp (on_insert_ack (gs ! ?i) c) d"
        using quorum_short [OF q R] short False bound latest resp by (simp add: ack acks_inv_def a_def)
      then show ?thesis ..
    qed
  qed
qed

text \<open>
  The client as its environment sees it: its own sending step, which may start the next request, an
  acknowledgement of the next request of some replica, and any other step, which leaves the requests and
  their responses alone. The application gives every request an address of its own.
\<close>

inductive acks_run :: "u64 list \<Rightarrow> u64 set \<Rightarrow> (u64 \<Rightarrow> nat) \<times> nat option list \<times> client \<Rightarrow> bool"
  for gs R where
  start: "cl_outstanding c = [] \<Longrightarrow> cl_latest_gsn c = UINT64_MAX \<Longrightarrow> acks_run gs R (\<lambda>_. 0, [], c)"
| request: "acks_run gs R (sent, resp, c) \<Longrightarrow> client_send now c = (c', out) \<Longrightarrow>
    cl_outstanding c' = cl_outstanding c @ [x] \<Longrightarrow>
    (\<forall>a. out_response x = Some a \<longrightarrow> Some a \<notin> set resp \<and> cl_responses c a = UINT64_MAX) \<Longrightarrow>
    acks_run gs R (sent, resp @ [out_response x], c')"
| ack: "acks_run gs R (sent, resp, c) \<Longrightarrow> r \<in> R \<Longrightarrow> sent r < length resp \<Longrightarrow> length resp \<le> length gs \<Longrightarrow>
    acks_run gs R (sent(r := Suc (sent r)), resp, on_insert_ack (gs ! sent r) c)"
| other: "acks_run gs R (sent, resp, c) \<Longrightarrow> cl_outstanding c' = cl_outstanding c \<Longrightarrow>
    cl_latest_gsn c' = cl_latest_gsn c \<Longrightarrow> cl_failures c' = cl_failures c \<Longrightarrow>
    (\<forall>a. Some a \<in> set resp \<longrightarrow> cl_responses c' a = cl_responses c a) \<Longrightarrow>
    acks_run gs R (sent, resp, c')"

lemma client_send_request_frame:
  assumes "client_send now c = (c', out)" and "cl_outstanding c' = cl_outstanding c @ [x]"
  shows "cl_latest_gsn c' = cl_latest_gsn c" "cl_failures c' = cl_failures c" "cl_responses c' = cl_responses c"
    "out_gsn x = UINT64_MAX" "out_num_acks x = 0"
  using assms by (auto simp: client_send_def Let_def split: if_splits option.splits prod.splits)

lemma on_insert_ack_failures [simp]: "cl_failures (on_insert_ack g c) = cl_failures c"
  by (auto simp: on_insert_ack_def Let_def split: option.splits)

lemma acks_request:
  assumes inv: "acks_inv gs R sent resp c d" and s: "client_send now c = (c', out)"
    and x: "cl_outstanding c' = cl_outstanding c @ [x]"
    and fresh: "\<forall>a. out_response x = Some a \<longrightarrow> Some a \<notin> set resp \<and> cl_responses c a = UINT64_MAX"
  shows "acks_inv gs R sent (resp @ [out_response x]) c' d"
proof -
  note f = client_send_request_frame [OF s x]
  let ?resp = "resp @ [out_response x]"
  have q: "quorum_at (cl_failures c) (length resp) R sent d" and b: "\<forall>r \<in> R. sent r \<le> length resp"
    and d: "d \<le> length resp"
    using inv by (auto simp: acks_inv_def quorum_at_def)
  have none: "{r \<in> R. length resp < sent r} = {}"
    using b by fastforce
  have "pending_request gs ?resp R sent (length resp) = x"
    using f by (cases x) (simp add: pending_request_def ackers_def none)
  moreover have "pending_request gs ?resp R sent i = pending_request gs resp R sent i" if "i < length resp" for i
    using that by (simp add: pending_request_def nth_append)
  ultimately have "cl_outstanding c' = map (pending_request gs ?resp R sent) [d..<length ?resp]"
    using inv x d by (simp add: acks_inv_def)
  moreover have "quorum_at (cl_failures c') (length ?resp) R sent d"
    using quorum_grow [OF q b] f by simp
  moreover have "cl_responses c' a = (if i < d then gs ! i else UINT64_MAX)" if "i < length ?resp" "?resp ! i = Some a" for i a
    using that inv fresh d f(3) by (cases "i < length resp") (auto simp: acks_inv_def nth_append less_Suc_eq)
  ultimately show ?thesis
    using inv b f by (auto simp: acks_inv_def)
qed

lemma acks_run_inv:
  assumes "acks_run gs R s" and "gsns_ok gs" and "finite R" and "Suc (cl_failures (snd (snd s))) < 2 ^ 64"
  shows "own_addresses (fst (snd s)) \<and> (\<exists>d. acks_inv gs R (fst s) (fst (snd s)) (snd (snd s)) d)"
  using assms(1,4)
proof (induction rule: acks_run.induct)
  case (start c)
  then show ?case
    by (auto simp: acks_inv_def own_addresses_def)
next
  case (request sent resp c now c' out x)
  then obtain d where "acks_inv gs R sent resp c d" and own: "own_addresses resp"
    using client_send_request_frame(2) by fastforce
  from acks_request [OF this(1) request.hyps(2-4)] own request.hyps(4) show ?case
    by (cases "out_response x") (auto simp: own_addresses_def)
next
  case (ack sent resp c r)
  then obtain d where "acks_inv gs R sent resp c d" and own: "own_addresses resp"
    by auto
  with acks_step [where sent = sent, OF assms(2) ack.hyps(4) assms(3) ack.hyps(2) _ own _ ack.hyps(3)] ack.prems show ?case
    by (simp del: fun_upd_apply)
next
  case (other sent resp c c')
  then obtain d where d: "acks_inv gs R sent resp c d" and own: "own_addresses resp"
    by auto
  have "cl_responses c' a = cl_responses c a" if "i < length resp" "resp ! i = Some a" for i a
    using other.hyps(5) nth_mem [OF that(1)] that(2) by simp
  then have "acks_inv gs R sent resp c' d"
    using d other.hyps(2-4) by (simp add: acks_inv_def)
  with own show ?case by auto
qed

subsection \<open>Properties\<close>

text \<open>
  C10. A client never runs ahead of its allotment: whatever the application and the storage servers do, whatever packets
  arrive in whatever batches, and whenever the loop is left, the slots that its inserts have asked of a storage server so far are at most
  the slots that have been announced to it. The clock may jump, also backwards, but must not be read before the beginning of an epoch that
  the client has entered (\<open>clock_ok\<close>; \<open>high_resolution_clock\<close> does not promise it, and \<open>clock_step_back_oversends\<close> shows
  what happens then). The epochs announced begin after the epoch of the clock, and the slots announced in total, and \<open>5000\<close> times those of one
  epoch, fit 64 bits (\<open>announces\<close>).
\<close>

theorem client_within_slots:
  assumes "client_run rnd c out"
  shows "sent_slots rid out \<le> cl_consumed c \<and> cl_consumed c \<le> cl_assigned c"
  using client_run_inv [OF assms] consumed_assigned by (auto simp: run_inv_def)

text \<open>A client with one server and one epoch of two slots that begins at time \<open>0\<close>.\<close>

definition example_client :: client where
  "example_client = (client_init 0 0 0 False \<lparr>pid_target = 0, pid_proportional = 0, pid_integral = 0, pid_detivative = 0\<rparr>)
     \<lparr>cl_client_queues := 1, cl_destination := 1, cl_queues := [0], cl_assigned := 2,
      cl_epochs := [\<lparr>ep_begin = 0, ep_first = 0, ep_last = 2\<rparr>]\<rparr>"

lemma example_client_run: "client_run rnd example_client []"
proof -
  let ?p = "\<lparr>pid_target = 0, pid_proportional = 0, pid_integral = 0, pid_detivative = 0\<rparr>"
  let ?c = "client_init 0 0 0 False ?p"
  let ?packets = "[((Client_storage_info [(0, 0)], 32), [Some (Storage_intro 0 0 1 0, 34)]), ((Client_new_epoch 0 2, 24), [])]"
  have "client_iteration rnd False 0 ?packets ?c = Inr (example_client, [])"
    by (simp add: client_iteration_def client_stop_def client_switch_epoch_def client_send_def send_allowed_def
        client_init_def ideal_first run_handler_def loop_handlers_def client_add_server_def sizeof_defs sizeof_sockaddr_in_def
        NUM_SHARDS_def on_new_epoch_def example_client_def u64_add_def)
  from run_iteration [OF run_start _ _ this] show ?thesis
    by (simp add: announces_def clock_ok_def client_init_def)
qed

lemma example_ideal: "ideal 2500000 \<lparr>ep_begin = 0, ep_first = 0, ep_last = 2\<rparr> = 1"
proof -
  have "epoch_fits \<lparr>ep_begin = 0, ep_first = 0, ep_last = 2\<rparr>"
    by (simp add: epoch_fits_def)
  from ideal_eq(1) [OF this, of 2500000] show ?thesis
    by (simp add: EPOCH_DURATION_def)
qed

lemma example_allowed: "s64 2500000 \<le> EPOCH_DURATION"
  by (simp add: s64_small EPOCH_DURATION_def)

lemma example_client_sends:
  "\<exists>c. client_iteration rnd False 2500000 [] example_client =
     Inr (c, [Send (To_storage 0 0) (Storage_insert 0 1 []) 1 False]) \<and> cl_assigned c = 2"
  by (simp add: client_iteration_def client_stop_def client_switch_epoch_def client_send_def send_allowed_def
      example_client_def client_init_def example_ideal example_allowed u64_sub_small to_servers_def queue_init_def dequeue_def)

theorem client_within_slots_witness:
  "\<exists>c out. client_run id c out \<and> sent_slots 0 out = 1 \<and> 1 \<le> cl_consumed c \<and> cl_consumed c \<le> 2"
proof -
  from example_client_sends obtain c where i: "client_iteration id False 2500000 [] example_client =
     Inr (c, [Send (To_storage 0 0) (Storage_insert 0 1 []) 1 False])" and c: "cl_assigned c = 2" by blast
  from run_iteration [OF example_client_run _ _ i]
  have run: "client_run id c [Send (To_storage 0 0) (Storage_insert 0 1 []) 1 False]"
    by (simp add: announces_def clock_ok_def example_client_def client_init_def)
  have "sent_slots 0 [Send (To_storage 0 0) (Storage_insert 0 1 []) 1 False] = 1"
    by (simp add: sent_slots_def)
  with client_within_slots [OF run, of 0] run c show ?thesis by auto
qed

text \<open>
  C17. A request is answered exactly when more than \<open>failures\<close> replicas have acknowledged it, with the sequence number
  that the replicas gave to this request and no other, however the acknowledgements of the replicas interleave
  with each other and with new requests.
\<close>

theorem answered_at_quorum:
  assumes "acks_run gs R (sent, resp, c)" and "gsns_ok gs" and "finite R" and "Suc (cl_failures c) < 2 ^ 64"
    and "i < length resp" and "resp ! i = Some a"
  shows "cl_responses c a = (if cl_failures c < card {r \<in> R. i < sent r} then gs ! i else UINT64_MAX)"
proof -
  obtain d where "acks_inv gs R sent resp c d"
    using acks_run_inv [OF assms(1-3)] assms(4) by auto
  then show ?thesis
    using assms(5,6) by (auto simp: acks_inv_def quorum_at_def ackers_def)
qed

text \<open>One request to one server, acknowledged with sequence number \<open>5\<close>.\<close>

definition example_request :: client where
  "example_request = fst (client_send 2500000 (example_client
     \<lparr>cl_epochs := [], cl_current := \<lparr>ep_begin = 0, ep_first = 0, ep_last = 2\<rparr>,
      cl_requests := enqueue ([1], 8) queue_init, cl_responses := (\<lambda>_. UINT64_MAX)\<rparr>))"

lemma example_request_run: "acks_run [5] {7} ((\<lambda>_. 0)(7 := Suc 0), [Some 8], on_insert_ack ([5] ! 0) example_request)"
proof -
  let ?c = "example_client\<lparr>cl_epochs := [], cl_current := \<lparr>ep_begin = 0, ep_first = 0, ep_last = 2\<rparr>,
      cl_requests := enqueue ([1], 8) queue_init, cl_responses := (\<lambda>_. UINT64_MAX)\<rparr>"
  let ?x = "\<lparr>out_response = Some 8, out_gsn = UINT64_MAX, out_num_acks = 0\<rparr>"
  obtain out where send: "client_send 2500000 ?c = (example_request, out)"
    unfolding example_request_def by (cases "client_send 2500000 ?c") simp
  have "cl_outstanding example_request = cl_outstanding ?c @ [?x]"
    by (simp add: example_request_def client_send_def send_allowed_def example_client_def client_init_def example_ideal
        example_allowed enqueue_def queue_init_def dequeue_def Let_def)
  then have "acks_run [5] {7} (\<lambda>_. 0, [] @ [out_response ?x], example_request)"
    by (intro request [where c = ?c and now = 2500000, OF _ send]) (simp_all add: start example_client_def client_init_def)
  then show ?thesis
    using ack [of "[5]" "{7}" "\<lambda>_. 0" "[Some 8]" example_request 7] by simp
qed

theorem answered_at_quorum_witness:
  "cl_responses (on_insert_ack ([5] ! 0) example_request) 8 = 5"
proof -
  have "cl_failures example_request = 0"
    by (simp add: example_request_def client_send_def Let_def example_client_def client_init_def split: option.splits prod.splits)
  moreover have "{r \<in> {7 :: u64}. 0 < ((\<lambda>_. 0)(7 := Suc 0)) r} = {7}"
    by auto
  ultimately show ?thesis
    using answered_at_quorum [OF example_request_run, of 0 8] by (simp add: gsns_ok_def UINT64_MAX_def)
qed

text \<open>
  The rate that a client asks of the ordering service at the end of an epoch is a positive multiple of the
  minimum number of slots, whatever the constants of the controller, as long as the epoch has a slot and the estimate
  stays within the integers that a double holds exactly.
\<close>

theorem requested_rate_multiple:
  assumes "rounds_integers rnd" and "cl_current_rate (fst (estimate_rate rnd c)) \<le> 2 ^ 53"
    and "int MIN_SLOTS * \<lfloor>rnd (cl_current_rate (fst (estimate_rate rnd c)) / of_nat MIN_SLOTS)\<rfloor> \<le> 2 ^ 53"
    and "Send To_order (Order_client_rate cid n) 0 False \<in> set (snd (estimate_rate rnd c))"
    and "ep_first (cl_current c) < ep_last (cl_current c)"
  shows "cid = cl_client_id c \<and> n \<noteq> cl_requested c \<and> cl_requested (fst (estimate_rate rnd c)) = n \<and> (\<exists>k > 0. n = MIN_SLOTS * k)"
proof -
  let ?rate = "cl_current_rate (fst (estimate_rate rnd c))"
  have "of_nat MIN_SLOTS \<le> ?rate"
    by (simp add: estimate_rate_def Let_def)
  from quantize_multiple [OF assms(1) this assms(2,3)] have "\<exists>k > 0. quantize rnd ?rate = MIN_SLOTS * k" .
  moreover have "cid = cl_client_id c \<and> n \<noteq> cl_requested c \<and> cl_requested (fst (estimate_rate rnd c)) = n \<and> n = quantize rnd ?rate"
    using assms(4) by (auto simp: estimate_rate_def Let_def split: if_splits)
  ultimately show ?thesis by auto
qed

end
