(* ===== verification/Network_Memory.thy ===== *)
theory Network_Memory
  imports Zip_Consts
begin

text \<open>
  The memory of the network manager, \<open>src/network/manager.cpp\<close> and \<open>src/network/buffer.cpp\<close>: the free list
  of send buffers and the bitmap of receive buffers, both carved from huge pages. A page is named by the
  order of its allocation; an address is a page and an offset in it. Both are pools in the sense of the
  locale below: a buffer is handed out to one owner at a time, as long as owners give back what is theirs.
\<close>

subsection \<open>The contract of a pool\<close>

text \<open>Takes and gives of the owners; \<open>U\<close> is the set of what is handed out.\<close>

inductive pool_run ::
  "('s \<Rightarrow> ('r \<times> 's) res) \<Rightarrow> ('r \<Rightarrow> 's \<Rightarrow> 's) \<Rightarrow> 'r set \<Rightarrow> 's \<Rightarrow> 'r set \<Rightarrow> 's \<Rightarrow> bool"
  for get put U s where
  pool_start: "pool_run get put U s U s"
| pool_get: "pool_run get put U s V t \<Longrightarrow> get t = Inr (r, u) \<Longrightarrow> pool_run get put U s (insert r V) u"
| pool_put: "pool_run get put U s V t \<Longrightarrow> r \<in> V \<Longrightarrow> pool_run get put U s (V - {r}) (put r t)"

locale pool =
  fixes get :: "'s \<Rightarrow> ('r \<times> 's) res"
    and put :: "'r \<Rightarrow> 's \<Rightarrow> 's"
    and inv :: "'r set \<Rightarrow> 's \<Rightarrow> bool"
  assumes get_fresh: "inv U s \<Longrightarrow> get s = Inr (r, s') \<Longrightarrow> r \<notin> U \<and> inv (insert r U) s'"
    and put_back: "inv U s \<Longrightarrow> r \<in> U \<Longrightarrow> inv (U - {r}) (put r s)"
begin

lemma run_inv: "pool_run get put U s V t \<Longrightarrow> inv U s \<Longrightarrow> inv V t"
  by (induction rule: pool_run.induct) (auto dest: get_fresh put_back)

lemma run_exclusive: "pool_run get put U s V t \<Longrightarrow> inv U s \<Longrightarrow> get t = Inr (r, u) \<Longrightarrow> r \<notin> V"
  using run_inv get_fresh by blast

end

subsection \<open>State\<close>

type_synonym address = "nat \<times> nat"

record network_memory =
  nm_pages :: nat
  nm_free_list :: "address list"
  nm_receive_buffers :: "address option list"
  nm_free_receive :: "bool list"

definition network_memory_init :: network_memory where
  "network_memory_init =
     \<lparr>nm_pages = 0, nm_free_list = [], nm_receive_buffers = replicate MAX_QUEUE_PAIRS None,
      nm_free_receive = replicate MAX_QUEUE_PAIRS True\<rparr>"

subsection \<open>Send buffers\<close>

definition page_buffers :: "nat \<Rightarrow> address list" where
  "page_buffers p = map (\<lambda>j. (p, j * SEND_BUFFER_SIZE)) [0..<HUGE_PAGE_SIZE div SEND_BUFFER_SIZE]"

definition add_page :: "network_memory \<Rightarrow> network_memory" where
  "add_page m = m\<lparr>nm_pages := Suc (nm_pages m), nm_free_list := nm_free_list m @ page_buffers (nm_pages m)\<rparr>"

lemma page_buffers_length: "length (page_buffers p) = 1024"
  by (simp add: page_buffers_def consts_defs)

function refill :: "nat \<Rightarrow> network_memory \<Rightarrow> network_memory" where
  "refill n m = (if length (nm_free_list m) < n then refill n (add_page m) else m)"
  by pat_completeness auto
termination
  by (relation "measure (\<lambda>(n, m). n - length (nm_free_list m))") (auto simp: add_page_def page_buffers_length)

declare refill.simps [simp del]

definition get_buffers :: "nat \<Rightarrow> network_memory \<Rightarrow> address list \<times> network_memory" where
  "get_buffers n m =
     (let m' = refill n m in (take n (nm_free_list m'), m'\<lparr>nm_free_list := drop n (nm_free_list m')\<rparr>))"

definition put_buffer :: "address \<Rightarrow> network_memory \<Rightarrow> network_memory" where
  "put_buffer b m = m\<lparr>nm_free_list := nm_free_list m @ [b]\<rparr>"

text \<open>
  Every buffer of the allocated pages is free or handed out, never both, and no two of them overlap.
\<close>

definition buffers_inv :: "address set \<Rightarrow> network_memory \<Rightarrow> bool" where
  "buffers_inv U m \<longleftrightarrow>
     distinct (nm_free_list m) \<and> set (nm_free_list m) \<inter> U = {} \<and>
     (\<forall>(p, j) \<in> set (nm_free_list m) \<union> U. p < nm_pages m \<and> SEND_BUFFER_SIZE dvd j \<and>
        j + SEND_BUFFER_SIZE \<le> HUGE_PAGE_SIZE)"

lemma page_buffers_inv:
  "distinct (page_buffers p)"
  "(q, j) \<in> set (page_buffers p) \<Longrightarrow> q = p \<and> SEND_BUFFER_SIZE dvd j \<and> j + SEND_BUFFER_SIZE \<le> HUGE_PAGE_SIZE"
  by (auto simp: page_buffers_def distinct_map inj_on_def consts_defs)

lemma add_page_inv:
  assumes "buffers_inv U m"
  shows "buffers_inv U (add_page m)"
proof -
  have "set (page_buffers (nm_pages m)) \<inter> (set (nm_free_list m) \<union> U) = {}"
    using assms page_buffers_inv(2) by (fastforce simp: buffers_inv_def)
  with assms page_buffers_inv show ?thesis
    unfolding buffers_inv_def add_page_def by (fastforce simp: less_Suc_eq)
qed

lemma refill_inv:
  "buffers_inv U m \<Longrightarrow> buffers_inv U (refill n m) \<and> n \<le> length (nm_free_list (refill n m))"
proof (induction n m rule: refill.induct)
  case (1 n m)
  then show ?case
    by (subst (1 2) refill.simps) (auto intro: add_page_inv)
qed

lemma get_buffers_ok:
  assumes inv: "buffers_inv U m" and run: "get_buffers n m = (bs, m')"
  shows "length bs = n" and "distinct bs" and "set bs \<inter> U = {}" and "buffers_inv (U \<union> set bs) m'"
proof -
  let ?r = "refill n m"
  note r = refill_inv [OF inv, of n]
  have bs: "bs = take n (nm_free_list ?r)" and m': "m' = ?r\<lparr>nm_free_list := drop n (nm_free_list ?r)\<rparr>"
    using run by (simp_all add: get_buffers_def Let_def)
  show "length bs = n"
    using r by (simp add: bs)
  have split: "nm_free_list ?r = bs @ nm_free_list m'"
    by (simp add: bs m')
  then have "distinct (bs @ nm_free_list m')"
    using r by (metis buffers_inv_def)
  then show "distinct bs" by simp
  have sets: "set (nm_free_list ?r) = set bs \<union> set (nm_free_list m')" "nm_pages m' = nm_pages ?r"
    unfolding split by (simp_all add: m')
  then show "set bs \<inter> U = {}"
    using r by (auto simp: buffers_inv_def)
  show "buffers_inv (U \<union> set bs) m'"
    using r sets \<open>distinct (bs @ nm_free_list m')\<close> unfolding buffers_inv_def by auto
qed

definition get_one :: "network_memory \<Rightarrow> (address \<times> network_memory) res" where
  "get_one m = (let (bs, m') = get_buffers 1 m in Inr (hd bs, m'))"

interpretation sb: pool get_one put_buffer buffers_inv
proof (unfold_locales, goal_cases)
  case (1 U s r s')
  then obtain bs where run: "get_buffers 1 s = (bs, s')" and r: "r = hd bs"
    by (auto simp: get_one_def split: prod.splits)
  from get_buffers_ok [OF 1(1) run] obtain "bs = [r]"
    by (cases bs) (auto simp: r)
  with get_buffers_ok [OF 1(1) run] show ?case
    by auto
next
  case (2 U s r)
  then show ?case
    by (auto simp: buffers_inv_def put_buffer_def)
qed

subsection \<open>Receive buffers\<close>

definition BUFFERS_PER_PAGE :: nat where
  "BUFFERS_PER_PAGE = HUGE_PAGE_SIZE div RECEIVE_BUFFER_SIZE"

definition find_first :: "bool list \<Rightarrow> nat" where
  "find_first bs = length (takeWhile Not bs)"

fun write_page :: "nat \<Rightarrow> nat \<Rightarrow> nat list \<Rightarrow> address option list \<Rightarrow> address option list" where
  "write_page p index [] rb = rb"
| "write_page p index (i # is) rb = write_page p index is (rb[index + i := Some (p, i * RECEIVE_BUFFER_SIZE)])"

definition create_receive_buffer :: "network_memory \<Rightarrow> ((nat \<times> address) \<times> network_memory) res" where
  "create_receive_buffer m =
     (let index = find_first (nm_free_receive m)
      in if index = MAX_QUEUE_PAIRS
         then Inl (Assert_failed ''cannot create more queue pair receive buffers'')
         else if nm_receive_buffers m ! index = None
         then (if index + BUFFERS_PER_PAGE > MAX_QUEUE_PAIRS then Inl Out_of_bounds
               else (let rb = write_page (nm_pages m) index [0..<BUFFERS_PER_PAGE] (nm_receive_buffers m)
                     in Inr ((index, the (rb ! index)),
                             m\<lparr>nm_pages := Suc (nm_pages m), nm_receive_buffers := rb,
                               nm_free_receive := (nm_free_receive m)[index := False]\<rparr>)))
         else Inr ((index, the (nm_receive_buffers m ! index)),
                   m\<lparr>nm_free_receive := (nm_free_receive m)[index := False]\<rparr>))"

text \<open>\<open>std::bitset::set\<close> throws \<open>std::out_of_range\<close> beyond the size.\<close>

definition free_recv_buffer :: "nat \<Rightarrow> network_memory \<Rightarrow> network_memory res" where
  "free_recv_buffer index m =
     (if index \<ge> MAX_QUEUE_PAIRS then Inl (Uncaught_exception ''std::out_of_range'')
      else Inr (m\<lparr>nm_free_receive := (nm_free_receive m)[index := True]\<rparr>))"

text \<open>
  The pages of receive buffers fill the array from the front; \<open>pg\<close> names the page of each group. An index
  without a page is free, and distinct indices have distinct buffers.
\<close>

definition pages_ok :: "network_memory \<Rightarrow> nat \<Rightarrow> (nat \<Rightarrow> nat) \<Rightarrow> bool" where
  "pages_ok m n pg \<longleftrightarrow>
     n * BUFFERS_PER_PAGE \<le> MAX_QUEUE_PAIRS \<and> inj_on pg {..<n} \<and> (\<forall>g < n. pg g < nm_pages m) \<and>
     (\<forall>i < MAX_QUEUE_PAIRS.
        nm_receive_buffers m ! i =
          (if i < n * BUFFERS_PER_PAGE
           then Some (pg (i div BUFFERS_PER_PAGE), i mod BUFFERS_PER_PAGE * RECEIVE_BUFFER_SIZE) else None) \<and>
        (n * BUFFERS_PER_PAGE \<le> i \<longrightarrow> nm_free_receive m ! i))"

definition receive_inv :: "nat set \<Rightarrow> network_memory \<Rightarrow> bool" where
  "receive_inv U m \<longleftrightarrow>
     length (nm_free_receive m) = MAX_QUEUE_PAIRS \<and> length (nm_receive_buffers m) = MAX_QUEUE_PAIRS \<and>
     U = {i. i < MAX_QUEUE_PAIRS \<and> \<not> nm_free_receive m ! i} \<and> (\<exists>n pg. pages_ok m n pg)"

lemma BUFFERS_PER_PAGE_value: "BUFFERS_PER_PAGE = 8" "BUFFERS_PER_PAGE dvd MAX_QUEUE_PAIRS"
  by (simp_all add: BUFFERS_PER_PAGE_def consts_defs)

lemma receive_inv_init: "receive_inv {} network_memory_init"
  by (auto simp: receive_inv_def pages_ok_def network_memory_init_def intro!: exI [of _ "0 :: nat"])

lemma find_first_less: "find_first bs \<le> length bs"
  by (simp add: find_first_def length_takeWhile_le)

lemma find_first_free: "find_first bs < length bs \<Longrightarrow> bs ! find_first bs"
  using nth_length_takeWhile [of Not bs] by (simp add: find_first_def)

lemma find_first_before: "i < find_first bs \<Longrightarrow> \<not> bs ! i"
  using nth_mem [of i "takeWhile Not bs"] set_takeWhileD [of _ Not bs] takeWhile_nth [of i Not bs]
  by (fastforce simp: find_first_def)

lemma write_page_length [simp]: "length (write_page p index is rb) = length rb"
  by (induction p index "is" rb rule: write_page.induct) simp_all

lemma write_page_nth:
  assumes "k < length rb" and "distinct is"
  shows "write_page p index is rb ! k =
         (if \<exists>i \<in> set is. k = index + i then Some (p, (k - index) * RECEIVE_BUFFER_SIZE) else rb ! k)"
  using assms by (induction "is" arbitrary: rb) (auto simp: nth_list_update)

text \<open>A page is written behind the \<open>n\<close> pages that are there.\<close>

lemma write_page_pages:
  assumes rb: "\<forall>i < MAX_QUEUE_PAIRS. rb ! i =
      (if i < n * BUFFERS_PER_PAGE then Some (pg (i div BUFFERS_PER_PAGE), i mod BUFFERS_PER_PAGE * RECEIVE_BUFFER_SIZE) else None)"
    and len: "length rb = MAX_QUEUE_PAIRS" and i: "i < MAX_QUEUE_PAIRS"
  shows "write_page p (n * BUFFERS_PER_PAGE) [0..<BUFFERS_PER_PAGE] rb ! i =
    (if i < Suc n * BUFFERS_PER_PAGE
     then Some ((pg(n := p)) (i div BUFFERS_PER_PAGE), i mod BUFFERS_PER_PAGE * RECEIVE_BUFFER_SIZE) else None)"
proof -
  let ?B = BUFFERS_PER_PAGE
  consider "i < n * ?B" | j where "j < ?B" "i = n * ?B + j" | "Suc n * ?B \<le> i"
    by (metis add.commute add_diff_inverse_nat less_diff_conv mult_Suc nat_add_left_cancel_less not_less)
  then show ?thesis
  proof cases
    case 1
    then have "i div ?B < n"
      by (simp add: less_mult_imp_div_less)
    with 1 i len rb show ?thesis
      by (simp add: write_page_nth)
  qed (use i len rb in \<open>simp_all add: write_page_nth\<close>)
qed

lemma pages_ok_add:
  assumes ok: "pages_ok m n pg" and len: "length (nm_receive_buffers m) = MAX_QUEUE_PAIRS"
    and room: "Suc n * BUFFERS_PER_PAGE \<le> MAX_QUEUE_PAIRS"
  shows "pages_ok (m\<lparr>nm_pages := Suc (nm_pages m),
    nm_receive_buffers := write_page (nm_pages m) (n * BUFFERS_PER_PAGE) [0..<BUFFERS_PER_PAGE] (nm_receive_buffers m),
    nm_free_receive := (nm_free_receive m)[n * BUFFERS_PER_PAGE := False]\<rparr>) (Suc n) (pg(n := nm_pages m))"
proof -
  have rb: "\<forall>i < MAX_QUEUE_PAIRS. nm_receive_buffers m ! i =
      (if i < n * BUFFERS_PER_PAGE then Some (pg (i div BUFFERS_PER_PAGE), i mod BUFFERS_PER_PAGE * RECEIVE_BUFFER_SIZE) else None)"
    using ok by (simp add: pages_ok_def)
  have "inj_on (pg(n := nm_pages m)) {..<Suc n}" "\<forall>g < Suc n. (pg(n := nm_pages m)) g < Suc (nm_pages m)"
    using ok by (auto simp: pages_ok_def inj_on_def less_Suc_eq)
  moreover have "(nm_free_receive m)[n * BUFFERS_PER_PAGE := False] ! i" if "i < MAX_QUEUE_PAIRS" "Suc n * BUFFERS_PER_PAGE \<le> i" for i
    using ok that by (simp add: pages_ok_def BUFFERS_PER_PAGE_value)
  ultimately show ?thesis
    unfolding pages_ok_def using room write_page_pages [OF rb len] by simp
qed

lemma pages_ok_mark: "pages_ok m n pg \<Longrightarrow> index < n * BUFFERS_PER_PAGE \<Longrightarrow>
    pages_ok (m\<lparr>nm_free_receive := (nm_free_receive m)[index := False]\<rparr>) n pg"
  by (simp add: pages_ok_def)

lemma create_receive_buffer_cases:
  assumes run: "create_receive_buffer m = Inr ((index, addr), m')" and ok: "pages_ok m n pg"
    and len: "length (nm_free_receive m) = MAX_QUEUE_PAIRS" "length (nm_receive_buffers m) = MAX_QUEUE_PAIRS"
  shows "\<exists>n' pg'. pages_ok m' n' pg'" and "nm_receive_buffers m' ! index = Some addr"
    and "length (nm_receive_buffers m') = MAX_QUEUE_PAIRS"
proof -
  let ?M = MAX_QUEUE_PAIRS and ?B = BUFFERS_PER_PAGE
  have idx: "index = find_first (nm_free_receive m)" "index < ?M"
    using run find_first_less [of "nm_free_receive m"] len by (auto simp: create_receive_buffer_def Let_def split: if_splits)
  have rb: "nm_receive_buffers m ! i = (if i < n * ?B then Some (pg (i div ?B), i mod ?B * RECEIVE_BUFFER_SIZE) else None)"
    "n * ?B \<le> i \<Longrightarrow> nm_free_receive m ! i" if "i < ?M" for i
    using ok that by (simp_all add: pages_ok_def)
  have "(\<exists>n' pg'. pages_ok m' n' pg') \<and> nm_receive_buffers m' ! index = Some addr \<and> length (nm_receive_buffers m') = ?M"
  proof (cases "index < n * ?B")
    case True
    then have m': "m' = m\<lparr>nm_free_receive := (nm_free_receive m)[index := False]\<rparr>" "addr = the (nm_receive_buffers m ! index)"
      using run rb idx by (auto simp: create_receive_buffer_def Let_def split: if_splits)
    with pages_ok_mark [OF ok True] rb(1) [OF idx(2)] True len show ?thesis
      by auto
  next
    case False
    then have at: "index = n * ?B"
      using find_first_before [of "n * ?B" "nm_free_receive m"] rb(2) [of "n * ?B"] idx by (cases "n * ?B < index") auto
    have room: "Suc n * ?B \<le> ?M"
      using at idx(2) by (simp add: BUFFERS_PER_PAGE_value(1) MAX_QUEUE_PAIRS_def)
    let ?rb = "write_page (nm_pages m) (n * ?B) [0..<?B] (nm_receive_buffers m)"
    have m': "m' = m\<lparr>nm_pages := Suc (nm_pages m), nm_receive_buffers := ?rb,
        nm_free_receive := (nm_free_receive m)[n * ?B := False]\<rparr>" "addr = the (?rb ! (n * ?B))"
      using run rb idx at room by (auto simp: create_receive_buffer_def Let_def split: if_splits)
    have "?rb ! (n * ?B) = Some (nm_pages m, 0)"
      using len idx(2) at by (subst write_page_nth) (auto simp: BUFFERS_PER_PAGE_value)
    with pages_ok_add [OF ok len(2) room] len show ?thesis
      by (auto simp: m' at)
  qed
  then show "\<exists>n' pg'. pages_ok m' n' pg'" "nm_receive_buffers m' ! index = Some addr" "length (nm_receive_buffers m') = ?M"
    by simp_all
qed

lemma create_receive_buffer_ok:
  assumes inv: "receive_inv U m" and run: "create_receive_buffer m = Inr ((index, addr), m')"
  shows "index \<notin> U" and "receive_inv (insert index U) m'" and "nm_receive_buffers m' ! index = Some addr"
proof -
  obtain n pg where len: "length (nm_free_receive m) = MAX_QUEUE_PAIRS" "length (nm_receive_buffers m) = MAX_QUEUE_PAIRS"
    and U: "U = {i. i < MAX_QUEUE_PAIRS \<and> \<not> nm_free_receive m ! i}" and ok: "pages_ok m n pg"
    using inv by (auto simp: receive_inv_def)
  have idx: "index = find_first (nm_free_receive m)" "index < MAX_QUEUE_PAIRS"
    and m': "nm_free_receive m' = (nm_free_receive m)[index := False]"
    using run find_first_less [of "nm_free_receive m"] len by (auto simp: create_receive_buffer_def Let_def split: if_splits)
  show "index \<notin> U"
    using find_first_free [of "nm_free_receive m"] idx len by (simp add: U)
  note result = create_receive_buffer_cases [OF run ok len]
  have "insert index U = {i. i < MAX_QUEUE_PAIRS \<and> \<not> nm_free_receive m' ! i}"
    using idx len by (auto simp: U m' nth_list_update)
  with result len show "receive_inv (insert index U) m'" "nm_receive_buffers m' ! index = Some addr"
    by (simp_all add: receive_inv_def m')
qed

definition release :: "nat \<Rightarrow> network_memory \<Rightarrow> network_memory" where
  "release index m = (case free_recv_buffer index m of Inr m' \<Rightarrow> m' | Inl _ \<Rightarrow> m)"

definition acquire :: "network_memory \<Rightarrow> (nat \<times> network_memory) res" where
  "acquire m = rbind (create_receive_buffer m) (\<lambda>((index, _), m'). Inr (index, m'))"

interpretation rb: pool acquire release receive_inv
proof (unfold_locales, goal_cases)
  case (1 U s r s')
  then show ?case
    using create_receive_buffer_ok [OF 1(1)] by (auto simp: acquire_def rbind_eq_Inr)
next
  case (2 U s r)
  then have r: "r < MAX_QUEUE_PAIRS" and len: "length (nm_free_receive s) = MAX_QUEUE_PAIRS"
    by (auto simp: receive_inv_def)
  have rel: "release r s = s\<lparr>nm_free_receive := (nm_free_receive s)[r := True]\<rparr>"
    using r by (simp add: release_def free_recv_buffer_def)
  have upd: "(nm_free_receive s)[r := True] ! i \<longleftrightarrow> i = r \<or> nm_free_receive s ! i" for i
    using r len by (cases "i = r") simp_all
  have "pages_ok (release r s) n pg" if "pages_ok s n pg" for n pg
    using that unfolding pages_ok_def rel by (simp add: upd)
  then show ?case
    using 2 r len unfolding receive_inv_def by (auto simp: rel nth_list_update)
qed

subsection \<open>Properties\<close>

lemma buffers_inv_init: "buffers_inv {} network_memory_init"
  by (simp add: buffers_inv_def network_memory_init_def)

lemma buffers_apart:
  fixes j k :: nat
  assumes "SEND_BUFFER_SIZE dvd j" and "SEND_BUFFER_SIZE dvd k" and "(p, j) \<noteq> (q, k)"
  shows "p \<noteq> q \<or> j + SEND_BUFFER_SIZE \<le> k \<or> k + SEND_BUFFER_SIZE \<le> j"
proof -
  obtain a b where ab: "j = SEND_BUFFER_SIZE * a" "k = SEND_BUFFER_SIZE * b" "p \<noteq> q \<or> a \<noteq> b"
    using assms by (auto elim!: dvdE)
  then consider "p \<noteq> q" | "Suc a \<le> b" | "Suc b \<le> a" by linarith
  then show ?thesis
  proof cases
    case 2
    with mult_le_mono2 [OF 2, of SEND_BUFFER_SIZE] show ?thesis by (simp add: ab(1,2))
  next
    case 3
    with mult_le_mono2 [OF 3, of SEND_BUFFER_SIZE] show ?thesis by (simp add: ab(1,2))
  qed simp
qed

text \<open>
  However connections are opened and closed, the receive buffer that a new connection gets is not in use by another
  one, and different indices never share memory.
\<close>

theorem receive_buffers_exclusive:
  assumes "pool_run acquire release {} network_memory_init V m" and "create_receive_buffer m = Inr ((index, addr), m')"
  shows "index \<notin> V \<and> nm_receive_buffers m' ! index = Some addr \<and>
    (\<forall>i \<in> V. \<exists>p j. nm_receive_buffers m' ! i = Some (p, j) \<and>
       (p \<noteq> fst addr \<or> j + RECEIVE_BUFFER_SIZE \<le> snd addr \<or> snd addr + RECEIVE_BUFFER_SIZE \<le> j))"
proof -
  have inv: "receive_inv V m"
    using rb.run_inv [OF assms(1) receive_inv_init] .
  note ok = create_receive_buffer_ok [OF inv assms(2)]
  obtain n pg where pg: "pages_ok m' n pg"
    using ok(2) by (auto simp: receive_inv_def)
  have used: "i < MAX_QUEUE_PAIRS \<and> \<not> nm_free_receive m' ! i" if "i \<in> insert index V" for i
    using ok(2) that by (auto simp: receive_inv_def)
  have at: "nm_receive_buffers m' ! i = Some (pg (i div BUFFERS_PER_PAGE), i mod BUFFERS_PER_PAGE * RECEIVE_BUFFER_SIZE) \<and>
      i div BUFFERS_PER_PAGE < n" if "i \<in> insert index V" for i
  proof -
    have "i < n * BUFFERS_PER_PAGE"
      using pg used [OF that] by (auto simp: pages_ok_def not_less [symmetric])
    then show ?thesis
      using pg used [OF that] by (simp add: pages_ok_def less_mult_imp_div_less)
  qed
  have addr: "addr = (pg (index div BUFFERS_PER_PAGE), index mod BUFFERS_PER_PAGE * RECEIVE_BUFFER_SIZE)"
    using at [of index] ok(3) by simp
  have "pg (i div BUFFERS_PER_PAGE) \<noteq> fst addr \<or> i mod BUFFERS_PER_PAGE * RECEIVE_BUFFER_SIZE + RECEIVE_BUFFER_SIZE \<le> snd addr \<or>
      snd addr + RECEIVE_BUFFER_SIZE \<le> i mod BUFFERS_PER_PAGE * RECEIVE_BUFFER_SIZE" if "i \<in> V" for i
  proof (cases "i div BUFFERS_PER_PAGE = index div BUFFERS_PER_PAGE")
    case True
    then have "i mod BUFFERS_PER_PAGE \<noteq> index mod BUFFERS_PER_PAGE"
      using ok(1) that by (metis div_mult_mod_eq)
    then consider "Suc (i mod BUFFERS_PER_PAGE) \<le> index mod BUFFERS_PER_PAGE" | "Suc (index mod BUFFERS_PER_PAGE) \<le> i mod BUFFERS_PER_PAGE"
      by linarith
    then show ?thesis
    proof cases
      case 1
      from mult_le_mono1 [OF 1, of RECEIVE_BUFFER_SIZE] show ?thesis by (simp add: addr)
    next
      case 2
      from mult_le_mono1 [OF 2, of RECEIVE_BUFFER_SIZE] show ?thesis by (simp add: addr)
    qed
  next
    case False
    moreover have "inj_on pg {..<n}"
      using pg by (simp add: pages_ok_def)
    ultimately show ?thesis
      using at [of i] at [of index] that by (auto simp: addr inj_on_def)
  qed
  with at ok show ?thesis by auto
qed

lemma example_receive_buffer:
  "create_receive_buffer network_memory_init =
     (let rb = write_page 0 0 [0..<BUFFERS_PER_PAGE] (replicate MAX_QUEUE_PAIRS None)
      in Inr ((0, the (rb ! 0)), network_memory_init\<lparr>nm_pages := 1, nm_receive_buffers := rb,
                nm_free_receive := (replicate MAX_QUEUE_PAIRS True)[0 := False]\<rparr>))"
proof -
  have "0 < MAX_QUEUE_PAIRS" "BUFFERS_PER_PAGE \<le> MAX_QUEUE_PAIRS"
    by (simp_all add: MAX_QUEUE_PAIRS_def BUFFERS_PER_PAGE_value)
  moreover have "find_first (replicate MAX_QUEUE_PAIRS True) = 0"
    by (simp add: find_first_def takeWhile_replicate)
  ultimately show ?thesis
    by (simp add: create_receive_buffer_def network_memory_init_def Let_def)
qed

end
