(* ===== verification/Send_Queue.thy ===== *)
theory Send_Queue
  imports Zip_Util
begin

unbundle bit_operations_syntax

text \<open>
  The sending half of the transport, \<open>src/network/send_queue.h\<close> and \<open>src/network/send_queue.cpp\<close>: a send
  writes the message into the ring of the receiver by RDMA, with an immediate value that says where,
  and asks for a completion often enough never to overrun the device's queue.

  The device is an argument: \<open>dev_poll1\<close> and \<open>dev_poll2\<close> are the statuses that the two calls of
  \<open>detail::poll\<close> find, \<open>dev_post\<close> the result of \<open>ibv_post_send\<close>.
\<close>

subsection \<open>State\<close>

record send_queue =
  sq_index :: u64
  sq_address :: u64
  sq_remote_key :: nat
  sq_xrc_queue_nums :: "nat list"
  sq_offset :: u64
  sq_sent_messages :: u64
  sq_max_outstanding :: u64
  sq_assert_on_failure :: bool

definition send_queue_init :: "u64 \<Rightarrow> u64 \<Rightarrow> nat \<Rightarrow> nat list \<Rightarrow> send_queue" where
  "send_queue_init index address remote_key xrc_queue_nums =
     \<lparr>sq_index = index, sq_address = address, sq_remote_key = remote_key,
      sq_xrc_queue_nums = xrc_queue_nums, sq_offset = 0, sq_sent_messages = 0,
      sq_max_outstanding = MAX_OUTSTANDING_REQUESTS, sq_assert_on_failure = True\<rparr>"

definition set_max_outstanding :: "u64 \<Rightarrow> send_queue \<Rightarrow> send_queue res" where
  "set_max_outstanding n q =
     (if \<not> n \<le> MAX_OUTSTANDING_REQUESTS
      then Inl (Assert_failed ''invalid value of maximum outstanding messages'')
      else Inr (q\<lparr>sq_max_outstanding := n\<rparr>))"

definition set_assert_on_failure :: "bool \<Rightarrow> send_queue \<Rightarrow> send_queue" where
  "set_assert_on_failure b q = q\<lparr>sq_assert_on_failure := b\<rparr>"

record device =
  dev_poll1 :: int
  dev_post :: int
  dev_poll2 :: int

record work_request =
  wr_remote_addr :: u64
  wr_length :: nat
  wr_imm :: nat
  wr_rkey :: nat
  wr_srqn :: nat
  wr_signaled :: bool
  wr_inline :: bool

text \<open>What a call of \<open>send\<close> did: its return value, what it posted, how often it polled for a completion.\<close>

record send_result =
  sr_ret :: int
  sr_posted :: "work_request list"
  sr_polls :: nat

subsection \<open>The ring\<close>

definition ring_start :: "u64 \<Rightarrow> nat \<Rightarrow> u64" where
  "ring_start offset len = (if offset + len \<le> RECEIVE_BUFFER_SIZE then offset else 0)"

definition ring_next :: "u64 \<Rightarrow> nat \<Rightarrow> u64" where
  "ring_next offset len = align_pow2 6 (ring_start offset len + len)"

definition encode_imm :: "u64 \<Rightarrow> u64 \<Rightarrow> nat" where
  "encode_imm index offset = (index OR offset * MAX_QUEUE_PAIRS) mod 2 ^ 32"

subsection \<open>send\<close>

text \<open>\<open>HANDLE_ERROR\<close>: end the process, return the error, or go on.\<close>

definition handle_error :: "bool \<Rightarrow> int \<Rightarrow> string \<Rightarrow> 'a res \<Rightarrow> 'a res \<Rightarrow> 'a res" where
  "handle_error assert_on_failure err errstr early continue =
     (if err = 0 then continue
      else if assert_on_failure then Inl (Assert_failed errstr) else early)"

definition poll_error :: string where "poll_error = ''could not poll completion queue''"
definition post_error :: string where "post_error = ''could not post send request''"

text \<open>
  The body the two overloads share, after the check of the length: \<open>inline_flag\<close> is set by the overload
  for plain memory always, by the one for network buffers for short messages.
\<close>

definition send_body ::
  "bool \<Rightarrow> device \<Rightarrow> nat \<Rightarrow> u64 \<Rightarrow> bool \<Rightarrow> send_queue \<Rightarrow> nat \<Rightarrow> (send_queue \<times> send_result) res" where
  "send_body inline_flag dev len destination synchronize q polls =
     (let sent = (if synchronize then sq_sent_messages q else u64_add (sq_sent_messages q) 1);
          signaled = (synchronize \<or> sent \<ge> sq_max_outstanding q);
          start = ring_start (sq_offset q) len;
          wr = \<lparr>wr_remote_addr = u64_add (sq_address q) start, wr_length = len,
                wr_imm = encode_imm (sq_index q) start, wr_rkey = sq_remote_key q,
                wr_srqn = sq_xrc_queue_nums q ! (destination mod length (sq_xrc_queue_nums q)),
                wr_signaled = signaled, wr_inline = inline_flag\<rparr>;
          q' = q\<lparr>sq_sent_messages := sent, sq_offset := ring_next (sq_offset q) len\<rparr>
      in if sq_xrc_queue_nums q = [] then Inl Div_by_zero
         else handle_error (sq_assert_on_failure q) (dev_post dev) post_error
                (Inr (q', \<lparr>sr_ret = dev_post dev, sr_posted = [], sr_polls = polls\<rparr>))
                (if synchronize
                 then handle_error (sq_assert_on_failure q) (dev_poll2 dev) poll_error
                        (Inr (q', \<lparr>sr_ret = dev_poll2 dev, sr_posted = [wr], sr_polls = Suc polls\<rparr>))
                        (Inr (q'\<lparr>sq_sent_messages := 0\<rparr>, \<lparr>sr_ret = 0, sr_posted = [wr], sr_polls = Suc polls\<rparr>))
                 else Inr (q', \<lparr>sr_ret = 0, sr_posted = [wr], sr_polls = polls\<rparr>)))"

definition send_common ::
  "bool \<Rightarrow> device \<Rightarrow> nat \<Rightarrow> u64 \<Rightarrow> bool \<Rightarrow> send_queue \<Rightarrow> (send_queue \<times> send_result) res" where
  "send_common inline_flag dev len destination synchronize q =
     (if sq_sent_messages q \<ge> sq_max_outstanding q
      then handle_error (sq_assert_on_failure q) (dev_poll1 dev) poll_error
             (Inr (q, \<lparr>sr_ret = dev_poll1 dev, sr_posted = [], sr_polls = 1\<rparr>))
             (send_body inline_flag dev len destination synchronize (q\<lparr>sq_sent_messages := 0\<rparr>) 1)
      else send_body inline_flag dev len destination synchronize q 0)"

definition too_large :: fault where
  "too_large = Assert_failed ''could not send message this large''"

definition send_memory ::
  "device \<Rightarrow> nat \<Rightarrow> u64 \<Rightarrow> bool \<Rightarrow> send_queue \<Rightarrow> (send_queue \<times> send_result) res" where
  "send_memory dev len destination synchronize q =
     (if \<not> len \<le> MAX_INLINE_DATA then Inl too_large
      else send_common True dev len destination synchronize q)"

definition send_buffer ::
  "device \<Rightarrow> nat \<Rightarrow> u64 \<Rightarrow> bool \<Rightarrow> send_queue \<Rightarrow> (send_queue \<times> send_result) res" where
  "send_buffer dev len destination synchronize q =
     (if \<not> len \<le> SEND_BUFFER_SIZE then Inl too_large
      else send_common (len \<le> MAX_INLINE_DATA) dev len destination synchronize q)"

subsection \<open>Completions\<close>

text \<open>
  \<open>pending\<close> signaled requests whose completion has not been polled: \<open>detail::poll\<close> waits for ever when
  there is none. The invariant says exactly when there is one.
\<close>

definition queue_ok :: "send_queue \<Rightarrow> bool" where
  "queue_ok q \<longleftrightarrow>
     0 < sq_max_outstanding q \<and> sq_max_outstanding q \<le> MAX_OUTSTANDING_REQUESTS \<and>
     sq_sent_messages q \<le> sq_max_outstanding q \<and> sq_xrc_queue_nums q \<noteq> [] \<and> sq_index q < MAX_QUEUE_PAIRS"

definition pending :: "send_queue \<Rightarrow> nat" where
  "pending q = (if sq_sent_messages q \<ge> sq_max_outstanding q then 1 else 0)"

abbreviation signaled_count :: "work_request list \<Rightarrow> nat" where
  "signaled_count wrs \<equiv> length (filter wr_signaled wrs)"

lemma MAX_OUTSTANDING_small: "MAX_OUTSTANDING_REQUESTS < 2 ^ 64"
  by (simp add: consts_defs)

definition dev_ok :: "device \<Rightarrow> bool" where
  "dev_ok dev \<longleftrightarrow> dev_poll1 dev = 0 \<and> dev_post dev = 0 \<and> dev_poll2 dev = 0"

lemma send_common_ok:
  assumes ok: "queue_ok q" and dev: "dev_ok dev"
  obtains q' r where
    "send_common fl dev len destination synchronize q = Inr (q', r)" "sr_ret r = 0"
    "queue_ok q'" "sq_offset q' = ring_next (sq_offset q) len"
    "\<exists>sg. sr_posted r = [\<lparr>wr_remote_addr = u64_add (sq_address q) (ring_start (sq_offset q) len), wr_length = len,
        wr_imm = encode_imm (sq_index q) (ring_start (sq_offset q) len), wr_rkey = sq_remote_key q,
        wr_srqn = sq_xrc_queue_nums q ! (destination mod length (sq_xrc_queue_nums q)),
        wr_signaled = sg, wr_inline = fl\<rparr>]"
    "sr_polls r + pending q' = pending q + signaled_count (sr_posted r)"
    "synchronize \<Longrightarrow> pending q' = 0 \<and> sq_sent_messages q' = 0"
    "sq_sent_messages q' \<le> Suc (sq_sent_messages q)"
proof -
  define p where "p = (if sq_sent_messages q \<ge> sq_max_outstanding q then q\<lparr>sq_sent_messages := 0\<rparr> else q)"
  have p: "sq_sent_messages p < sq_max_outstanding p" "queue_ok p" "sq_max_outstanding p = sq_max_outstanding q"
      "sq_offset p = sq_offset q" "sq_address p = sq_address q" "sq_index p = sq_index q"
      "sq_remote_key p = sq_remote_key q" "sq_xrc_queue_nums p = sq_xrc_queue_nums q"
      "sq_sent_messages p \<le> sq_sent_messages q"
    using ok by (auto simp: p_def queue_ok_def)
  have run: "send_common fl dev len destination synchronize q = send_body fl dev len destination synchronize p (pending q)"
    using dev by (simp add: send_common_def p_def pending_def handle_error_def dev_ok_def)
  have "sq_sent_messages p + 1 < 2 ^ 64"
    using p ok MAX_OUTSTANDING_small by (simp add: queue_ok_def)
  from u64_add_small [OF this] have inc: "u64_add (sq_sent_messages p) (Suc 0) = Suc (sq_sent_messages p)"
    by simp
  have ne: "sq_xrc_queue_nums q \<noteq> []"
    using ok by (simp add: queue_ok_def)
  show thesis
  proof (cases synchronize)
    case True
    then show thesis
      using dev ne p(1,2)
      by (intro that, unfold run) (auto simp: send_body_def Let_def handle_error_def dev_ok_def p pending_def queue_ok_def)
  next
    case False
    then show thesis
      using dev ne p(1,2,9)
      by (intro that, unfold run) (auto simp: send_body_def Let_def handle_error_def dev_ok_def p pending_def
          queue_ok_def inc)
  qed
qed

subsection \<open>Sequences of sends\<close>

text \<open>
  A message of a sequence: what the device does with it, whether it is sent from plain memory or from a network buffer,
  its length, the destination receive queue and the flag \<open>synchronize\<close>.
\<close>

record outgoing =
  og_device :: device
  og_plain :: bool
  og_length :: nat
  og_destination :: u64
  og_synchronize :: bool

definition send_one :: "outgoing \<Rightarrow> send_queue \<Rightarrow> (send_queue \<times> send_result) res" where
  "send_one m q =
     (if og_plain m then send_memory (og_device m) (og_length m) (og_destination m) (og_synchronize m) q
      else send_buffer (og_device m) (og_length m) (og_destination m) (og_synchronize m) q)"

fun send_all :: "outgoing list \<Rightarrow> send_queue \<Rightarrow> (send_queue \<times> send_result list) res" where
  "send_all [] q = Inr (q, [])"
| "send_all (m # ms) q = rbind (send_one m q) (\<lambda>(q', r). rbind (send_all ms q') (\<lambda>(q'', rs). Inr (q'', r # rs)))"

definition fits :: "outgoing \<Rightarrow> bool" where
  "fits m \<longleftrightarrow> 0 < og_length m \<and> og_length m \<le> (if og_plain m then MAX_INLINE_DATA else SEND_BUFFER_SIZE)"

lemma fits_buffer: "fits m \<Longrightarrow> 0 < og_length m \<and> og_length m \<le> SEND_BUFFER_SIZE"
  by (auto simp: fits_def consts_defs split: if_splits)

text \<open>Where the messages of a sequence start in the ring.\<close>

fun ring_starts :: "u64 \<Rightarrow> nat list \<Rightarrow> u64 list" where
  "ring_starts offset [] = []"
| "ring_starts offset (len # lens) = ring_start offset len # ring_starts (ring_next offset len) lens"

text \<open>
  At every moment of the sequence, the polls so far do not exceed the signaled requests posted before
  them: \<open>detail::poll\<close> always has a completion to wait for.
\<close>

fun polls_served :: "nat \<Rightarrow> send_result list \<Rightarrow> bool" where
  "polls_served n [] \<longleftrightarrow> True"
| "polls_served n (r # rs) \<longleftrightarrow>
     sr_polls r \<le> n + signaled_count (sr_posted r) \<and>
     polls_served (n + signaled_count (sr_posted r) - sr_polls r) rs"

text \<open>What was done for a message that is placed at \<open>start\<close>: one request, to this place of the ring of queue \<open>q\<close>.\<close>

definition posted_at :: "send_queue \<Rightarrow> outgoing \<Rightarrow> u64 \<Rightarrow> send_result \<Rightarrow> bool" where
  "posted_at q m start r \<longleftrightarrow> sr_ret r = 0 \<and>
     (\<exists>wr. sr_posted r = [wr] \<and> wr_remote_addr wr = u64_add (sq_address q) start \<and> wr_length wr = og_length m \<and>
       wr_imm wr = encode_imm (sq_index q) start \<and>
       wr_srqn wr = sq_xrc_queue_nums q ! (og_destination m mod length (sq_xrc_queue_nums q)))"

definition same_peer :: "send_queue \<Rightarrow> send_queue \<Rightarrow> bool" where
  "same_peer p q \<longleftrightarrow> sq_index p = sq_index q \<and> sq_address p = sq_address q \<and> sq_xrc_queue_nums p = sq_xrc_queue_nums q \<and>
     sq_assert_on_failure p = sq_assert_on_failure q"

lemma posted_at_same_peer: "same_peer p q \<Longrightarrow> posted_at p = posted_at q"
  by (simp add: same_peer_def posted_at_def fun_eq_iff)

lemma send_body_peer: "send_body fl dev len d sy q n = Inr (q', r) \<Longrightarrow> same_peer q' q"
  by (auto simp: same_peer_def send_body_def handle_error_def Let_def split: if_split_asm)

lemma send_common_peer: "send_common fl dev len d sy q = Inr (q', r) \<Longrightarrow> same_peer q' q"
  using send_body_peer [of fl dev len d sy "q\<lparr>sq_sent_messages := 0\<rparr>"] send_body_peer [of fl dev len d sy q]
  by (auto simp: send_common_def handle_error_def same_peer_def split: if_split_asm)

lemma send_one_common: "fits m \<Longrightarrow> send_one m q = send_common (og_plain m \<or> og_length m \<le> MAX_INLINE_DATA)
    (og_device m) (og_length m) (og_destination m) (og_synchronize m) q"
  by (auto simp: send_one_def fits_def send_memory_def send_buffer_def split: if_splits)

lemma send_one_ok:
  assumes ok: "queue_ok q" and m: "fits m" "dev_ok (og_device m)"
  obtains q' r where "send_one m q = Inr (q', r)" "queue_ok q'" "sq_offset q' = ring_next (sq_offset q) (og_length m)"
    "posted_at q m (ring_start (sq_offset q) (og_length m)) r"
    "sr_polls r + pending q' = pending q + signaled_count (sr_posted r)" "same_peer q' q"
proof -
  obtain q' r where run: "send_common (og_plain m \<or> og_length m \<le> MAX_INLINE_DATA) (og_device m) (og_length m)
        (og_destination m) (og_synchronize m) q = Inr (q', r)"
    "sr_ret r = 0" "queue_ok q'" "sq_offset q' = ring_next (sq_offset q) (og_length m)"
    "\<exists>sg. sr_posted r = [\<lparr>wr_remote_addr = u64_add (sq_address q) (ring_start (sq_offset q) (og_length m)), wr_length = og_length m,
        wr_imm = encode_imm (sq_index q) (ring_start (sq_offset q) (og_length m)), wr_rkey = sq_remote_key q,
        wr_srqn = sq_xrc_queue_nums q ! (og_destination m mod length (sq_xrc_queue_nums q)),
        wr_signaled = sg, wr_inline = (og_plain m \<or> og_length m \<le> MAX_INLINE_DATA)\<rparr>]"
    "sr_polls r + pending q' = pending q + signaled_count (sr_posted r)"
    using send_common_ok [OF ok m(2)] by metis
  have "posted_at q m (ring_start (sq_offset q) (og_length m)) r"
    using run(2,5) by (auto simp: posted_at_def)
  with that [of q' r] run send_common_peer [OF run(1)] send_one_common [OF m(1)] show thesis
    by simp
qed

lemma send_all_ok:
  assumes "queue_ok q" and "\<forall>m \<in> set ms. fits m \<and> dev_ok (og_device m)"
  shows "\<exists>q' rs. send_all ms q = Inr (q', rs) \<and> queue_ok q' \<and> same_peer q' q \<and> polls_served (pending q) rs \<and>
           length rs = length ms \<and>
           (\<forall>i < length ms. posted_at q (ms ! i) (ring_starts (sq_offset q) (map og_length ms) ! i) (rs ! i))"
  using assms
proof (induction ms arbitrary: q)
  case (Cons m ms)
  then have m: "fits m" "dev_ok (og_device m)" by simp_all
  obtain q' r where step: "send_one m q = Inr (q', r)" "queue_ok q'" "sq_offset q' = ring_next (sq_offset q) (og_length m)"
    "posted_at q m (ring_start (sq_offset q) (og_length m)) r"
    "sr_polls r + pending q' = pending q + signaled_count (sr_posted r)" "same_peer q' q"
    using send_one_ok [OF Cons.prems(1) m] .
  obtain q'' rs where rest: "send_all ms q' = Inr (q'', rs)" "queue_ok q''" "same_peer q'' q'" "polls_served (pending q') rs"
    "length rs = length ms"
    "\<forall>i < length ms. posted_at q (ms ! i) (ring_starts (ring_next (sq_offset q) (og_length m)) (map og_length ms) ! i) (rs ! i)"
    using Cons.IH [OF step(2)] Cons.prems(2) step(3) posted_at_same_peer [OF step(6)] by auto
  have "pending q + signaled_count (sr_posted r) - sr_polls r = pending q'"
    using step(5) by simp
  moreover have "same_peer q'' q"
    using step(6) rest(3) by (simp add: same_peer_def)
  ultimately show ?case
    using step rest by (auto simp: nth_Cons split: nat.splits)
qed (simp add: same_peer_def)

text \<open>
  The first error that a send meets, in the order in which it asks the device; the result of a send that meets one.
\<close>

definition send_error :: "outgoing \<Rightarrow> send_queue \<Rightarrow> int" where
  "send_error m q =
     (let d = og_device m
      in if pending q = 1 \<and> dev_poll1 d \<noteq> 0 then dev_poll1 d
         else if dev_post d \<noteq> 0 then dev_post d
         else if og_synchronize m then dev_poll2 d else 0)"

lemma send_one_error:
  assumes "queue_ok q" and "fits m" and "send_error m q \<noteq> 0"
  shows "if sq_assert_on_failure q then \<exists>e. send_one m q = Inl (Assert_failed e)
    else \<exists>q' r. send_one m q = Inr (q', r) \<and> sr_ret r = send_error m q"
  using assms
  by (auto simp: send_one_common send_common_def send_body_def handle_error_def send_error_def pending_def queue_ok_def
      Let_def split: if_splits)

subsection \<open>The ring never overwrites a recent message\<close>

lemma ring_size: "RECEIVE_BUFFER_SIZE = 128 * SEND_BUFFER_SIZE"
  by (simp add: consts_defs)

lemma align6: "0 < v \<Longrightarrow> v \<le> RECEIVE_BUFFER_SIZE \<Longrightarrow> align_pow2 6 v = 64 * ((v + 63) div 64)"
  using align_pow2_eq [of v 6] by (simp add: consts_defs)

lemma ring_next_bounds:
  assumes len: "0 < len" "len \<le> SEND_BUFFER_SIZE" and off: "64 dvd offset"
  shows "64 dvd ring_next offset len" "ring_start offset len + len \<le> ring_next offset len"
    "ring_next offset len \<le> ring_start offset len + SEND_BUFFER_SIZE" "ring_next offset len \<le> RECEIVE_BUFFER_SIZE"
    "64 dvd ring_start offset len" "ring_start offset len + len \<le> RECEIVE_BUFFER_SIZE"
proof -
  let ?s = "ring_start offset len"
  show s: "64 dvd ?s"
    using off by (simp add: ring_start_def)
  show fit: "?s + len \<le> RECEIVE_BUFFER_SIZE"
    using len ring_size by (simp add: ring_start_def)
  have eq: "ring_next offset len = 64 * ((?s + len + 63) div 64)"
    unfolding ring_next_def using len fit by (intro align6) simp_all
  show "64 dvd ring_next offset len" "?s + len \<le> ring_next offset len"
    using eq round_up_bounds(2) [of 64 "?s + len"] by simp_all
  obtain a b where a: "?s = 64 * a" and b: "SEND_BUFFER_SIZE = 64 * b"
    using s by (auto simp: dvd_def consts_defs intro: exI [of _ "32 :: nat"])
  obtain c where c: "RECEIVE_BUFFER_SIZE = 64 * c"
    using b ring_size by (metis mult.left_commute)
  have "(?s + len + 63) div 64 \<le> a + b"
    using len a b by simp
  then show "ring_next offset len \<le> ?s + SEND_BUFFER_SIZE"
    unfolding eq a b by simp
  have "(?s + len + 63) div 64 \<le> c"
    using fit c by simp
  then show "ring_next offset len \<le> RECEIVE_BUFFER_SIZE"
    unfolding eq c by simp
qed

lemma ring_starts_length [simp]: "length (ring_starts offset lens) = length lens"
  by (induction offset lens rule: ring_starts.induct) simp_all

lemma ring_starts_drop:
  assumes "\<forall>len \<in> set lens. 0 < len \<and> len \<le> SEND_BUFFER_SIZE" and "64 dvd offset"
  shows "\<exists>offset'. drop i (ring_starts offset lens) = ring_starts offset' (drop i lens) \<and> 64 dvd offset'"
  using assms
proof (induction i arbitrary: offset lens)
  case (Suc i)
  then show ?case
    using ring_next_bounds(1) [of "hd lens" offset] by (cases lens) auto
qed auto

lemma ring_starts_inside:
  assumes "\<forall>len \<in> set lens. 0 < len \<and> len \<le> SEND_BUFFER_SIZE" and "64 dvd offset" and "i < length lens"
  shows "ring_starts offset lens ! i + lens ! i \<le> RECEIVE_BUFFER_SIZE"
  using assms
proof (induction i arbitrary: offset lens)
  case (Suc i)
  then obtain len rest where "lens = len # rest" by (cases lens) auto
  with Suc ring_next_bounds(1) [of len offset] show ?case by auto
next
  case 0
  then show ?case using ring_next_bounds(6) [of "hd lens" offset] by (cases lens) auto
qed

text \<open>
  After \<open>n\<close> messages, the first of which is at \<open>s\<close> and has length \<open>m\<close>: either the ring has not wrapped
  around, or it has and the offset is still behind the first message by more than what was saved.
\<close>

definition behind :: "u64 \<Rightarrow> nat \<Rightarrow> nat \<Rightarrow> u64 \<Rightarrow> bool" where
  "behind s m n offset \<longleftrightarrow>
     s + m \<le> offset \<and> offset \<le> s + n * SEND_BUFFER_SIZE
     \<or> offset + RECEIVE_BUFFER_SIZE < n * SEND_BUFFER_SIZE + SEND_BUFFER_SIZE + s"

lemma behind_step:
  assumes "behind s m n offset" and n: "n < 127" and len: "0 < len" "len \<le> SEND_BUFFER_SIZE"
    and off: "64 dvd offset" and s: "s \<le> RECEIVE_BUFFER_SIZE"
  shows "behind s m (Suc n) (ring_next offset len)"
    and "ring_start offset len + len \<le> s \<or> s + m \<le> ring_start offset len"
proof -
  define B where "B = SEND_BUFFER_SIZE"
  note bounds = ring_next_bounds [OF len off, folded B_def]
  have R: "RECEIVE_BUFFER_SIZE = 128 * B"
    by (simp add: B_def ring_size)
  have nB: "n * B \<le> 126 * B"
    using n by (intro mult_le_mono1) simp
  have lenB: "len \<le> B"
    using len by (simp add: B_def)
  have "behind s m (Suc n) (ring_next offset len) \<and> (ring_start offset len + len \<le> s \<or> s + m \<le> ring_start offset len)"
  proof (cases "s + m \<le> offset \<and> offset \<le> s + n * B")
    case ahead: True
    show ?thesis
    proof (cases "offset + len \<le> RECEIVE_BUFFER_SIZE")
      case True
      with ahead bounds show ?thesis
        by (auto simp: behind_def ring_start_def B_def [symmetric])
    next
      case False
      then have "ring_start offset len = 0" "128 * B < s + n * B + B"
        using ahead lenB by (auto simp: ring_start_def R)
      moreover from this(2) have "B < s"
        using nB by linarith
      ultimately show ?thesis using bounds lenB
        by (auto simp: behind_def R B_def [symmetric])
    qed
  next
    case False
    then have wrapped: "offset + 128 * B < n * B + B + s"
      using assms(1) by (auto simp: behind_def R B_def [symmetric])
    then have before: "offset + B < s"
      using nB by linarith
    then have "offset + len \<le> RECEIVE_BUFFER_SIZE"
      using lenB s by linarith
    then have "ring_start offset len = offset"
      by (simp add: ring_start_def)
    with wrapped bounds lenB before show ?thesis
      by (auto simp: behind_def R B_def [symmetric])
  qed
  then show "behind s m (Suc n) (ring_next offset len)"
    "ring_start offset len + len \<le> s \<or> s + m \<le> ring_start offset len"
    by auto
qed

lemma behind_run:
  assumes "behind s m n offset" and "\<forall>len \<in> set lens. 0 < len \<and> len \<le> SEND_BUFFER_SIZE"
    and "64 dvd offset" and s: "s \<le> RECEIVE_BUFFER_SIZE" and j: "j < length lens" "n + j < 127"
  shows "ring_starts offset lens ! j + lens ! j \<le> s \<or> s + m \<le> ring_starts offset lens ! j"
  using assms(1-3) j
proof (induction j arbitrary: n offset lens)
  case 0
  then show ?case
    using behind_step(2) [OF 0(1), of "hd lens"] s by (cases lens) auto
next
  case (Suc j)
  then obtain len rest where lens: "lens = len # rest"
    by (cases lens) auto
  have len: "0 < len" "len \<le> SEND_BUFFER_SIZE" and n: "n < 127"
    using Suc.prems by (auto simp: lens)
  show ?case
    using Suc.IH [OF behind_step(1) [OF Suc.prems(1) n len Suc.prems(3) s], of rest] Suc.prems
      ring_next_bounds(1) [OF len Suc.prems(3)]
    by (simp add: lens)
qed

text \<open>Any 127 consecutive messages are in disjoint parts of the ring.\<close>

lemma ring_disjoint:
  assumes lens: "\<forall>len \<in> set lens. 0 < len \<and> len \<le> SEND_BUFFER_SIZE" and off: "64 dvd offset"
    and ij: "i < j" "j < length lens" "j - i < 127"
  shows "ring_starts offset lens ! j + lens ! j \<le> ring_starts offset lens ! i \<or>
         ring_starts offset lens ! i + lens ! i \<le> ring_starts offset lens ! j"
proof -
  obtain o' where o': "drop i (ring_starts offset lens) = ring_starts o' (drop i lens)" "64 dvd o'"
    using ring_starts_drop [OF lens off] by blast
  obtain m rest where dr: "drop i lens = m # rest"
    using ij by (cases "drop i lens") auto
  let ?s = "ring_start o' m" and ?o = "ring_next o' m"
  have m: "0 < m" "m \<le> SEND_BUFFER_SIZE" and rest: "\<forall>len \<in> set rest. 0 < len \<and> len \<le> SEND_BUFFER_SIZE"
    using lens dr set_drop_subset [of i lens] by (auto simp: subset_iff)
  note b = ring_next_bounds [OF m o'(2)]
  have "behind ?s m 1 ?o"
    using b by (simp add: behind_def)
  from behind_run [OF this rest b(1), of "j - i - 1"] b(6)
  have "ring_starts ?o rest ! (j - i - 1) + rest ! (j - i - 1) \<le> ?s \<or> ?s + m \<le> ring_starts ?o rest ! (j - i - 1)"
    using ij dr length_drop [of i lens] by simp
  moreover have "ring_starts offset lens ! j = ring_starts ?o rest ! (j - i - 1)" "lens ! j = rest ! (j - i - 1)"
      "ring_starts offset lens ! i = ?s" "lens ! i = m"
    using ij o'(1) dr nth_drop [of i "ring_starts offset lens" "j - i"] nth_drop [of i "ring_starts offset lens" 0]
      nth_drop [of i lens "j - i"] nth_drop [of i lens 0] by (simp_all add: nth_Cons')
  ultimately show ?thesis by simp
qed

subsection \<open>Properties\<close>

text \<open>
  C29. A sequence of sends, of either overload, goes through as long as the device reports no error: every message is posted
  once, to a place that lies inside the receiver's ring and that the immediate value names, the wait for a completion always
  has a signaled request to wait for, and any 127 consecutive messages are in disjoint places, so that none of them is overwritten
  by a later one. A further send that meets an error of the device ends the process by an assertion,
  or returns the error if assertions are turned off for the queue.
\<close>

theorem sends_go_through:
  assumes "queue_ok q" and "64 dvd sq_offset q" and "\<forall>m \<in> set ms. fits m \<and> dev_ok (og_device m)"
  defines "starts \<equiv> ring_starts (sq_offset q) (map og_length ms)"
  shows "\<exists>q' rs. send_all ms q = Inr (q', rs) \<and> queue_ok q' \<and> polls_served (pending q) rs \<and> length rs = length ms \<and>
      (\<forall>i < length ms. posted_at q (ms ! i) (starts ! i) (rs ! i) \<and> starts ! i + og_length (ms ! i) \<le> RECEIVE_BUFFER_SIZE) \<and>
      (\<forall>i j. i < j \<and> j < length ms \<and> j - i < 127 \<longrightarrow>
         starts ! j + og_length (ms ! j) \<le> starts ! i \<or> starts ! i + og_length (ms ! i) \<le> starts ! j) \<and>
      (\<forall>m. fits m \<and> send_error m q' \<noteq> 0 \<longrightarrow>
         (if sq_assert_on_failure q then \<exists>e. send_one m q' = Inl (Assert_failed e)
          else \<exists>q'' r. send_one m q' = Inr (q'', r) \<and> sr_ret r = send_error m q'))"
proof -
  have lens: "\<forall>len \<in> set (map og_length ms). 0 < len \<and> len \<le> SEND_BUFFER_SIZE"
    using assms(3) fits_buffer by auto
  have "starts ! j + og_length (ms ! j) \<le> starts ! i \<or> starts ! i + og_length (ms ! i) \<le> starts ! j"
    if "i < j" "j < length ms" "j - i < 127" for i j
    using ring_disjoint [OF lens assms(2), of i j] that by (simp add: starts_def)
  moreover have "starts ! i + og_length (ms ! i) \<le> RECEIVE_BUFFER_SIZE" if "i < length ms" for i
    using ring_starts_inside [OF lens assms(2), of i] that by (simp add: starts_def)
  moreover obtain q' rs where run: "send_all ms q = Inr (q', rs)" "queue_ok q'" "same_peer q' q" "polls_served (pending q) rs"
    "length rs = length ms" "\<forall>i < length ms. posted_at q (ms ! i) (starts ! i) (rs ! i)"
    using send_all_ok [OF assms(1,3)] unfolding starts_def by blast
  moreover have "if sq_assert_on_failure q then \<exists>e. send_one m q' = Inl (Assert_failed e)
      else \<exists>q'' r. send_one m q' = Inr (q'', r) \<and> sr_ret r = send_error m q'" if "fits m \<and> send_error m q' \<noteq> 0" for m
    using send_one_error [OF run(2), of m] run(3) that by (simp add: same_peer_def)
  ultimately show ?thesis by blast
qed

definition example_message :: "int \<Rightarrow> bool \<Rightarrow> nat \<Rightarrow> outgoing" where
  "example_message status plain len =
     \<lparr>og_device = \<lparr>dev_poll1 = 0, dev_post = status, dev_poll2 = 0\<rparr>, og_plain = plain, og_length = len,
      og_destination = 1, og_synchronize = plain\<rparr>"

theorem sends_go_through_witness:
  "\<exists>q' r1 r2. send_all [example_message 0 True 100, example_message 0 False 2048] (send_queue_init 3 4096 9 [7]) = Inr (q', [r1, r2]) \<and>
      posted_at (send_queue_init 3 4096 9 [7]) (example_message 0 False 2048) 128 r2 \<and>
      (\<exists>e. send_one (example_message 12 True 100) q' = Inl (Assert_failed e))"
proof -
  let ?q = "send_queue_init 3 4096 9 [7]" and ?ms = "[example_message 0 True 100, example_message 0 False 2048]"
  have q: "queue_ok ?q" "64 dvd sq_offset ?q" "sq_assert_on_failure ?q" "sq_offset ?q = 0"
    by (simp_all add: queue_ok_def send_queue_init_def consts_defs)
  have fit: "\<forall>m \<in> set ?ms. fits m \<and> dev_ok (og_device m)" "fits (example_message 12 True 100)"
    by (simp_all add: fits_def dev_ok_def example_message_def consts_defs)
  have "ring_starts (sq_offset ?q) (map og_length ?ms) ! 1 = 128"
    using align6 [of 100] by (simp add: q(4) example_message_def ring_next_def ring_start_def consts_defs)
  moreover obtain q' rs where run: "send_all ?ms ?q = Inr (q', rs)" "length rs = length ?ms"
    and at: "\<forall>i < length ?ms. posted_at ?q (?ms ! i) (ring_starts (sq_offset ?q) (map og_length ?ms) ! i) (rs ! i) \<and>
      ring_starts (sq_offset ?q) (map og_length ?ms) ! i + og_length (?ms ! i) \<le> RECEIVE_BUFFER_SIZE"
    and err: "\<forall>m. fits m \<and> send_error m q' \<noteq> 0 \<longrightarrow>
      (if sq_assert_on_failure ?q then \<exists>e. send_one m q' = Inl (Assert_failed e)
       else \<exists>q'' r. send_one m q' = Inr (q'', r) \<and> sr_ret r = send_error m q')"
    using sends_go_through [OF q(1,2) fit(1)] by blast
  moreover have "send_error (example_message 12 True 100) q' \<noteq> 0"
    by (simp add: send_error_def example_message_def)
  with err fit(2) q(3) have "\<exists>e. send_one (example_message 12 True 100) q' = Inl (Assert_failed e)"
    by presburger
  moreover have "posted_at ?q (?ms ! 1) (ring_starts (sq_offset ?q) (map og_length ?ms) ! 1) (rs ! 1)"
    using spec [OF at, of 1] by (simp del: ring_starts.simps)
  moreover obtain r1 r2 where "rs = [r1, r2]"
    using run(2) by (auto simp: length_Suc_conv)
  ultimately show ?thesis by simp
qed

end
