(* ===== verification/Recv_Queue.thy ===== *)
theory Recv_Queue
  imports Send_Queue
begin

text \<open>
  The receiving half of the transport, \<open>src/network/recv_queue.h\<close> and \<open>src/network/recv_queue.cpp\<close>: the
  completions name the message by an immediate value, the callback runs on each message, and the
  receive requests are posted again when half of them are used.

  \<open>ibv_poll_cq\<close> and \<open>ibv_post_srq_recv\<close> are arguments: the list of completions found, and the result of
  the post.
\<close>

record work_completion =
  wc_status :: nat
  wc_opcode :: nat
  wc_flags :: nat
  wc_imm_data :: nat
  wc_byte_len :: nat

definition IBV_WC_SUCCESS :: nat where "IBV_WC_SUCCESS = 0"
definition IBV_WC_RECV_RDMA_WITH_IMM :: nat where "IBV_WC_RECV_RDMA_WITH_IMM = 129"
definition IBV_WC_WITH_IMM :: nat where "IBV_WC_WITH_IMM = 2"

text \<open>A received message: the index of its receive buffer, the offset in it, and the length.\<close>

type_synonym received = "nat \<times> nat \<times> nat"

record recv_queue =
  rq_num_posted :: u64

definition decode_imm :: "nat \<Rightarrow> nat \<times> nat" where
  "decode_imm imm = (imm AND (MAX_QUEUE_PAIRS - 1), imm div MAX_QUEUE_PAIRS)"

fun verify_completion :: "work_completion \<Rightarrow> received res" where
  "verify_completion wc =
     (if wc_status wc \<noteq> IBV_WC_SUCCESS then Inl (Assert_failed ''network error occurred'')
      else if wc_opcode wc \<noteq> IBV_WC_RECV_RDMA_WITH_IMM
      then Inl (Assert_failed ''unrecognized completion queue entry'')
      else if (wc_flags wc OR IBV_WC_WITH_IMM) = 0
      then Inl (Assert_failed ''immediate value not available'')
      else Inr (let (index, offset) = decode_imm (wc_imm_data wc) in (index, offset, wc_byte_len wc)))"

fun verify_all :: "work_completion list \<Rightarrow> received list res" where
  "verify_all [] = Inr []"
| "verify_all (wc # wcs) = rbind (verify_completion wc) (\<lambda>r. rbind (verify_all wcs) (\<lambda>rs. Inr (r # rs)))"

definition recv_poll :: "work_completion list \<Rightarrow> recv_queue \<Rightarrow> (recv_queue \<times> received list) res" where
  "recv_poll wcs q =
     rbind (verify_all wcs)
       (\<lambda>rs. Inr (q\<lparr>rq_num_posted := u64_sub (rq_num_posted q) (length wcs)\<rparr>, rs))"

definition arm :: "int \<Rightarrow> u64 \<Rightarrow> recv_queue \<Rightarrow> recv_queue res" where
  "arm post_result num_requests q =
     (if num_requests = 0 \<or> num_requests > MAX_RECEIVE_REQUESTS then Inl Out_of_bounds
      else if post_result \<noteq> 0 then Inl (Assert_failed ''could not post buffers to receive queue'')
      else Inr (q\<lparr>rq_num_posted := u64_add (rq_num_posted q) num_requests\<rparr>))"

definition recv_queue_init :: "int \<Rightarrow> recv_queue res" where
  "recv_queue_init post_result = arm post_result MAX_RECEIVE_REQUESTS \<lparr>rq_num_posted = 0\<rparr>"

text \<open>The callback is a fold over the state of the caller.\<close>

fun callbacks :: "(received \<Rightarrow> 's \<Rightarrow> 's res) \<Rightarrow> received list \<Rightarrow> 's \<Rightarrow> 's res" where
  "callbacks f [] s = Inr s"
| "callbacks f (r # rs) s = rbind (f r s) (callbacks f rs)"

definition recv ::
  "work_completion list \<Rightarrow> int \<Rightarrow> (received \<Rightarrow> 's \<Rightarrow> 's res) \<Rightarrow> recv_queue \<Rightarrow> 's \<Rightarrow> (recv_queue \<times> 's) res" where
  "recv wcs post_result f q s =
     rbind (recv_poll wcs q) (\<lambda>(q', rs).
       rbind (callbacks f rs s) (\<lambda>s'.
         if rq_num_posted q' < MAX_RECEIVE_REQUESTS div 2
         then rbind (arm post_result (u64_sub MAX_RECEIVE_REQUESTS (rq_num_posted q')) q') (\<lambda>q''. Inr (q'', s'))
         else Inr (q', s')))"

subsection \<open>The immediate value\<close>

lemma MAX_QUEUE_PAIRS_pow: "MAX_QUEUE_PAIRS = 2 ^ 11"
  by (simp add: MAX_QUEUE_PAIRS_def)

lemma decode_encode_imm:
  assumes "index < MAX_QUEUE_PAIRS" and "offset \<le> RECEIVE_BUFFER_SIZE"
  shows "decode_imm (encode_imm index offset) = (index, offset)"
proof -
  have off: "offset * MAX_QUEUE_PAIRS = push_bit 11 offset"
    by (simp add: MAX_QUEUE_PAIRS_pow push_bit_eq_mult)
  have idx: "take_bit 11 index = index"
    using assms(1) by (simp add: MAX_QUEUE_PAIRS_pow take_bit_nat_eq_self)
  let ?v = "index OR push_bit 11 offset"
  have low: "take_bit 11 ?v = index"
    by (subst idx [symmetric]) (rule bit_eqI, auto simp: bit_simps)
  have high: "drop_bit 11 ?v = offset"
  proof (rule bit_eqI)
    fix n
    have "\<not> bit index (11 + n)"
      by (subst idx [symmetric]) (simp add: bit_take_bit_iff)
    then show "bit (drop_bit 11 ?v) n = bit offset n"
      by (auto simp: bit_simps)
  qed
  have "?v = take_bit 11 ?v + push_bit 11 (drop_bit 11 ?v)"
    using bits_ident [of 11 ?v] by (simp add: add.commute)
  also have "\<dots> = index + 2 ^ 11 * offset"
    unfolding low high by (simp add: push_bit_eq_mult)
  also have "\<dots> < 2 ^ 32"
    using assms by (simp add: consts_defs)
  finally have small: "?v mod 2 ^ 32 = ?v" by simp
  have "?v AND (MAX_QUEUE_PAIRS - 1) = take_bit 11 ?v"
    by (simp add: MAX_QUEUE_PAIRS_pow take_bit_eq_mask mask_eq_exp_minus_1 del: take_bit_or)
  moreover have "?v div MAX_QUEUE_PAIRS = drop_bit 11 ?v"
    by (simp add: MAX_QUEUE_PAIRS_pow drop_bit_eq_div)
  ultimately show ?thesis
    unfolding decode_imm_def encode_imm_def off small low high by simp
qed

subsection \<open>The receive requests\<close>

definition posted_ok :: "recv_queue \<Rightarrow> bool" where
  "posted_ok q \<longleftrightarrow> MAX_RECEIVE_REQUESTS div 2 \<le> rq_num_posted q \<and> rq_num_posted q \<le> MAX_RECEIVE_REQUESTS"

lemma recv_queue_init_ok: "\<exists>q. recv_queue_init 0 = Inr q \<and> posted_ok q"
  by (simp add: recv_queue_init_def arm_def posted_ok_def u64_add_def consts_defs)

lemma recv_keeps_posted:
  assumes ok: "posted_ok q" and polled: "length wcs \<le> rq_num_posted q"
    and run: "recv wcs post f q s = Inr (q', s')"
  shows "posted_ok q'"
proof -
  let ?M = MAX_RECEIVE_REQUESTS and ?n = "rq_num_posted q - length wcs"
  have M: "?M = 64"
    by (simp add: consts_defs)
  have sub: "u64_sub (rq_num_posted q) (length wcs) = ?n"
    using ok polled by (intro u64_sub_small) (simp_all add: posted_ok_def M)
  have fill: "u64_sub ?M ?n = ?M - ?n" "u64_add ?n (?M - ?n) = ?M"
    using ok by (auto intro!: u64_sub_small simp: posted_ok_def M u64_add_def)
  from run obtain rs where "verify_all wcs = Inr rs"
    by (auto simp: recv_def recv_poll_def rbind_eq_Inr)
  with run have "q' = q\<lparr>rq_num_posted := if ?n < ?M div 2 then ?M else ?n\<rparr>"
    by (cases "callbacks f rs s") (auto simp: recv_def recv_poll_def sub fill arm_def split: if_split_asm)
  with ok show ?thesis
    by (auto simp: posted_ok_def)
qed

text \<open>
  The check of the flag combines it with \<open>|\<close>, so it never fails: a completion without an immediate
  value passes.
\<close>

lemma or_nonzero: "(a OR IBV_WC_WITH_IMM :: nat) \<noteq> 0"
  by (simp add: IBV_WC_WITH_IMM_def or_eq_0_iff)

subsection \<open>Properties\<close>

text \<open>
  C30. The receiver of a message recovers from the 32-bit immediate value exactly the receive buffer and the offset that
  the sender put there: the two fields never overlap and nothing is cut off.
\<close>

theorem immediate_roundtrip:
  assumes "index < MAX_QUEUE_PAIRS" and "offset \<le> RECEIVE_BUFFER_SIZE"
  shows "decode_imm (encode_imm index offset) = (index, offset)"
  by (rule decode_encode_imm [OF assms])

theorem immediate_roundtrip_witness: "decode_imm (encode_imm 2047 262080) = (2047, 262080)"
  by (rule immediate_roundtrip) (simp_all add: consts_defs)

text \<open>
  A receive queue never runs dry: after every receive, at least half of the receive requests are posted, and never
  more than the queue holds, as long as the device delivers no more completions than there are requests.
\<close>

theorem receives_stay_posted:
  assumes "posted_ok q" and "length wcs \<le> rq_num_posted q" and "recv wcs post f q s = Inr (q', s')"
  shows "posted_ok q'"
  by (rule recv_keeps_posted [OF assms])

end
