(* ===== verification/Queue_Pairs.thy ===== *)
theory Queue_Pairs
  imports Network_Memory Recv_Queue
begin

text \<open>
  The RDMA queues of a network manager, \<open>src/network/manager.cpp\<close>: the pair of queues of one connection and the
  shared receive queues, how they are created, brought up with the description of the peer, and destroyed.

  The verbs library is an argument, the record \<open>nic\<close>: whether an object is created and under which number, and
  what \<open>ibv_modify_qp\<close> makes of a queue, \<open>None\<close> being an error code. What its documentation promises is the
  predicate \<open>documented\<close>.
\<close>

subsection \<open>Queue pairs\<close>

datatype qp_state = QPS_RESET | QPS_INIT | QPS_RTR | QPS_RTS

datatype qp_type = QPT_XRC_SEND | QPT_XRC_RECV

datatype qp_mask =
    QP_STATE | QP_PORT | QP_PKEY_INDEX | QP_ACCESS_FLAGS | QP_AV | QP_PATH_MTU | QP_DEST_QPN | QP_RQ_PSN
  | QP_MIN_RNR_TIMER | QP_MAX_DEST_RD_ATOMIC | QP_TIMEOUT | QP_SQ_PSN | QP_RETRY_CNT | QP_RNR_RETRY
  | QP_MAX_QP_RD_ATOMIC

datatype access_flag = ACCESS_LOCAL_WRITE | ACCESS_REMOTE_WRITE

record global_route =
  gr_dgid :: "byte list"
  gr_sgid_index :: nat
  gr_hop_limit :: nat

record ah_attr =
  ah_dlid :: nat
  ah_is_global :: bool
  ah_port_num :: nat
  ah_grh :: "global_route option"

record qp_attr =
  qa_state :: qp_state
  qa_access_flags :: "access_flag set"
  qa_pkey_index :: nat
  qa_port_num :: nat
  qa_path_mtu :: nat
  qa_dest_qp_num :: nat
  qa_ah :: ah_attr
  qa_rq_psn :: nat
  qa_sq_psn :: nat
  qa_min_rnr_timer :: nat
  qa_timeout :: nat
  qa_retry_cnt :: nat
  qa_rnr_retry :: nat
  qa_max_rd_atomic :: nat
  qa_max_dest_rd_atomic :: nat

text \<open>Members that an initializer does not name are zero.\<close>

definition zero_attr :: qp_attr where
  "zero_attr =
     \<lparr>qa_state = QPS_RESET, qa_access_flags = {}, qa_pkey_index = 0, qa_port_num = 0, qa_path_mtu = 0, qa_dest_qp_num = 0,
      qa_ah = \<lparr>ah_dlid = 0, ah_is_global = False, ah_port_num = 0, ah_grh = None\<rparr>, qa_rq_psn = 0, qa_sq_psn = 0,
      qa_min_rnr_timer = 0, qa_timeout = 0, qa_retry_cnt = 0, qa_rnr_retry = 0, qa_max_rd_atomic = 0,
      qa_max_dest_rd_atomic = 0\<rparr>"

record qp_cap =
  cap_max_send_wr :: nat
  cap_max_send_sge :: nat
  cap_max_inline_data :: nat
  cap_sq_sig_all :: bool

text \<open>A queue pair: what it was created with, its current attributes, and the message it is labelled with.\<close>

record qp =
  qp_num :: nat
  qp_type :: qp_type
  qp_cap :: qp_cap
  qp_attrs :: qp_attr
  qp_context :: "byte list option"

subsection \<open>The device\<close>

text \<open>
  What the device answers to the calls of one \<open>create_queues\<close>: whether there is a completion queue, the
  numbers of the two queue pairs; and of one pass of \<open>create_recv_queues\<close>: whether there are a completion queue and
  a shared receive queue, the number of the latter, the result of the first post.
\<close>

record creation =
  cr_cq :: bool
  cr_send :: "nat option"
  cr_recv :: "nat option"

record srq_creation =
  sc_cq :: bool
  sc_srq :: bool
  sc_num :: "nat option"
  sc_post :: int

record nic =
  nic_base :: "address \<Rightarrow> u64"
  nic_key :: "nat \<Rightarrow> nat"
  nic_create :: "nat \<Rightarrow> creation"
  nic_create_srq :: "nat \<Rightarrow> srq_creation"
  nic_modify :: "qp \<Rightarrow> qp_attr \<Rightarrow> qp_mask set \<Rightarrow> qp option"
  nic_destroy :: "qp \<Rightarrow> bool"
  nic_destroy_cq :: "nat \<Rightarrow> bool"

definition modify_qp :: "nic \<Rightarrow> string \<Rightarrow> qp_attr \<Rightarrow> qp_mask set \<Rightarrow> qp \<Rightarrow> qp res" where
  "modify_qp d error attr flags q =
     (case nic_modify d q attr flags of None \<Rightarrow> Inl (Assert_failed error) | Some q' \<Rightarrow> Inr q')"

subsection \<open>The queues of a connection\<close>

text \<open>\<open>send_cap\<close> and \<open>recv_cap\<close> are the capabilities in the two initializers.\<close>

definition send_cap :: qp_cap where
  "send_cap = \<lparr>cap_max_send_wr = MAX_OUTSTANDING_REQUESTS, cap_max_send_sge = 1, cap_max_inline_data = MAX_INLINE_DATA,
     cap_sq_sig_all = False\<rparr>"

definition recv_cap :: qp_cap where
  "recv_cap = \<lparr>cap_max_send_wr = 0, cap_max_send_sge = 0, cap_max_inline_data = 0, cap_sq_sig_all = False\<rparr>"

definition new_qp :: "nat \<Rightarrow> qp_type \<Rightarrow> qp_cap \<Rightarrow> qp" where
  "new_qp n ty cap = \<lparr>qp_num = n, qp_type = ty, qp_cap = cap, qp_attrs = zero_attr, qp_context = None\<rparr>"

definition init_attr :: "nat \<Rightarrow> qp_attr" where
  "init_attr port = zero_attr\<lparr>qa_state := QPS_INIT, qa_access_flags := {ACCESS_LOCAL_WRITE, ACCESS_REMOTE_WRITE},
     qa_pkey_index := 0, qa_port_num := port\<rparr>"

definition init_flags :: "qp_mask set" where
  "init_flags = {QP_STATE, QP_PORT, QP_PKEY_INDEX, QP_ACCESS_FLAGS}"

definition create_queues :: "nic \<Rightarrow> nat \<Rightarrow> nat \<Rightarrow> (qp \<times> qp) res" where
  "create_queues d port n =
     (if \<not> cr_cq (nic_create d n) then Inl (Assert_failed ''could not create completion queue'')
      else case cr_send (nic_create d n) of
        None \<Rightarrow> Inl (Assert_failed ''could not create send queue'')
      | Some ns \<Rightarrow> (case cr_recv (nic_create d n) of
          None \<Rightarrow> Inl (Assert_failed ''could not create receive queue'')
        | Some nr \<Rightarrow>
            rbind (modify_qp d ''could not mark send queue as INIT'' (init_attr port) init_flags
                     (new_qp ns QPT_XRC_SEND send_cap)) (\<lambda>sq.
            rbind (modify_qp d ''could not mark receive queue as INIT'' (init_attr port) init_flags
                     (new_qp nr QPT_XRC_RECV recv_cap)) (\<lambda>rq. Inr (sq, rq)))))"

subsection \<open>Shared receive queues\<close>

text \<open>The numbers of the shared receive queues so far are \<open>nums\<close>; every pass adds one and yields a receive queue.\<close>

fun create_recv_queues :: "nic \<Rightarrow> nat \<Rightarrow> nat list \<Rightarrow> (recv_queue list \<times> nat list) res" where
  "create_recv_queues d 0 nums = Inr ([], nums)"
| "create_recv_queues d (Suc n) nums =
     (let a = nic_create_srq d (length nums)
      in if \<not> sc_cq a then Inl (Assert_failed ''could not create completion queue'')
         else if \<not> sc_srq a then Inl (Assert_failed ''could not create shared receive queue'')
         else case sc_num a of
           None \<Rightarrow> Inl (Assert_failed ''could not obtain shared receive queue number'')
         | Some num \<Rightarrow>
             rbind (recv_queue_init (sc_post a)) (\<lambda>q.
             rbind (create_recv_queues d n (nums @ [num])) (\<lambda>(qs, nums'). Inr (q # qs, nums'))))"

subsection \<open>Activation\<close>

definition IBV_MTU_4096 :: nat where "IBV_MTU_4096 = 5"
definition TIMEOUT :: nat where "TIMEOUT = 7"
definition RNR_TIMER :: nat where "RNR_TIMER = 7"
definition RNR_RETRY :: nat where "RNR_RETRY = 7"
definition RETRY :: nat where "RETRY = 1"

text \<open>The attributes that the transitions to \<open>RTR\<close> share: the queue and the address of the peer.\<close>

definition route_attr :: "nat \<Rightarrow> int \<Rightarrow> nat \<Rightarrow> byte list \<Rightarrow> nat \<Rightarrow> qp_attr" where
  "route_attr local_port local_gid remote_id remote_gid dest =
     zero_attr\<lparr>qa_state := QPS_RTR, qa_path_mtu := IBV_MTU_4096, qa_dest_qp_num := dest,
       qa_ah := \<lparr>ah_dlid = remote_id, ah_is_global = (local_gid \<ge> 0), ah_port_num = local_port,
                 ah_grh = (if local_gid \<ge> 0
                           then Some \<lparr>gr_dgid = remote_gid, gr_sgid_index = nat (local_gid) mod 256, gr_hop_limit = 1\<rparr>
                           else None)\<rparr>\<rparr>"

definition recv_rtr_flags :: "qp_mask set" where
  "recv_rtr_flags = {QP_STATE, QP_AV, QP_PATH_MTU, QP_DEST_QPN, QP_RQ_PSN, QP_MIN_RNR_TIMER, QP_MAX_DEST_RD_ATOMIC}"

definition recv_rts_flags :: "qp_mask set" where
  "recv_rts_flags = {QP_STATE, QP_TIMEOUT, QP_SQ_PSN}"

definition send_rtr_flags :: "qp_mask set" where
  "send_rtr_flags = {QP_STATE, QP_AV, QP_PATH_MTU, QP_DEST_QPN, QP_RQ_PSN}"

definition send_rts_flags :: "qp_mask set" where
  "send_rts_flags = {QP_STATE, QP_TIMEOUT, QP_SQ_PSN, QP_RETRY_CNT, QP_RNR_RETRY, QP_MAX_QP_RD_ATOMIC}"

text \<open>\<open>dest_send\<close> and \<open>dest_recv\<close> are the numbers of the peer's send and receive queue.\<close>

definition activate_queues :: "nic \<Rightarrow> nat \<Rightarrow> int \<Rightarrow> nat \<Rightarrow> byte list \<Rightarrow> nat \<Rightarrow> nat \<Rightarrow> qp \<times> qp \<Rightarrow> (qp \<times> qp) res" where
  "activate_queues d local_port local_gid remote_id remote_gid dest_send dest_recv queues =
     (let (sq, rq) = queues in
      rbind (modify_qp d ''could not mark receive queue as RTR''
               ((route_attr local_port local_gid remote_id remote_gid dest_send)\<lparr>qa_min_rnr_timer := RNR_TIMER\<rparr>) recv_rtr_flags rq) (\<lambda>rq1.
      rbind (modify_qp d ''could not mark receive queue as RTS''
               (zero_attr\<lparr>qa_state := QPS_RTS, qa_timeout := TIMEOUT\<rparr>) recv_rts_flags rq1) (\<lambda>rq2.
      rbind (modify_qp d ''could not mark send queue as RTR''
               (route_attr local_port local_gid remote_id remote_gid dest_recv) send_rtr_flags sq) (\<lambda>sq1.
      rbind (modify_qp d ''could not mark send queue as RTS''
               (zero_attr\<lparr>qa_state := QPS_RTS, qa_timeout := TIMEOUT, qa_retry_cnt := RETRY, qa_rnr_retry := RNR_RETRY\<rparr>)
               send_rts_flags sq1) (\<lambda>sq2.
      Inr (sq2, rq2))))))"

subsection \<open>Destruction\<close>

fun destroy_all :: "('q \<Rightarrow> bool) \<Rightarrow> string \<Rightarrow> 'q list \<Rightarrow> unit res" where
  "destroy_all ok error [] = Inr ()"
| "destroy_all ok error (q # qs) = (if ok q then destroy_all ok error qs else Inl (Assert_failed error))"

definition free_queues :: "nic \<Rightarrow> (qp \<times> qp) list \<Rightarrow> nat list \<Rightarrow> unit res" where
  "free_queues d queues cqs =
     rbind (destroy_all (nic_destroy d) ''could not destroy send queue'' (map fst queues)) (\<lambda>_.
     rbind (destroy_all (nic_destroy d) ''could not destroy receive queue'' (map snd queues)) (\<lambda>_.
     destroy_all (nic_destroy_cq d) ''could not destroy completion queue'' cqs))"

subsection \<open>What the documentation of the verbs promises\<close>

text \<open>
  The table of transitions in the manual of \<open>ibv_modify_qp\<close>: from a state to the next, the attributes that have
  to be given. Where the call succeeds, the queue pair has the attributes that the mask names and keeps the others
  (\<open>documented\<close>). Whether it succeeds depends on the device: \<open>supports\<close> says that the device accepts some values, such as the number of a port or the size
  of a packet, whenever they are given with the attributes that the transition requires.
\<close>

fun required :: "qp_type \<Rightarrow> qp_state \<Rightarrow> qp_state \<Rightarrow> qp_mask set option" where
  "required _ QPS_RESET QPS_INIT = Some {QP_STATE, QP_PKEY_INDEX, QP_PORT, QP_ACCESS_FLAGS}"
| "required QPT_XRC_SEND QPS_INIT QPS_RTR = Some {QP_STATE, QP_AV, QP_PATH_MTU, QP_DEST_QPN, QP_RQ_PSN}"
| "required QPT_XRC_RECV QPS_INIT QPS_RTR =
     Some {QP_STATE, QP_AV, QP_PATH_MTU, QP_DEST_QPN, QP_RQ_PSN, QP_MAX_DEST_RD_ATOMIC, QP_MIN_RNR_TIMER}"
| "required QPT_XRC_SEND QPS_RTR QPS_RTS =
     Some {QP_STATE, QP_TIMEOUT, QP_RETRY_CNT, QP_RNR_RETRY, QP_SQ_PSN, QP_MAX_QP_RD_ATOMIC}"
| "required QPT_XRC_RECV QPS_RTR QPS_RTS = Some {QP_STATE, QP_TIMEOUT, QP_SQ_PSN}"
| "required _ _ _ = None"

definition set_attrs :: "qp_mask set \<Rightarrow> qp_attr \<Rightarrow> qp_attr \<Rightarrow> qp_attr" where
  "set_attrs flags a old =
     (let pick = (\<lambda>f sel. if f \<in> flags then sel a else sel old)
      in \<lparr>qa_state = (if QP_STATE \<in> flags then qa_state a else qa_state old),
          qa_access_flags = (if QP_ACCESS_FLAGS \<in> flags then qa_access_flags a else qa_access_flags old),
          qa_pkey_index = pick QP_PKEY_INDEX qa_pkey_index, qa_port_num = pick QP_PORT qa_port_num,
          qa_path_mtu = pick QP_PATH_MTU qa_path_mtu, qa_dest_qp_num = pick QP_DEST_QPN qa_dest_qp_num,
          qa_ah = (if QP_AV \<in> flags then qa_ah a else qa_ah old),
          qa_rq_psn = pick QP_RQ_PSN qa_rq_psn, qa_sq_psn = pick QP_SQ_PSN qa_sq_psn,
          qa_min_rnr_timer = pick QP_MIN_RNR_TIMER qa_min_rnr_timer, qa_timeout = pick QP_TIMEOUT qa_timeout,
          qa_retry_cnt = pick QP_RETRY_CNT qa_retry_cnt, qa_rnr_retry = pick QP_RNR_RETRY qa_rnr_retry,
          qa_max_rd_atomic = pick QP_MAX_QP_RD_ATOMIC qa_max_rd_atomic,
          qa_max_dest_rd_atomic = pick QP_MAX_DEST_RD_ATOMIC qa_max_dest_rd_atomic\<rparr>)"

definition documented :: "nic \<Rightarrow> bool" where
  "documented d \<longleftrightarrow>
     (\<forall>q a flags q'. nic_modify d q a flags = Some q' \<longrightarrow> q' = q\<lparr>qp_attrs := set_attrs flags a (qp_attrs q)\<rparr>)"

definition supports :: "nic \<Rightarrow> qp_attr \<Rightarrow> bool" where
  "supports d a \<longleftrightarrow>
     (\<forall>q flags. required (qp_type q) (qa_state (qp_attrs q)) (qa_state a) = Some flags \<longrightarrow> nic_modify d q a flags \<noteq> None)"

lemma modify_documented:
  "documented d \<Longrightarrow> modify_qp d error a flags q = Inr q' \<Longrightarrow> q' = q\<lparr>qp_attrs := set_attrs flags a (qp_attrs q)\<rparr>"
  by (simp add: modify_qp_def documented_def split: option.splits)

lemma modify_supported:
  assumes "documented d" and "required (qp_type q) (qa_state (qp_attrs q)) (qa_state a) = Some flags"
  shows "modify_qp d error a flags q = Inr (q\<lparr>qp_attrs := set_attrs flags a (qp_attrs q)\<rparr>) \<or>
    modify_qp d error a flags q = Inl (Assert_failed error) \<and> \<not> supports d a"
  using assms by (auto simp: modify_qp_def documented_def supports_def split: option.splits)

subsection \<open>The life of a queue pair\<close>

text \<open>A pair as \<open>create_queues\<close> leaves it, and a pair that is connected to the queues of a peer.\<close>

definition fresh_pair :: "nat \<Rightarrow> nat \<Rightarrow> qp \<times> qp \<Rightarrow> bool" where
  "fresh_pair ns nr = (\<lambda>(sq, rq). qp_num sq = ns \<and> qp_type sq = QPT_XRC_SEND \<and> qa_state (qp_attrs sq) = QPS_INIT \<and>
     qp_num rq = nr \<and> qp_type rq = QPT_XRC_RECV \<and> qa_state (qp_attrs rq) = QPS_INIT \<and>
     {ACCESS_LOCAL_WRITE, ACCESS_REMOTE_WRITE} \<subseteq> qa_access_flags (qp_attrs rq) \<and>
     qp_cap sq = send_cap)"

definition wired :: "int \<Rightarrow> nat \<Rightarrow> byte list \<Rightarrow> nat \<Rightarrow> nat \<Rightarrow> qp \<times> qp \<Rightarrow> bool" where
  "wired local_gid remote_id remote_gid dest_send dest_recv = (\<lambda>(sq, rq).
     (\<forall>q \<in> {sq, rq}. qa_state (qp_attrs q) = QPS_RTS \<and> ah_dlid (qa_ah (qp_attrs q)) = remote_id \<and>
        qa_path_mtu (qp_attrs q) = IBV_MTU_4096 \<and>
        (local_gid \<ge> 0 \<longrightarrow> map_option gr_dgid (ah_grh (qa_ah (qp_attrs q))) = Some remote_gid)) \<and>
     qa_dest_qp_num (qp_attrs sq) = dest_recv \<and> qa_dest_qp_num (qp_attrs rq) = dest_send \<and>
     {ACCESS_LOCAL_WRITE, ACCESS_REMOTE_WRITE} \<subseteq> qa_access_flags (qp_attrs rq))"

lemma create_queues_fresh:
  assumes "documented d" and "create_queues d port n = Inr (sq, rq)"
  shows "fresh_pair (qp_num sq) (qp_num rq) (sq, rq)"
proof -
  obtain ns nr where m: "modify_qp d ''could not mark send queue as INIT'' (init_attr port) init_flags (new_qp ns QPT_XRC_SEND send_cap) = Inr sq"
    "modify_qp d ''could not mark receive queue as INIT'' (init_attr port) init_flags (new_qp nr QPT_XRC_RECV recv_cap) = Inr rq"
    using assms(2) by (auto simp: create_queues_def rbind_eq_Inr split: if_splits option.splits)
  show ?thesis
    unfolding modify_documented [OF assms(1) m(1)] modify_documented [OF assms(1) m(2)]
    by (simp add: fresh_pair_def new_qp_def set_attrs_def init_attr_def zero_attr_def init_flags_def)
qed

text \<open>
  The attributes that one activation uses. It makes a fresh pair one that is connected to the queues of the peer, or an assertion ends it,
  and then the device does not support one of the attributes.
\<close>

definition path_attrs :: "nat \<Rightarrow> int \<Rightarrow> nat \<Rightarrow> byte list \<Rightarrow> nat \<Rightarrow> nat \<Rightarrow> qp_attr set" where
  "path_attrs local_port local_gid remote_id remote_gid dest_send dest_recv =
     {(route_attr local_port local_gid remote_id remote_gid dest_send)\<lparr>qa_min_rnr_timer := RNR_TIMER\<rparr>,
      zero_attr\<lparr>qa_state := QPS_RTS, qa_timeout := TIMEOUT\<rparr>,
      route_attr local_port local_gid remote_id remote_gid dest_recv,
      zero_attr\<lparr>qa_state := QPS_RTS, qa_timeout := TIMEOUT, qa_retry_cnt := RETRY, qa_rnr_retry := RNR_RETRY\<rparr>}"

lemma activate_fresh:
  assumes "documented d" and "fresh_pair ns nr (sq, rq)"
  shows "(\<exists>sq' rq'. activate_queues d local_port local_gid remote_id remote_gid dest_send dest_recv (sq, rq) = Inr (sq', rq') \<and>
      wired local_gid remote_id remote_gid dest_send dest_recv (sq', rq') \<and> qp_num sq' = ns \<and> qp_num rq' = nr) \<or>
    (\<exists>e. activate_queues d local_port local_gid remote_id remote_gid dest_send dest_recv (sq, rq) = Inl (Assert_failed e) \<and>
      \<not> (\<forall>a \<in> path_attrs local_port local_gid remote_id remote_gid dest_send dest_recv. supports d a))"
proof -
  let ?rtr = "(route_attr local_port local_gid remote_id remote_gid dest_send)\<lparr>qa_min_rnr_timer := RNR_TIMER\<rparr>"
    and ?rts = "zero_attr\<lparr>qa_state := QPS_RTS, qa_timeout := TIMEOUT\<rparr>"
    and ?str = "route_attr local_port local_gid remote_id remote_gid dest_recv"
    and ?sts = "zero_attr\<lparr>qa_state := QPS_RTS, qa_timeout := TIMEOUT, qa_retry_cnt := RETRY, qa_rnr_retry := RNR_RETRY\<rparr>"
  let ?rq1 = "rq\<lparr>qp_attrs := set_attrs recv_rtr_flags ?rtr (qp_attrs rq)\<rparr>"
    and ?sq1 = "sq\<lparr>qp_attrs := set_attrs send_rtr_flags ?str (qp_attrs sq)\<rparr>"
  note step = modify_supported [OF assms(1)]
  have rtr: "required QPT_XRC_RECV QPS_INIT QPS_RTR = Some recv_rtr_flags" "required QPT_XRC_SEND QPS_INIT QPS_RTR = Some send_rtr_flags"
    by (auto simp: recv_rtr_flags_def send_rtr_flags_def)
  have rts: "required QPT_XRC_RECV QPS_RTR QPS_RTS = Some recv_rts_flags" "required QPT_XRC_SEND QPS_RTR QPS_RTS = Some send_rts_flags"
    by (auto simp: recv_rts_flags_def send_rts_flags_def)
  have st: "qa_state (set_attrs fl a old) = qa_state a" if "QP_STATE \<in> fl" for fl a old
    using that by (simp add: set_attrs_def)
  have in_flags: "QP_STATE \<in> recv_rtr_flags" "QP_STATE \<in> send_rtr_flags"
    by (simp_all add: recv_rtr_flags_def send_rtr_flags_def)
  have types: "qp_type rq = QPT_XRC_RECV" "qp_type sq = QPT_XRC_SEND" "qa_state (qp_attrs rq) = QPS_INIT" "qa_state (qp_attrs sq) = QPS_INIT"
    using assms(2) by (simp_all add: fresh_pair_def)
  have req: "required (qp_type rq) (qa_state (qp_attrs rq)) (qa_state ?rtr) = Some recv_rtr_flags"
    "required (qp_type ?rq1) (qa_state (qp_attrs ?rq1)) (qa_state ?rts) = Some recv_rts_flags"
    "required (qp_type sq) (qa_state (qp_attrs sq)) (qa_state ?str) = Some send_rtr_flags"
    "required (qp_type ?sq1) (qa_state (qp_attrs ?sq1)) (qa_state ?sts) = Some send_rts_flags"
    by (simp_all add: types rtr rts st in_flags route_attr_def del: required.simps)
  have wired: "wired local_gid remote_id remote_gid dest_send dest_recv
      (?sq1\<lparr>qp_attrs := set_attrs send_rts_flags ?sts (qp_attrs ?sq1)\<rparr>, ?rq1\<lparr>qp_attrs := set_attrs recv_rts_flags ?rts (qp_attrs ?rq1)\<rparr>)"
    using assms(2)
    by (simp add: fresh_pair_def wired_def set_attrs_def route_attr_def recv_rtr_flags_def recv_rts_flags_def send_rtr_flags_def send_rts_flags_def)
  have nums: "qp_num sq = ns" "qp_num rq = nr"
    using assms(2) by (simp_all add: fresh_pair_def)
  show ?thesis
    using step [OF req(1), of "''could not mark receive queue as RTR''"] step [OF req(2), of "''could not mark receive queue as RTS''"]
      step [OF req(3), of "''could not mark send queue as RTR''"] step [OF req(4), of "''could not mark send queue as RTS''"] wired
    by (elim disjE conjE) (simp_all add: activate_queues_def path_attrs_def nums)
qed

text \<open>Every shared receive queue has its own number in the list, and starts with all its requests posted.\<close>

lemma create_recv_queues_ok:
  assumes "\<And>k. sc_cq (nic_create_srq d k) \<and> sc_srq (nic_create_srq d k) \<and> sc_num (nic_create_srq d k) = Some (f k) \<and>
      sc_post (nic_create_srq d k) = 0"
  shows "create_recv_queues d n nums =
    Inr (replicate n \<lparr>rq_num_posted = MAX_RECEIVE_REQUESTS\<rparr>, nums @ map f [length nums..<length nums + n])"
proof (induction n arbitrary: nums)
  case (Suc n)
  have "recv_queue_init 0 = Inr \<lparr>rq_num_posted = MAX_RECEIVE_REQUESTS\<rparr>"
    by (simp add: recv_queue_init_def arm_def u64_add_def MAX_RECEIVE_REQUESTS_def MAX_OUTSTANDING_REQUESTS_def)
  moreover have "[length nums..<length nums + Suc n] = length nums # [Suc (length nums)..<Suc (length nums) + n]"
    by (simp add: upt_conv_Cons)
  ultimately show ?case
    using assms [of "length nums"] Suc [of "nums @ [f (length nums)]"] by (simp add: Let_def)
qed simp

end
