(* ===== verification/Zip_Bytes.thy ===== *)
theory Zip_Bytes
  imports Zip_Prelude
begin

text \<open>
  Integers in memory: the machine is little-endian, and a struct that is cast to or from raw bytes holds its
  members at fixed offsets. Shared by the description of a connection and the payload of the lock service.
\<close>

fun le_bytes :: "nat \<Rightarrow> nat \<Rightarrow> byte list" where
  "le_bytes 0 n = []"
| "le_bytes (Suc k) n = n mod 256 # le_bytes k (n div 256)"

fun le_value :: "byte list \<Rightarrow> nat" where
  "le_value [] = 0"
| "le_value (b # bs) = b + 256 * le_value bs"

definition field :: "byte list \<Rightarrow> nat \<Rightarrow> nat \<Rightarrow> nat" where
  "field bs offset k = le_value (take k (drop offset bs))"

lemma length_le_bytes [simp]: "length (le_bytes k n) = k"
  by (induction k arbitrary: n) simp_all

lemma le_value_bytes: "n < 256 ^ k \<Longrightarrow> le_value (le_bytes k n) = n"
proof (induction k arbitrary: n)
  case (Suc k)
  then have "n div 256 < 256 ^ k"
    by (simp add: less_mult_imp_div_less mult.commute)
  with Suc.IH [of "n div 256"] show ?case
    by simp
qed simp

lemma field_append1: "length xs = offset \<Longrightarrow> field (xs @ ys) offset k = field ys 0 k"
  by (simp add: field_def)

lemma field_le_bytes: "n < 256 ^ k \<Longrightarrow> field (le_bytes k n @ ys) 0 k = n"
  by (simp add: field_def le_value_bytes)

lemma field_skip: "length xs \<le> offset \<Longrightarrow> field (xs @ ys) offset k = field ys (offset - length xs) k"
  by (simp add: field_def)

lemma field_Cons: "0 < offset \<Longrightarrow> field (x # xs) offset k = field xs (offset - 1) k"
  by (cases offset) (simp_all add: field_def)

end
