(* ===== verification/Connection.thy ===== *)
theory Connection
  imports Queue_Pairs Zip_Concurrent Zip_Bytes
begin

text \<open>
  Setting up a connection, \<open>src/network/manager.h\<close> and \<open>src/network/manager.cpp\<close>: the loops over the
  socket, the agreement on the number of queues, the serialized description of the queues, \<open>accept\<close> and
  \<open>connect\<close>, and the queue of asynchronous device events.

  The kernel and the device are arguments: the results of \<open>::send\<close> and \<open>::recv\<close>, of \<open>ppoll\<close>, what the peer
  sends, the numbers of created queue pairs, the addresses and keys of pages.
\<close>

subsection \<open>The loops over a socket\<close>

datatype transfer = Transferred | Failed_transfer

text \<open>
  \<open>detail::send\<close> and \<open>detail::recv\<close>: the list holds the results of the system call, one per iteration; \<open>None\<close>
  is a loop that is still running when they are used up.
\<close>

fun transfer_loop :: "int list \<Rightarrow> nat \<Rightarrow> nat \<Rightarrow> transfer option" where
  "transfer_loop [] offset len = (if offset < len then None else Some Transferred)"
| "transfer_loop (r # rs) offset len =
     (if offset < len
      then (if r = - 1 then Some Failed_transfer else transfer_loop rs (offset + nat r) len)
      else Some Transferred)"

lemma transfer_complete:
  assumes "\<forall>r \<in> set rs. 0 < r" and "len \<le> offset + nat (sum_list rs)"
  shows "transfer_loop rs offset len = Some Transferred"
  using assms
proof (induction rs arbitrary: offset)
  case (Cons r rs)
  have "0 \<le> sum_list rs"
    using Cons.prems(1) by (intro sum_list_nonneg) (auto intro: less_imp_le)
  with Cons show ?case
    by (auto simp: nat_add_distrib add.assoc)
qed simp

lemma transfer_closed_peer: "offset < len \<Longrightarrow> transfer_loop (replicate n 0) offset len = None"
  by (induction n) simp_all

subsection \<open>The number of queues\<close>

definition negotiate :: "u64 \<Rightarrow> u64 \<Rightarrow> u64" where
  "negotiate mine other =
     (if mine = 0 \<and> other = 0 then 1
      else if mine = 0 then other
      else if other = 0 then mine
      else min mine other)"

lemma negotiate_commute: "negotiate a b = negotiate b a"
  by (simp add: negotiate_def min.commute)

lemma negotiate_pos: "0 < negotiate a b"
  by (auto simp: negotiate_def)

subsection \<open>Serialization\<close>

record queue_info =
  qi_index :: u64
  qi_address :: u64
  qi_remote_key :: nat
  qi_send_queue_num :: nat
  qi_recv_queue_num :: nat

record destination_info =
  di_local_id :: nat
  di_local_gid :: "byte list"
  di_queue_infos :: "queue_info list"
  di_xrc_queue_nums :: "nat list"
  di_message :: "byte list"

definition sizeof_queue_info :: nat where "sizeof_queue_info = 32"
definition sizeof_destination_info :: nat where "sizeof_destination_info = 48"

definition queue_info_bytes :: "queue_info \<Rightarrow> byte list" where
  "queue_info_bytes q =
     le_bytes 8 (qi_index q) @ le_bytes 8 (qi_address q) @ le_bytes 4 (qi_remote_key q) @
     le_bytes 4 (qi_send_queue_num q) @ le_bytes 4 (qi_recv_queue_num q) @ [0, 0, 0, 0]"

definition queue_info_of :: "byte list \<Rightarrow> queue_info" where
  "queue_info_of bs =
     \<lparr>qi_index = field bs 0 8, qi_address = field bs 8 8, qi_remote_key = field bs 16 4,
      qi_send_queue_num = field bs 20 4, qi_recv_queue_num = field bs 24 4\<rparr>"

definition destination_info_length :: "nat \<Rightarrow> nat \<Rightarrow> nat \<Rightarrow> nat" where
  "destination_info_length num_queues num_xrc_queues message_length =
     sizeof_destination_info + num_queues * sizeof_queue_info + num_xrc_queues * 4 + message_length"

definition serialize_connection :: "destination_info \<Rightarrow> byte list" where
  "serialize_connection d =
     le_bytes 2 (di_local_id d) @ [0, 0, 0, 0, 0, 0] @ di_local_gid d @
     le_bytes 8 (length (di_queue_infos d)) @ le_bytes 8 (length (di_xrc_queue_nums d)) @
     le_bytes 8 (length (di_message d)) @
     concat (map queue_info_bytes (di_queue_infos d)) @ concat (map (le_bytes 4) (di_xrc_queue_nums d)) @
     di_message d"

text \<open>
  The size check is computed in 64 bits; a description whose true size is larger than the buffer reads
  beyond it.
\<close>

definition deserialize_connection :: "byte list \<Rightarrow> destination_info res" where
  "deserialize_connection bs =
     (if length bs < sizeof_destination_info then Inl Out_of_bounds
      else
        (let nq = field bs 24 8; nx = field bs 32 8; ml = field bs 40 8;
             size = destination_info_length nq nx ml;
             xrc = sizeof_destination_info + nq * sizeof_queue_info
         in if length bs \<noteq> size mod 2 ^ 64
            then Inl (Assert_failed ''incorrect size of the message to deserialize'')
            else if length bs < size then Inl Out_of_bounds
            else Inr \<lparr>di_local_id = field bs 0 2, di_local_gid = take 16 (drop 8 bs),
                      di_queue_infos = map (\<lambda>i. queue_info_of (drop (sizeof_destination_info + i * sizeof_queue_info) bs)) [0..<nq],
                      di_xrc_queue_nums = map (\<lambda>i. field bs (xrc + i * 4) 4) [0..<nx],
                      di_message = take ml (drop (xrc + nx * 4) bs)\<rparr>))"

text \<open>What fits the members of the structs.\<close>

definition queue_info_ok :: "queue_info \<Rightarrow> bool" where
  "queue_info_ok q \<longleftrightarrow>
     qi_index q < 2 ^ 64 \<and> qi_address q < 2 ^ 64 \<and> qi_remote_key q < 2 ^ 32 \<and>
     qi_send_queue_num q < 2 ^ 32 \<and> qi_recv_queue_num q < 2 ^ 32"

definition destination_ok :: "destination_info \<Rightarrow> bool" where
  "destination_ok d \<longleftrightarrow>
     di_local_id d < 2 ^ 16 \<and> length (di_local_gid d) = 16 \<and> list_all queue_info_ok (di_queue_infos d) \<and>
     list_all (\<lambda>x. x < 2 ^ 32) (di_xrc_queue_nums d) \<and>
     destination_info_length (length (di_queue_infos d)) (length (di_xrc_queue_nums d)) (length (di_message d)) < 2 ^ 64"

lemma length_queue_info_bytes [simp]: "length (queue_info_bytes q) = sizeof_queue_info"
  by (simp add: queue_info_bytes_def sizeof_queue_info_def)

lemma queue_info_roundtrip: "queue_info_ok q \<Longrightarrow> queue_info_of (queue_info_bytes q @ ys) = q"
  by (simp add: queue_info_of_def queue_info_bytes_def queue_info_ok_def field_skip field_le_bytes)

lemma drop_concat_uniform:
  assumes "\<forall>x \<in> set xs. length (f x) = n" and "i \<le> length xs"
  shows "drop (i * n) (concat (map f xs) @ ys) = concat (map f (drop i xs)) @ ys"
  using assms
proof (induction i arbitrary: xs)
  case (Suc i)
  then obtain x xs' where xs: "xs = x # xs'" by (cases xs) auto
  with Suc show ?case
    by (simp add: add.commute [of n] drop_append)
qed simp

lemma length_concat_uniform: "\<forall>x \<in> set xs. length (f x) = n \<Longrightarrow> length (concat (map f xs)) = length xs * n"
  by (induction xs) auto

lemma queue_infos_roundtrip:
  assumes "list_all queue_info_ok qs"
  shows "map (\<lambda>i. queue_info_of (drop (i * sizeof_queue_info) (concat (map queue_info_bytes qs) @ ys))) [0..<length qs] = qs"
proof (rule nth_equalityI)
  fix i assume "i < length (map (\<lambda>i. queue_info_of (drop (i * sizeof_queue_info)
      (concat (map queue_info_bytes qs) @ ys))) [0..<length qs])"
  then have i: "i < length qs" by simp
  then have "drop (i * sizeof_queue_info) (concat (map queue_info_bytes qs) @ ys) =
      queue_info_bytes (qs ! i) @ concat (map queue_info_bytes (drop (Suc i) qs)) @ ys"
    by (subst drop_concat_uniform) (simp_all add: Cons_nth_drop_Suc [symmetric])
  with i assms show "map (\<lambda>i. queue_info_of (drop (i * sizeof_queue_info)
      (concat (map queue_info_bytes qs) @ ys))) [0..<length qs] ! i = qs ! i"
    by (simp add: queue_info_roundtrip list_all_length)
qed simp

lemma xrc_roundtrip:
  assumes "list_all (\<lambda>x. x < 2 ^ 32) ns"
  shows "map (\<lambda>i. field (concat (map (le_bytes 4) ns) @ ys) (i * 4) 4) [0..<length ns] = ns"
proof (rule nth_equalityI)
  fix i assume "i < length (map (\<lambda>i. field (concat (map (le_bytes 4) ns) @ ys) (i * 4) 4) [0..<length ns])"
  then have i: "i < length ns" by simp
  then have dr: "drop (i * 4) (concat (map (le_bytes 4) ns) @ ys) =
      le_bytes 4 (ns ! i) @ concat (map (le_bytes 4) (drop (Suc i) ns)) @ ys"
    by (subst drop_concat_uniform) (simp_all add: Cons_nth_drop_Suc [symmetric])
  have "field (concat (map (le_bytes 4) ns) @ ys) (i * 4) 4 = ns ! i"
    using i assms unfolding field_def dr by (simp add: list_all_length le_value_bytes)
  with i show "map (\<lambda>i. field (concat (map (le_bytes 4) ns) @ ys) (i * 4) 4) [0..<length ns] ! i = ns ! i"
    by simp
qed simp

lemma deserialize_serialize:
  assumes ok: "destination_ok d"
  shows "deserialize_connection (serialize_connection d) = Inr d"
proof -
  let ?qs = "di_queue_infos d" and ?xs = "di_xrc_queue_nums d" and ?m = "di_message d"
  let ?nq = "length ?qs" and ?nx = "length ?xs" and ?ml = "length ?m"
  let ?q = "concat (map queue_info_bytes ?qs)" and ?x = "concat (map (le_bytes 4) ?xs)"
  let ?bs = "serialize_connection d"
  have gid: "length (di_local_gid d) = 16"
    using ok by (simp add: destination_ok_def)
  define hdr where "hdr = le_bytes 2 (di_local_id d) @ [0, 0, 0, 0, 0, 0] @ di_local_gid d @
      le_bytes 8 ?nq @ le_bytes 8 ?nx @ le_bytes 8 ?ml"
  have hdr: "length hdr = 48" "?bs = hdr @ ?q @ ?x @ ?m"
    using gid by (simp_all add: hdr_def serialize_connection_def)
  have lq: "length ?q = ?nq * sizeof_queue_info" and lx: "length ?x = ?nx * 4"
    by (simp_all add: length_concat_uniform)
  have size: "length ?bs = destination_info_length ?nq ?nx ?ml"
    by (simp add: hdr(1,2) lq lx destination_info_length_def sizeof_destination_info_def)
  have small: "destination_info_length ?nq ?nx ?ml < 2 ^ 64"
    using ok by (simp add: destination_ok_def)
  then have nums: "?nq < 256 ^ 8" "?nx < 256 ^ 8" "?ml < 256 ^ 8"
    by (simp_all add: destination_info_length_def sizeof_queue_info_def)
  have id: "di_local_id d < 256 ^ 2"
    using ok by (simp add: destination_ok_def)
  have f: "field ?bs 24 8 = ?nq" "field ?bs 32 8 = ?nx" "field ?bs 40 8 = ?ml" "field ?bs 0 2 = di_local_id d"
      "take 16 (drop 8 ?bs) = di_local_gid d"
    using nums id gid by (simp_all add: hdr(2) hdr_def field_skip field_Cons field_le_bytes)
  have dq: "drop (48 + i * sizeof_queue_info) ?bs = drop (i * sizeof_queue_info) (?q @ ?x @ ?m)" for i
    by (simp add: hdr(1,2) add.commute)
  have fx: "field ?bs (48 + ?nq * sizeof_queue_info + i * 4) 4 = field (?x @ ?m) (i * 4) 4" for i
    unfolding hdr(2) by (simp add: field_skip hdr(1) lq)
  have dm: "take ?ml (drop (48 + ?nq * sizeof_queue_info + ?nx * 4) ?bs) = ?m"
    by (simp add: hdr(1,2) lq lx)
  have qs: "map (\<lambda>i. queue_info_of (drop (48 + i * sizeof_queue_info) ?bs)) [0..<?nq] = ?qs"
    unfolding dq using ok by (intro queue_infos_roundtrip) (simp add: destination_ok_def)
  have xs: "map (\<lambda>i. field ?bs (48 + ?nq * sizeof_queue_info + i * 4) 4) [0..<?nx] = ?xs"
    unfolding fx using ok by (intro xrc_roundtrip) (simp add: destination_ok_def)
  have "sizeof_destination_info \<le> length ?bs"
    by (simp add: size destination_info_length_def)
  then show ?thesis
    unfolding deserialize_connection_def Let_def f
    using size small qs xs dm by (simp add: sizeof_destination_info_def)
qed

subsection \<open>The manager\<close>

record manager_state =
  mg_local_id :: nat
  mg_local_gid :: "byte list"
  mg_device_port :: nat
  mg_gid :: int
  mg_numa :: int
  mg_server :: bool
  mg_memory :: network_memory
  mg_created :: nat
  mg_xrc_queue_nums :: "nat list"
  mg_handshakes :: "byte list list"
  mg_sockets :: nat

text \<open>
  The constructor looks for the device by its name, from the end of the list. What the device, the driver and the
  file system answer is the record below; \<open>dq_uninit\<close> is the content of the member for the GID before anything is
  assigned to it.
\<close>

record device_query =
  dq_names :: "string list"
  dq_context :: bool
  dq_pd :: bool
  dq_numa_node :: int
  dq_query_port :: int
  dq_lid :: nat
  dq_active :: bool
  dq_infiniband :: bool
  dq_gid_tbl_len :: int
  dq_query_gid :: int
  dq_device_gid :: "byte list"
  dq_uninit :: "byte list"
  dq_xrcd :: bool

definition find_device :: "string \<Rightarrow> string list \<Rightarrow> nat option" where
  "find_device device names = find (\<lambda>i. device = names ! i) (rev [0..<length names])"

definition manager_new :: "device_query \<Rightarrow> string \<Rightarrow> nat \<Rightarrow> int \<Rightarrow> int \<Rightarrow> manager_state res" where
  "manager_new dq device port gid numa =
     (if find_device device (dq_names dq) = None then Inl (Assert_failed ''Failed to find RDMA device'')
      else if \<not> dq_context dq then Inl (Assert_failed ''could not create device context'')
      else if \<not> dq_pd dq then Inl (Assert_failed ''could not create protection domain'')
      else if dq_query_port dq \<noteq> 0 then Inl (Assert_failed ''could not query the given device port'')
      else if \<not> dq_active dq then Inl (Assert_failed ''given device port is not active'')
      else if \<not> (dq_infiniband dq \<or> gid \<ge> 0) then Inl (Assert_failed ''given device is not InfiniBand, need to specify a GID'')
      else if gid \<ge> 0 \<and> \<not> gid < dq_gid_tbl_len dq then Inl (Assert_failed ''invalid GID index'')
      else if gid \<ge> 0 \<and> dq_query_gid dq \<noteq> 0 then Inl (Assert_failed ''could not query given device port GID'')
      else if \<not> dq_xrcd dq then Inl (Assert_failed ''could not create XRC domain'')
      else Inr \<lparr>mg_local_id = dq_lid dq, mg_local_gid = (if gid \<ge> 0 then dq_device_gid dq else dq_uninit dq),
                mg_device_port = port, mg_gid = gid, mg_numa = (if numa = - 1 then dq_numa_node dq else numa),
                mg_server = False, mg_memory = network_memory_init, mg_created = 0, mg_xrc_queue_nums = [],
                mg_handshakes = [], mg_sockets = 0\<rparr>)"

text \<open>\<open>bind_server\<close>: the results of \<open>socket\<close>, \<open>setsockopt\<close>, \<open>fcntl\<close>, \<open>bind\<close> and \<open>listen\<close>.\<close>

definition bind_server :: "int \<Rightarrow> int \<Rightarrow> int \<Rightarrow> int \<Rightarrow> int \<Rightarrow> manager_state \<Rightarrow> manager_state res" where
  "bind_server socket setsockopt fcntl bound listening m =
     (if \<not> socket \<ge> 0 then Inl (Assert_failed ''could not open server socket'')
      else if setsockopt \<noteq> 0 then Inl (Assert_failed ''could not set socket option to reuse address'')
      else if fcntl \<noteq> 0 then Inl (Assert_failed ''could not set socket option to non-blocking'')
      else if bound \<noteq> 0 then Inl (Assert_failed ''could not bind to local address and port'')
      else if listening \<noteq> 0 then Inl (Assert_failed ''could not listen on server socket'')
      else Inr (m\<lparr>mg_server := True, mg_sockets := Suc (mg_sockets m)\<rparr>))"

definition manager_recv_queues :: "nic \<Rightarrow> nat \<Rightarrow> manager_state \<Rightarrow> (recv_queue list \<times> manager_state) res" where
  "manager_recv_queues d n m =
     rbind (create_recv_queues d n (mg_xrc_queue_nums m)) (\<lambda>(qs, nums). Inr (qs, m\<lparr>mg_xrc_queue_nums := nums\<rparr>))"

subsection \<open>accept and connect\<close>

text \<open>One pass of the loop that creates the queues and receive buffers of a connection.\<close>

definition open_queue :: "nic \<Rightarrow> manager_state \<Rightarrow> ((queue_info \<times> qp \<times> qp) \<times> manager_state) res" where
  "open_queue d m =
     rbind (create_queues d (mg_device_port m) (mg_created m)) (\<lambda>(sq, rq).
     rbind (create_receive_buffer (mg_memory m)) (\<lambda>((index, addr), mem).
       Inr ((\<lparr>qi_index = index, qi_address = nic_base d addr, qi_remote_key = nic_key d (fst addr),
              qi_send_queue_num = qp_num sq, qi_recv_queue_num = qp_num rq\<rparr>, sq, rq),
            m\<lparr>mg_memory := mem, mg_created := Suc (mg_created m)\<rparr>)))"

fun open_queues :: "nic \<Rightarrow> nat \<Rightarrow> manager_state \<Rightarrow> ((queue_info \<times> qp \<times> qp) list \<times> manager_state) res" where
  "open_queues d 0 m = Inr ([], m)"
| "open_queues d (Suc n) m =
     rbind (open_queue d m) (\<lambda>(q, m'). rbind (open_queues d n m') (\<lambda>(qs, m''). Inr (q # qs, m'')))"

definition local_info :: "manager_state \<Rightarrow> queue_info list \<Rightarrow> byte list \<Rightarrow> destination_info" where
  "local_info m qs message =
     \<lparr>di_local_id = mg_local_id m, di_local_gid = mg_local_gid m, di_queue_infos = qs,
      di_xrc_queue_nums = mg_xrc_queue_nums m, di_message = message\<rparr>"

text \<open>The loop that activates the queues, each with the description of its counterpart.\<close>

fun activate_all ::
  "nic \<Rightarrow> manager_state \<Rightarrow> destination_info \<Rightarrow> (qp \<times> qp) list \<Rightarrow> queue_info list \<Rightarrow> (qp \<times> qp) list res" where
  "activate_all d m info (p # ps) (q # qs) =
     rbind (activate_queues d (mg_device_port m) (mg_gid m) (di_local_id info) (di_local_gid info)
              (qi_send_queue_num q) (qi_recv_queue_num q) p) (\<lambda>p'.
     rbind (activate_all d m info ps qs) (\<lambda>ps'. Inr (p' # ps')))"
| "activate_all d m info [] _ = Inr []"
| "activate_all d m info (_ # _) [] = Inl Out_of_bounds"

text \<open>
  What the peer and the socket do: the number of queues of the peer, whether the sizes are exchanged, the
  bytes of the peer's description; \<open>None\<close> and \<open>False\<close> are errors of the socket.
\<close>

record peer_io =
  io_num_queues :: "u64 option"
  io_sizes :: bool
  io_bytes :: "byte list option"

text \<open>
  The body that \<open>accept\<close> and \<open>connect\<close> share once the socket is connected. The send queues get the receive
  buffers of the peer, and the queue pairs are labelled with its message. On an error the queues are destroyed; the
  receive buffers are not given back and the socket stays open.
\<close>

definition remote_queue :: "destination_info \<Rightarrow> queue_info \<Rightarrow> send_queue" where
  "remote_queue info q = send_queue_init (qi_index q) (qi_address q) (qi_remote_key q) (di_xrc_queue_nums info)"

definition labelled :: "byte list \<Rightarrow> qp \<times> qp \<Rightarrow> qp \<times> qp" where
  "labelled handshake = (\<lambda>(sq, rq). (sq\<lparr>qp_context := Some handshake\<rparr>, rq\<lparr>qp_context := Some handshake\<rparr>))"

type_synonym connection = "(send_queue \<times> qp \<times> qp) list \<times> byte list"

definition establish ::
  "nic \<Rightarrow> u64 \<Rightarrow> peer_io \<Rightarrow> manager_state \<Rightarrow> (connection option \<times> manager_state) res" where
  "establish d num_queues io m =
     (case io_num_queues io of
        None \<Rightarrow> Inr (None, m)
      | Some other \<Rightarrow>
          rbind (open_queues d (negotiate num_queues other) m) (\<lambda>(qs, m').
            case (io_sizes io, io_bytes io) of
              (True, Some bytes) \<Rightarrow>
                rbind (deserialize_connection bytes) (\<lambda>info.
                let remote = take (negotiate num_queues other) (di_queue_infos info) in
                rbind (activate_all d m' info (map snd qs) remote) (\<lambda>ps.
                Inr (Some (zip (map (remote_queue info) remote) (map (labelled (di_message info)) ps), di_message info),
                     m'\<lparr>mg_sockets := mg_sockets m' - 1, mg_handshakes := mg_handshakes m' @ [di_message info]\<rparr>)))
            | _ \<Rightarrow> rbind (free_queues d (map snd qs) [mg_created m..<mg_created m']) (\<lambda>_. Inr (None, m'))))"

text \<open>\<open>accept\<close> first polls the listening socket; \<open>err\<close> is \<open>errno\<close> at that moment.\<close>

definition EINTR :: int where "EINTR = 4"

definition poll_ready :: "int \<Rightarrow> int \<Rightarrow> bool res" where
  "poll_ready ret err =
     (if \<not> (ret \<ge> 0 \<or> err = EINTR) then Inl (Assert_failed ''could not poll socket'')
      else Inr (\<not> (ret = 0 \<or> err = EINTR)))"

definition accept_connection ::
  "nic \<Rightarrow> int \<Rightarrow> int \<Rightarrow> int \<Rightarrow> u64 \<Rightarrow> peer_io \<Rightarrow> manager_state \<Rightarrow> (connection option \<times> manager_state) res" where
  "accept_connection d ret err socket num_queues io m =
     (if \<not> mg_server m then Inl (Assert_failed ''accept called on a non-server manager'')
      else rbind (poll_ready ret err) (\<lambda>ready.
        if \<not> ready \<or> socket < 0 then Inr (None, m)
        else establish d num_queues io (m\<lparr>mg_sockets := Suc (mg_sockets m)\<rparr>)))"

definition connect_to ::
  "nic \<Rightarrow> int \<Rightarrow> int \<Rightarrow> u64 \<Rightarrow> peer_io \<Rightarrow> manager_state \<Rightarrow> (connection option \<times> manager_state) res" where
  "connect_to d socket ret num_queues io m =
     (let m' = (if socket \<ge> 0 then m\<lparr>mg_sockets := Suc (mg_sockets m)\<rparr> else m)
      in if ret \<noteq> 0 then Inr (None, m') else establish d num_queues io m')"

subsection \<open>What an end of a connection does\<close>

definition opened :: "queue_info \<times> qp \<times> qp \<Rightarrow> bool" where
  "opened = (\<lambda>(q, p). fresh_pair (qi_send_queue_num q) (qi_recv_queue_num q) p)"

lemma open_queues_length: "open_queues d n m = Inr (qs, m') \<Longrightarrow> length qs = n \<and> mg_created m' = mg_created m + n"
  by (induction n arbitrary: m qs) (auto simp: rbind_eq_Inr open_queue_def)

lemma open_queues_opened:
  assumes "documented d" and "open_queues d n m = Inr (qs, m')"
  shows "\<forall>q \<in> set qs. opened q"
  using assms(2)
proof (induction n arbitrary: m qs)
  case (Suc n)
  then obtain q m1 qs' where q: "open_queue d m = Inr (q, m1)" and qs': "open_queues d n m1 = Inr (qs', m')" "qs = q # qs'"
    by (auto simp: rbind_eq_Inr)
  then have "opened q"
    using create_queues_fresh [OF assms(1)] by (fastforce simp: open_queue_def rbind_eq_Inr opened_def)
  with Suc.IH [OF qs'(1)] qs'(2) show ?case by simp
qed simp

lemma open_queues_memory:
  assumes "open_queues d n m = Inr (qs, m')" and "receive_inv U (mg_memory m)"
  shows "receive_inv (U \<union> qi_index ` fst ` set qs) (mg_memory m') \<and> distinct (map (qi_index \<circ> fst) qs) \<and>
         qi_index ` fst ` set qs \<inter> U = {}"
  using assms
proof (induction n arbitrary: m qs U)
  case (Suc n)
  then obtain q m1 qs' where q: "open_queue d m = Inr (q, m1)" and qs': "open_queues d n m1 = Inr (qs', m')"
    and qs: "qs = q # qs'"
    by (auto simp: rbind_eq_Inr)
  from q obtain addr where "create_receive_buffer (mg_memory m) = Inr ((qi_index (fst q), addr), mg_memory m1)"
    by (auto simp: open_queue_def rbind_eq_Inr)
  note one = create_receive_buffer_ok [OF Suc.prems(2) this]
  from Suc.IH [OF qs' one(2)] one(1) show ?case
    by (auto simp: qs)
qed simp

lemma open_queues_frame:
  assumes "open_queues d n m = Inr (qs, m')"
  shows "m' = m\<lparr>mg_memory := mg_memory m', mg_created := mg_created m'\<rparr>"
  using assms
proof (induction n arbitrary: m qs)
  case (Suc n)
  then obtain q m1 qs' where "open_queue d m = Inr (q, m1)" and "open_queues d n m1 = Inr (qs', m')"
    by (auto simp: rbind_eq_Inr)
  then show ?case
    using Suc.IH [of m1 qs'] by (cases m') (auto simp: open_queue_def rbind_eq_Inr)
qed simp

text \<open>
  Every queue of an end is wired to its counterpart, or an assertion fails, and then the device does not support the attributes of
  one of the paths.
\<close>

definition supports_path :: "nic \<Rightarrow> manager_state \<Rightarrow> destination_info \<Rightarrow> queue_info \<Rightarrow> bool" where
  "supports_path d m info q \<longleftrightarrow>
     (\<forall>a \<in> path_attrs (mg_device_port m) (mg_gid m) (di_local_id info) (di_local_gid info) (qi_send_queue_num q) (qi_recv_queue_num q).
        supports d a)"

lemma activate_all_wired:
  assumes "documented d" and "\<forall>q \<in> set qs. opened q" and "length remote = length qs"
  shows "(\<exists>ps. activate_all d m info (map snd qs) remote = Inr ps \<and> length ps = length qs \<and>
    (\<forall>i < length qs. wired (mg_gid m) (di_local_id info) (di_local_gid info) (qi_send_queue_num (remote ! i))
       (qi_recv_queue_num (remote ! i)) (ps ! i) \<and>
       qp_num (fst (ps ! i)) = qi_send_queue_num (fst (qs ! i)) \<and> qp_num (snd (ps ! i)) = qi_recv_queue_num (fst (qs ! i)))) \<or>
    (\<exists>e. activate_all d m info (map snd qs) remote = Inl (Assert_failed e) \<and> \<not> (\<forall>q \<in> set remote. supports_path d m info q))"
  using assms(2,3)
proof (induction qs arbitrary: remote)
  case (Cons q qs)
  then obtain r remote' where remote: "remote = r # remote'" "length remote' = length qs"
    by (cases remote) auto
  obtain qi sq rq where q: "q = (qi, sq, rq)" by (cases q)
  let ?step = "activate_queues d (mg_device_port m) (mg_gid m) (di_local_id info) (di_local_gid info)
       (qi_send_queue_num r) (qi_recv_queue_num r) (sq, rq)"
  have "fresh_pair (qi_send_queue_num qi) (qi_recv_queue_num qi) (sq, rq)"
    using Cons.prems(1) by (simp add: opened_def q)
  from activate_fresh [OF assms(1) this, of "mg_device_port m" "mg_gid m" "di_local_id info" "di_local_gid info"
      "qi_send_queue_num r" "qi_recv_queue_num r"]
  show ?case
  proof (elim disjE exE conjE)
    fix e assume "?step = Inl (Assert_failed e)" and
      "\<not> (\<forall>a \<in> path_attrs (mg_device_port m) (mg_gid m) (di_local_id info) (di_local_gid info) (qi_send_queue_num r) (qi_recv_queue_num r).
         supports d a)"
    then show ?thesis
      by (simp add: remote(1) q supports_path_def)
  next
    fix sq' rq' assume p: "?step = Inr (sq', rq')"
      "wired (mg_gid m) (di_local_id info) (di_local_gid info) (qi_send_queue_num r) (qi_recv_queue_num r) (sq', rq')"
      "qp_num sq' = qi_send_queue_num qi" "qp_num rq' = qi_recv_queue_num qi"
    have opened: "\<forall>q \<in> set qs. opened q"
      using Cons.prems(1) by simp
    from Cons.IH [OF opened remote(2)] show ?thesis
    proof (elim disjE exE conjE)
      fix e assume "activate_all d m info (map snd qs) remote' = Inl (Assert_failed e)" and "\<not> (\<forall>q \<in> set remote'. supports_path d m info q)"
      with p(1) show ?thesis by (simp add: remote(1) q)
    next
      fix ps assume "activate_all d m info (map snd qs) remote' = Inr ps" "length ps = length qs"
        "\<forall>i < length qs. wired (mg_gid m) (di_local_id info) (di_local_gid info) (qi_send_queue_num (remote' ! i))
           (qi_recv_queue_num (remote' ! i)) (ps ! i) \<and>
           qp_num (fst (ps ! i)) = qi_send_queue_num (fst (qs ! i)) \<and> qp_num (snd (ps ! i)) = qi_recv_queue_num (fst (qs ! i))"
      with p show ?thesis
        by (intro disjI1 exI [of _ "(sq', rq') # ps"]) (auto simp: remote(1) q nth_Cons split: nat.splits)
    qed
  qed
qed simp

text \<open>What an end has made of the description that its peer sent it.\<close>

definition agrees ::
  "manager_state \<Rightarrow> (queue_info \<times> qp \<times> qp) list \<Rightarrow> manager_state \<Rightarrow> (queue_info \<times> qp \<times> qp) list \<Rightarrow> byte list \<Rightarrow>
   (send_queue \<times> qp \<times> qp) list \<Rightarrow> bool" where
  "agrees ma qsa mb qsb msgb cs \<longleftrightarrow> length cs = length qsb \<and>
     (\<forall>i < length cs. let (queue, sq, rq) = cs ! i; mine = fst (qsa ! i); theirs = fst (qsb ! i) in
        queue = send_queue_init (qi_index theirs) (qi_address theirs) (qi_remote_key theirs) (mg_xrc_queue_nums mb) \<and>
        wired (mg_gid ma) (mg_local_id mb) (mg_local_gid mb) (qi_send_queue_num theirs) (qi_recv_queue_num theirs) (sq, rq) \<and>
        qp_num sq = qi_send_queue_num mine \<and> qp_num rq = qi_recv_queue_num mine \<and>
        qp_context sq = Some msgb \<and> qp_context rq = Some msgb)"

definition told :: "u64 \<Rightarrow> manager_state \<Rightarrow> (queue_info \<times> qp \<times> qp) list \<Rightarrow> byte list \<Rightarrow> peer_io" where
  "told n m qs message =
     \<lparr>io_num_queues = Some n, io_sizes = True, io_bytes = Some (serialize_connection (local_info m (map fst qs) message))\<rparr>"

lemma establish_agrees:
  assumes doc: "documented da" and open_a: "open_queues da (negotiate na nb) ma = Inr (qsa, ma1)"
    and open_b: "open_queues db (negotiate nb na) mb = Inr (qsb, mb1)" and ok: "destination_ok (local_info mb (map fst qsb) msgb)"
  shows "(\<exists>cs. establish da na (told nb mb qsb msgb) ma =
      Inr (Some (cs, msgb), ma1\<lparr>mg_sockets := mg_sockets ma - 1, mg_handshakes := mg_handshakes ma @ [msgb]\<rparr>) \<and>
      agrees ma qsa mb qsb msgb cs) \<or>
    (\<exists>e. establish da na (told nb mb qsb msgb) ma = Inl (Assert_failed e) \<and>
      \<not> (\<forall>q \<in> set (map fst qsb). supports_path da ma (local_info mb (map fst qsb) msgb) q))"
proof -
  let ?info = "local_info mb (map fst qsb) msgb" and ?io = "told nb mb qsb msgb"
  have len: "length qsa = negotiate na nb" "length qsb = negotiate na nb"
    using open_queues_length [OF open_a] open_queues_length [OF open_b] by (simp_all add: negotiate_commute)
  have frame: "mg_gid ma1 = mg_gid ma" "mg_sockets ma1 = mg_sockets ma" "mg_handshakes ma1 = mg_handshakes ma"
    "mg_device_port ma1 = mg_device_port ma"
    by (subst open_queues_frame [OF open_a], simp)+
  have run: "establish da na ?io ma =
      rbind (activate_all da ma1 ?info (map snd qsa) (map fst qsb)) (\<lambda>ps.
        Inr (Some (zip (map (remote_queue ?info) (map fst qsb)) (map (labelled msgb) ps), msgb),
             ma1\<lparr>mg_sockets := mg_sockets ma - 1, mg_handshakes := mg_handshakes ma @ [msgb]\<rparr>))"
    using len by (simp add: establish_def told_def open_a deserialize_serialize [OF ok] frame Let_def) (simp add: local_info_def)
  have path: "supports_path da ma1 = supports_path da ma"
    by (simp add: supports_path_def frame fun_eq_iff)
  have "length (map fst qsb) = length qsa"
    using len by simp
  from activate_all_wired [OF doc open_queues_opened [OF doc open_a] this, of ma1 ?info]
  show ?thesis
  proof (elim disjE exE conjE)
    fix e assume "activate_all da ma1 ?info (map snd qsa) (map fst qsb) = Inl (Assert_failed e)"
      and "\<not> (\<forall>q \<in> set (map fst qsb). supports_path da ma1 ?info q)"
    then show ?thesis
      by (simp only: run path) simp
  next
    fix ps assume ps: "activate_all da ma1 ?info (map snd qsa) (map fst qsb) = Inr ps" "length ps = length qsa"
      "\<forall>i < length qsa. wired (mg_gid ma1) (di_local_id ?info) (di_local_gid ?info) (qi_send_queue_num (map fst qsb ! i))
         (qi_recv_queue_num (map fst qsb ! i)) (ps ! i) \<and>
         qp_num (fst (ps ! i)) = qi_send_queue_num (fst (qsa ! i)) \<and> qp_num (snd (ps ! i)) = qi_recv_queue_num (fst (qsa ! i))"
    let ?cs = "zip (map (remote_queue ?info) (map fst qsb)) (map (labelled msgb) ps)"
    have "let (queue, sq, rq) = ?cs ! i; mine = fst (qsa ! i); theirs = fst (qsb ! i) in
       queue = send_queue_init (qi_index theirs) (qi_address theirs) (qi_remote_key theirs) (mg_xrc_queue_nums mb) \<and>
       wired (mg_gid ma) (mg_local_id mb) (mg_local_gid mb) (qi_send_queue_num theirs) (qi_recv_queue_num theirs) (sq, rq) \<and>
       qp_num sq = qi_send_queue_num mine \<and> qp_num rq = qi_recv_queue_num mine \<and>
       qp_context sq = Some msgb \<and> qp_context rq = Some msgb" if "i < length ?cs" for i
      using that ps(2) spec [OF ps(3), of i] len
      by (cases "ps ! i") (simp add: remote_queue_def labelled_def Let_def wired_def frame, simp add: local_info_def)
    moreover have "length ?cs = length qsb"
      using len ps(2) by simp
    ultimately have "agrees ma qsa mb qsb msgb ?cs"
      unfolding agrees_def by blast
    with ps(1) show ?thesis
      by (simp add: run)
  qed
qed

text \<open>An exchange that fails after the queues were opened keeps their receive buffers and the socket for ever.\<close>

lemma destroy_all_ok: "(\<And>q. ok q) \<Longrightarrow> destroy_all ok error qs = Inr ()"
  by (induction qs) simp_all

lemma establish_leaks:
  assumes "open_queues d (negotiate n other) m = Inr (qs, m1)" and "\<And>q. nic_destroy d q" and "\<And>n. nic_destroy_cq d n"
    and "io_num_queues io = Some other" and "\<not> io_sizes io \<or> io_bytes io = None"
  shows "establish d n io m = Inr (None, m1)"
  using assms by (auto simp: establish_def free_queues_def destroy_all_ok split: bool.splits option.splits)

subsection \<open>Asynchronous events\<close>

datatype event_type = QP_FATAL | QP_REQ_ERR | QP_ACCESS_ERR | PATH_MIG_ERR | OTHER_EVENT

text \<open>An event with the handshake message of the queue pair it is about, if there is one.\<close>

type_synonym async_event = "event_type \<times> byte list option"

definition poll_events_once :: "int \<Rightarrow> int \<Rightarrow> async_event option \<Rightarrow> async_event queue \<Rightarrow> async_event queue res" where
  "poll_events_once ret err event q =
     (if \<not> (ret \<ge> 0 \<or> err = EINTR) then Inl (Assert_failed ''could not poll async event fd'')
      else if ret = 0 \<or> err = EINTR then Inr q
      else case event of Some e \<Rightarrow> Inr (enqueue e q) | None \<Rightarrow> Inr q)"

definition process_failure :: "async_event queue \<Rightarrow> byte list option \<times> async_event queue" where
  "process_failure q =
     (case dequeue q of
        (Some (ty, context), q') \<Rightarrow>
          (case ty of OTHER_EVENT \<Rightarrow> (None, q') | _ \<Rightarrow> (context, q'))
      | (None, q') \<Rightarrow> (None, q'))"

subsection \<open>Properties\<close>

text \<open>
  C31. The description of a connection survives the wire: what one end serializes, the other end reads back exactly,
  for any number of queues and receive queue numbers and any first message.
\<close>

theorem connection_roundtrip:
  assumes "destination_ok d"
  shows "deserialize_connection (serialize_connection d) = Inr d"
  by (rule deserialize_serialize [OF assms])

definition example_destination :: destination_info where
  "example_destination =
     \<lparr>di_local_id = 17, di_local_gid = replicate 16 1,
      di_queue_infos = [\<lparr>qi_index = 3, qi_address = 4096, qi_remote_key = 9, qi_send_queue_num = 21, qi_recv_queue_num = 22\<rparr>],
      di_xrc_queue_nums = [7, 8], di_message = [2, 0, 0, 0, 0, 0, 0, 0]\<rparr>"

theorem connection_roundtrip_witness:
  "deserialize_connection (serialize_connection example_destination) = Inr example_destination"
  by (rule connection_roundtrip)
     (simp add: destination_ok_def example_destination_def queue_info_ok_def destination_info_length_def
        sizeof_destination_info_def sizeof_queue_info_def)

text \<open>
  C32. Both ends of a connection agree: given the description that the peer sends, an end gets a connection with as many
  queues as the peer has receive buffers for it. Its \<open>i\<close>-th send queue writes into the \<open>i\<close>-th of these buffers, both
  queue pairs are ready to send, the \<open>i\<close>-th send queue pair leads to the \<open>i\<close>-th receive queue pair of the peer and
  the other way round, under the numbers that the end itself announces, and the first message of the peer arrives
  unchanged and labels the queue pairs. Of \<open>ibv_modify_qp\<close> this takes that a call that succeeds sets the attributes that its mask names.
  A call that reports an error ends the process by an assertion; with the masks of the code this happens only if the device does not
  support the values for one of the queues, given with the attributes that the transition requires.
\<close>

theorem ends_agree:
  assumes "documented da" and "open_queues da (negotiate na nb) ma = Inr (qsa, ma1)"
    and "open_queues db (negotiate nb na) mb = Inr (qsb, mb1)" and "destination_ok (local_info mb (map fst qsb) msgb)"
  shows "(\<exists>cs. establish da na (told nb mb qsb msgb) ma =
      Inr (Some (cs, msgb), ma1\<lparr>mg_sockets := mg_sockets ma - 1, mg_handshakes := mg_handshakes ma @ [msgb]\<rparr>) \<and>
      agrees ma qsa mb qsb msgb cs) \<or>
    (\<exists>e. establish da na (told nb mb qsb msgb) ma = Inl (Assert_failed e) \<and>
      \<not> (\<forall>q \<in> set (map fst qsb). supports_path da ma (local_info mb (map fst qsb) msgb) q))"
  by (rule establish_agrees [OF assms])

text \<open>A device that knows the port and the packet size that are used, and rejects others.\<close>

definition example_modify :: "qp \<Rightarrow> qp_attr \<Rightarrow> qp_mask set \<Rightarrow> qp option" where
  "example_modify q a flags =
     (if required (qp_type q) (qa_state (qp_attrs q)) (qa_state a) = Some flags \<and>
         (QP_PORT \<in> flags \<longrightarrow> qa_port_num a = 1) \<and> (QP_PATH_MTU \<in> flags \<longrightarrow> qa_path_mtu a = IBV_MTU_4096)
      then Some (q\<lparr>qp_attrs := set_attrs flags a (qp_attrs q)\<rparr>) else None)"

definition example_nic :: nic where
  "example_nic = \<lparr>nic_base = (\<lambda>(p, j). 4096 + j), nic_key = (\<lambda>p. 9),
     nic_create = (\<lambda>n. \<lparr>cr_cq = True, cr_send = Some 21, cr_recv = Some 22\<rparr>),
     nic_create_srq = (\<lambda>n. \<lparr>sc_cq = True, sc_srq = True, sc_num = Some 7, sc_post = 0\<rparr>),
     nic_modify = example_modify, nic_destroy = (\<lambda>_. True), nic_destroy_cq = (\<lambda>_. True)\<rparr>"

definition example_manager :: manager_state where
  "example_manager = \<lparr>mg_local_id = 17, mg_local_gid = replicate 16 1, mg_device_port = 1, mg_gid = - 1, mg_numa = 0,
     mg_server = True, mg_memory = network_memory_init, mg_created = 0, mg_xrc_queue_nums = [7], mg_handshakes = [],
     mg_sockets = 1\<rparr>"

lemma example_documented: "documented example_nic"
  by (simp add: documented_def example_nic_def example_modify_def)

lemma example_supports: "supports_path example_nic example_manager info q"
  by (auto simp: supports_path_def path_attrs_def supports_def example_nic_def example_modify_def route_attr_def
      elim!: required.elims)

lemma example_create: "\<exists>sq rq. create_queues example_nic 1 0 = Inr (sq, rq) \<and> qp_num sq = 21 \<and> qp_num rq = 22"
proof -
  have "required ty QPS_RESET QPS_INIT = Some init_flags" "QP_PATH_MTU \<notin> init_flags" for ty
    by (auto simp: init_flags_def)
  then show ?thesis
    by (simp add: create_queues_def example_nic_def modify_qp_def example_modify_def new_qp_def init_attr_def zero_attr_def)
qed

lemma example_open:
  "\<exists>q m. open_queues example_nic 1 example_manager = Inr ([q], m) \<and> qi_index (fst q) = 0 \<and> queue_info_ok (fst q)"
proof -
  let ?rb = "write_page 0 0 [0..<BUFFERS_PER_PAGE] (replicate MAX_QUEUE_PAIRS None)"
  have "?rb ! 0 = Some (0, 0)"
    by (simp add: write_page_nth MAX_QUEUE_PAIRS_def BUFFERS_PER_PAGE_value)
  moreover obtain sq rq where "create_queues example_nic 1 0 = Inr (sq, rq)" "qp_num sq = 21" "qp_num rq = 22"
    using example_create by blast
  ultimately show ?thesis
    by (simp add: open_queue_def example_manager_def example_receive_buffer)
      (simp add: example_nic_def Let_def queue_info_ok_def)
qed

theorem ends_agree_witness:
  "\<exists>q m queue sq rq. open_queues example_nic 1 example_manager = Inr ([q], m) \<and>
     establish example_nic 1 (told 1 example_manager [q] [5]) example_manager =
       Inr (Some ([(queue, sq, rq)], [5]), m\<lparr>mg_sockets := 0, mg_handshakes := [[5]]\<rparr>) \<and>
     qa_state (qp_attrs sq) = QPS_RTS \<and> qa_dest_qp_num (qp_attrs sq) = qi_recv_queue_num (fst q)"
proof -
  obtain q m where q: "open_queues example_nic 1 example_manager = Inr ([q], m)" and ok: "queue_info_ok (fst q)"
    using example_open by blast
  have n: "open_queues example_nic (negotiate 1 1) example_manager = Inr ([q], m)"
    using q by (simp add: negotiate_def)
  have "destination_ok (local_info example_manager (map fst [q]) [5])"
    using ok by (simp add: destination_ok_def local_info_def example_manager_def destination_info_length_def
        sizeof_destination_info_def sizeof_queue_info_def)
  from ends_agree [OF example_documented n n this] example_supports obtain cs where cs:
    "establish example_nic 1 (told 1 example_manager [q] [5]) example_manager =
       Inr (Some (cs, [5]), m\<lparr>mg_sockets := 0, mg_handshakes := [[5]]\<rparr>)" "agrees example_manager [q] example_manager [q] [5] cs"
    by (auto simp: example_manager_def)
  from cs(2) obtain queue sq rq where c: "cs = [(queue, sq, rq)]"
    by (cases cs) (auto simp: agrees_def)
  moreover have "qa_state (qp_attrs sq) = QPS_RTS" "qa_dest_qp_num (qp_attrs sq) = qi_recv_queue_num (fst q)"
    using cs(2) by (simp_all add: agrees_def c wired_def Let_def)
  ultimately show ?thesis
    using q cs(1) by blast
qed

text \<open>
  C40. A connection that fails after its queues were created, in the exchange of the sizes or of the descriptions, leaks:
  \<open>accept\<close> returns without a connection, the queue pairs are destroyed, but the indices of their receive buffers stay marked as used and the socket stays open.
\<close>

theorem failed_connection_leaks:
  assumes "mg_server m" and "0 \<le> socket" and "receive_inv U (mg_memory m)"
    and "open_queues d (negotiate n other) (m\<lparr>mg_sockets := Suc (mg_sockets m)\<rparr>) = Inr (qs, m1)"
    and "\<And>q. nic_destroy d q" and "\<And>n. nic_destroy_cq d n"
    and "io_num_queues io = Some other" and "\<not> io_sizes io \<or> io_bytes io = None"
  shows "accept_connection d 1 0 socket n io m = Inr (None, m1) \<and>
    receive_inv (U \<union> qi_index ` fst ` set qs) (mg_memory m1) \<and> card (qi_index ` fst ` set qs) = negotiate n other \<and>
    qi_index ` fst ` set qs \<inter> U = {} \<and> mg_sockets m1 = Suc (mg_sockets m)"
proof -
  have "receive_inv (U \<union> qi_index ` fst ` set qs) (mg_memory m1) \<and> distinct (map (qi_index \<circ> fst) qs) \<and> qi_index ` fst ` set qs \<inter> U = {}"
    using open_queues_memory [OF assms(4)] assms(3) by simp
  moreover from this have "card (qi_index ` fst ` set qs) = length qs"
    using distinct_card [of "map (qi_index \<circ> fst) qs"] by (simp add: image_comp)
  moreover have "mg_sockets m1 = Suc (mg_sockets m)"
    using open_queues_frame [OF assms(4)] by (metis manager_state.select_convs(11) manager_state.surjective manager_state.update_convs(7,8,11))
  ultimately show ?thesis
    using assms(1,2) open_queues_length [OF assms(4)] establish_leaks [OF assms(4-8)]
    by (simp add: accept_connection_def poll_ready_def EINTR_def)
qed

theorem failed_connection_leaks_witness:
  "\<exists>m'. accept_connection example_nic 1 0 5 1 \<lparr>io_num_queues = Some 1, io_sizes = True, io_bytes = None\<rparr>
       (example_manager\<lparr>mg_sockets := 0\<rparr>) = Inr (None, m') \<and> receive_inv {0} (mg_memory m') \<and> mg_sockets m' = 1"
proof -
  let ?m = "example_manager\<lparr>mg_sockets := 0\<rparr>"
  have "?m\<lparr>mg_sockets := Suc (mg_sockets ?m)\<rparr> = example_manager"
    by (simp add: example_manager_def)
  then obtain q m where q: "open_queues example_nic (negotiate 1 1) (?m\<lparr>mg_sockets := Suc (mg_sockets ?m)\<rparr>) = Inr ([q], m)"
    and "qi_index (fst q) = 0"
    using example_open by (auto simp: negotiate_def)
  moreover have "receive_inv {} (mg_memory ?m)" "mg_server ?m"
    using receive_inv_init by (simp_all add: example_manager_def)
  ultimately show ?thesis
    using failed_connection_leaks [OF _ _ _ q, of 5 "{}" "\<lparr>io_num_queues = Some 1, io_sizes = True, io_bytes = None\<rparr>"]
    by (simp add: example_nic_def)
qed

end
