(* ===== verification/Handles.thy ===== *)
theory Handles
  imports Connection
begin

text \<open>
  The objects through which the rest of the program holds memory and queues of the network manager, and their
  lifetime: \<open>src/network/buffer.h\<close>, \<open>src/network/buffer.cpp\<close>, and the moves and destructors in
  \<open>src/network/send_queue.h\<close>, \<open>src/network/send_queue.cpp\<close>, \<open>src/network/recv_queue.h\<close> and \<open>src/network/recv_queue.cpp\<close>.
  All moves are swaps; the destructor of a buffer gives its memory back to the manager.
\<close>

subsection \<open>Buffers\<close>

text \<open>A null pointer to the manager is \<open>False\<close>. The local key of a default object is not initialized, an argument.\<close>

record buffer_obj =
  bo_buffer :: "address option"
  bo_local_key :: nat
  bo_manager :: bool

definition buffer_default :: "nat \<Rightarrow> buffer_obj" where
  "buffer_default key = \<lparr>bo_buffer = None, bo_local_key = key, bo_manager = False\<rparr>"

definition buffer_new :: "address \<Rightarrow> nat \<Rightarrow> buffer_obj" where
  "buffer_new b key = \<lparr>bo_buffer = Some b, bo_local_key = key, bo_manager = True\<rparr>"

text \<open>The move constructor and the move assignment: the object and the other one afterwards.\<close>

definition buffer_move :: "nat \<Rightarrow> buffer_obj \<Rightarrow> buffer_obj \<times> buffer_obj" where
  "buffer_move key other = (other, buffer_default key)"

definition buffer_assign :: "buffer_obj \<Rightarrow> buffer_obj \<Rightarrow> buffer_obj \<times> buffer_obj" where
  "buffer_assign this other = (other, this)"

definition buffer_destroy :: "buffer_obj \<Rightarrow> network_memory \<Rightarrow> network_memory" where
  "buffer_destroy x m =
     (case (bo_manager x, bo_buffer x) of (True, Some b) \<Rightarrow> put_buffer b m | _ \<Rightarrow> m)"

text \<open>
  The life of buffer objects: \<open>h\<close> are the objects that exist, by name. \<open>get_buffers\<close> creates objects with new names; an
  object is moved into a new or an existing one, and destroyed.
\<close>

inductive buffers_run :: "(nat \<rightharpoonup> buffer_obj) \<Rightarrow> network_memory \<Rightarrow> bool" where
  buffers_start: "buffers_run Map.empty network_memory_init"
| buffers_get: "buffers_run h m \<Longrightarrow> get_buffers n m = (bs, m') \<Longrightarrow> length xs = n \<Longrightarrow> distinct xs \<Longrightarrow> set xs \<inter> dom h = {} \<Longrightarrow>
    buffers_run (h ++ map_of (zip xs (map (\<lambda>b. buffer_new b key) bs))) m'"
| buffers_default: "buffers_run h m \<Longrightarrow> h x = None \<Longrightarrow> buffers_run (h(x \<mapsto> buffer_default key)) m"
| buffers_move: "buffers_run h m \<Longrightarrow> h x = None \<Longrightarrow> h y = Some other \<Longrightarrow> buffer_move key other = (this', other') \<Longrightarrow>
    buffers_run (h(x \<mapsto> this', y \<mapsto> other')) m"
| buffers_assign: "buffers_run h m \<Longrightarrow> h x = Some this \<Longrightarrow> h y = Some other \<Longrightarrow> x \<noteq> y \<Longrightarrow> buffer_assign this other = (this', other') \<Longrightarrow>
    buffers_run (h(x \<mapsto> this', y \<mapsto> other')) m"
| buffers_destroy: "buffers_run h m \<Longrightarrow> h x = Some this \<Longrightarrow> buffers_run (h(x := None)) (buffer_destroy this m)"

subsection \<open>Who owns which buffer\<close>

definition owns :: "(nat \<rightharpoonup> buffer_obj) \<Rightarrow> nat \<Rightarrow> address option" where
  "owns h x = (case h x of Some obj \<Rightarrow> if bo_manager obj then bo_buffer obj else None | None \<Rightarrow> None)"

lemma owns_simps [simp]:
  "owns Map.empty x = None" "owns (h(x := None)) y = (if x = y then None else owns h y)"
  "owns (h(x \<mapsto> obj)) y = (if x = y then if bo_manager obj then bo_buffer obj else None else owns h y)"
  by (simp_all add: owns_def)

text \<open>All memory of the pages is free or owned by one object.\<close>

definition owned_ok :: "(nat \<rightharpoonup> address) \<Rightarrow> network_memory \<Rightarrow> bool" where
  "owned_ok f m \<longleftrightarrow>
     buffers_inv (ran f) m \<and> inj_on f (dom f) \<and> set (nm_free_list m) \<union> ran f = (\<Union>p < nm_pages m. set (page_buffers p))"

definition objects_ok :: "(nat \<rightharpoonup> buffer_obj) \<Rightarrow> bool" where
  "objects_ok h \<longleftrightarrow> (\<forall>x obj. h x = Some obj \<longrightarrow> bo_manager obj = (bo_buffer obj \<noteq> None))"

lemma refill_pages:
  assumes "set (nm_free_list m) \<union> U = (\<Union>p < nm_pages m. set (page_buffers p))"
  shows "set (nm_free_list (refill n m)) \<union> U = (\<Union>p < nm_pages (refill n m). set (page_buffers p))"
  using assms
proof (induction n m rule: refill.induct)
  case (1 n m)
  show ?case
  proof (cases "length (nm_free_list m) < n")
    case True
    have "set (nm_free_list (add_page m)) \<union> U = (\<Union>p < nm_pages (add_page m). set (page_buffers p))"
      using 1(2) by (auto simp: add_page_def lessThan_Suc)
    from 1(1) [OF True this] True show ?thesis
      by (subst (1 2) refill.simps) simp
  qed (use 1(2) in \<open>simp add: refill.simps\<close>)
qed

lemma get_buffers_pages:
  assumes "get_buffers n m = (bs, m')" and "set (nm_free_list m) \<union> U = (\<Union>p < nm_pages m. set (page_buffers p))"
  shows "set (nm_free_list m') \<union> (U \<union> set bs) = (\<Union>p < nm_pages m'. set (page_buffers p))"
proof -
  have "nm_free_list (refill n m) = bs @ nm_free_list m'" "nm_pages m' = nm_pages (refill n m)"
    using assms(1) by (auto simp: get_buffers_def Let_def)
  with refill_pages [OF assms(2), of n] show ?thesis by auto
qed

lemma owned_ok_get:
  assumes ok: "owned_ok f m" and get: "get_buffers n m = (bs, m')" and xs: "length xs = n" "distinct xs" "set xs \<inter> dom f = {}"
  shows "owned_ok (f ++ map_of (zip xs bs)) m'"
proof -
  have inv: "buffers_inv (ran f) m" and inj: "inj_on f (dom f)"
    and all: "set (nm_free_list m) \<union> ran f = (\<Union>p < nm_pages m. set (page_buffers p))"
    using ok by (simp_all add: owned_ok_def)
  note bs = get_buffers_ok [OF inv get]
  have dom: "dom (map_of (zip xs bs)) = set xs" and ran: "ran (map_of (zip xs bs)) = set bs"
    using xs bs(1) by (simp_all add: ran_map_of_zip)
  then have new_ran: "ran (f ++ map_of (zip xs bs)) = ran f \<union> set bs"
    using xs(3) by (subst ran_map_add) auto
  have inj': "inj_on (map_of (zip xs bs)) (set xs)"
  proof (rule inj_onI)
    fix x y assume "x \<in> set xs" "y \<in> set xs" and same: "map_of (zip xs bs) x = map_of (zip xs bs) y"
    then obtain i j where ij: "i < n" "x = xs ! i" "j < n" "y = xs ! j"
      using xs(1) by (metis in_set_conv_nth)
    then have "bs ! i = bs ! j"
      using same xs bs(1) by (simp add: map_of_zip_nth)
    then show "x = y"
      using bs(1,2) ij by (simp add: nth_eq_iff_index_eq)
  qed
  have "inj_on (f ++ map_of (zip xs bs)) (dom f \<union> set xs)"
  proof (rule inj_onI)
    fix x y assume xy: "x \<in> dom f \<union> set xs" "y \<in> dom f \<union> set xs" and same: "(f ++ map_of (zip xs bs)) x = (f ++ map_of (zip xs bs)) y"
    have old: "(f ++ map_of (zip xs bs)) z = f z \<and> f z \<in> Some ` ran f" if z: "z \<in> dom f" for z
    proof -
      have "z \<notin> dom (map_of (zip xs bs))"
        using z xs(3) dom by blast
      with z show ?thesis
        by (auto simp: map_add_dom_app_simps(3) ran_def)
    qed
    have new: "(f ++ map_of (zip xs bs)) z = map_of (zip xs bs) z \<and> map_of (zip xs bs) z \<in> Some ` set bs" if "z \<in> set xs" for z
      using that dom ran by (auto simp: map_add_dom_app_simps(1) dom_def ran_def)
    have apart: "Some ` ran f \<inter> Some ` set bs = {}"
      using bs(3) by auto
    show "x = y"
      using xy same old [of x] old [of y] new [of x] new [of y] apart inj inj' unfolding inj_on_def
      by (metis (no_types, lifting) Un_iff disjoint_iff)
  qed
  with bs(4) get_buffers_pages [OF get all] new_ran dom show ?thesis
    by (simp add: owned_ok_def Un_commute)
qed

lemma owns_get:
  assumes "length bs = length xs"
  shows "owns (h ++ map_of (zip xs (map (\<lambda>b. buffer_new b key) bs))) = owns h ++ map_of (zip xs bs)"
proof
  fix x
  have "map_of (zip xs (map (\<lambda>b. buffer_new b key) bs)) x = map_option (\<lambda>b. buffer_new b key) (map_of (zip xs bs) x)"
    by (simp add: zip_map2 map_of_map)
  then show "owns (h ++ map_of (zip xs (map (\<lambda>b. buffer_new b key) bs))) x = (owns h ++ map_of (zip xs bs)) x"
    by (cases "map_of (zip xs bs) x") (simp_all add: owns_def map_add_def buffer_new_def)
qed

text \<open>Moving a buffer renames its owner, destroying an object gives back what it owns.\<close>

lemma owned_ok_swap:
  assumes "owned_ok f m" and "x \<noteq> y"
  shows "owned_ok (f(x := f y, y := f x)) m"
proof -
  let ?g = "f(x := f y, y := f x)"
  have "ran ?g = ran f"
    using assms(2) unfolding ran_def by auto (metis fun_upd_other fun_upd_same)+
  moreover have "inj_on ?g (dom ?g)"
    using assms unfolding owned_ok_def inj_on_def dom_def by (auto split: if_splits)
  ultimately show ?thesis
    using assms(1) by (simp add: owned_ok_def)
qed

lemma owned_ok_put:
  assumes ok: "owned_ok f m" and x: "f x = Some b"
  shows "owned_ok (f(x := None)) (put_buffer b m)"
proof -
  have inj: "inj_on f (dom f)" and inv: "buffers_inv (ran f) m"
    and all: "set (nm_free_list m) \<union> ran f = (\<Union>p < nm_pages m. set (page_buffers p))"
    using ok by (simp_all add: owned_ok_def)
  have b: "b \<in> ran f" using x by (auto simp: ran_def)
  have "f y \<noteq> Some b" if "y \<noteq> x" for y
    using inj x that by (auto simp: inj_on_def dom_def)
  then have ran: "ran (f(x := None)) = ran f - {b}"
    using x unfolding ran_def by (auto simp del: split_paired_Ex) (metis option.inject)
  have "set (nm_free_list (put_buffer b m)) \<union> ran (f(x := None)) = (\<Union>p < nm_pages (put_buffer b m). set (page_buffers p))"
    unfolding ran using all b by (auto simp: put_buffer_def)
  moreover have "inj_on (f(x := None)) (dom (f(x := None)))"
    using inj by (auto simp: inj_on_def)
  ultimately show ?thesis
    using sb.put_back [OF inv b] by (simp add: owned_ok_def ran)
qed

lemma destroy_ok:
  assumes ok: "owned_ok (owns h) m" "objects_ok h" and x: "h x = Some this"
  shows "owned_ok (owns (h(x := None))) (buffer_destroy this m) \<and> objects_ok (h(x := None))"
proof -
  have upd: "owns (h(x := None)) = (owns h)(x := None)"
    by (auto simp: fun_eq_iff)
  have obj: "bo_manager this = (bo_buffer this \<noteq> None)"
    using ok(2) x by (simp add: objects_ok_def)
  have "owned_ok ((owns h)(x := None)) (buffer_destroy this m)"
  proof (cases "bo_buffer this")
    case None
    then have "(owns h)(x := None) = owns h"
      using x by (auto simp: fun_eq_iff owns_def)
    with None ok(1) show ?thesis
      by (simp add: buffer_destroy_def split: bool.split)
  next
    case (Some b)
    with obj x have "owns h x = Some b"
      by (simp add: owns_def)
    with owned_ok_put [of "owns h" m x b] ok(1) Some obj show ?thesis
      by (simp add: buffer_destroy_def)
  qed
  with ok(2) show ?thesis
    unfolding upd by (auto simp: objects_ok_def)
qed

lemma buffers_run_ok: "buffers_run h m \<Longrightarrow> owned_ok (owns h) m \<and> objects_ok h"
proof (induction rule: buffers_run.induct)
  case buffers_start
  show ?case
    using buffers_inv_init by (simp add: owned_ok_def objects_ok_def network_memory_init_def owns_def [abs_def])
next
  case (buffers_get h m n bs m' xs key)
  have inv: "buffers_inv (ran (owns h)) m"
    using buffers_get.IH by (simp add: owned_ok_def)
  have len: "length bs = length xs"
    using get_buffers_ok(1) [OF inv buffers_get.hyps(2)] buffers_get.hyps(3) by simp
  have "dom (owns h) \<subseteq> dom h"
    by (auto simp: owns_def split: option.splits)
  with owned_ok_get [OF _ buffers_get.hyps(2-4)] buffers_get.IH buffers_get.hyps(5) owns_get [OF len]
  have "owned_ok (owns (h ++ map_of (zip xs (map (\<lambda>b. buffer_new b key) bs)))) m'" by fastforce
  moreover have "objects_ok (h ++ map_of (zip xs (map (\<lambda>b. buffer_new b key) bs)))"
    using buffers_get.IH by (auto simp: objects_ok_def map_add_Some_iff buffer_new_def dest!: map_of_SomeD set_zip_rightD)
  ultimately show ?case ..
next
  case (buffers_default h m x key)
  then have "owns (h(x \<mapsto> buffer_default key)) = owns h"
    by (auto simp: fun_eq_iff owns_def buffer_default_def)
  moreover have "objects_ok (h(x \<mapsto> buffer_default key))"
    using buffers_default.IH by (simp add: objects_ok_def buffer_default_def)
  ultimately show ?case
    using buffers_default.IH by argo
next
  case (buffers_move h m x y other key this' other')
  then have ne: "x \<noteq> y" by auto
  have "owns (h(x \<mapsto> this', y \<mapsto> other')) = (owns h)(x := owns h y, y := owns h x)"
    using buffers_move.hyps ne by (auto simp: fun_eq_iff owns_def buffer_move_def buffer_default_def)
  moreover have "objects_ok (h(x \<mapsto> this', y \<mapsto> other'))"
    using buffers_move by (auto simp: objects_ok_def buffer_move_def buffer_default_def)
  ultimately show ?case
    using buffers_move.IH owned_ok_swap [OF _ ne, of "owns h" m] by argo
next
  case (buffers_assign h m x this y other this' other')
  have "owns (h(x \<mapsto> this', y \<mapsto> other')) = (owns h)(x := owns h y, y := owns h x)"
    using buffers_assign.hyps by (auto simp: fun_eq_iff owns_def buffer_assign_def)
  moreover have "objects_ok (h(x \<mapsto> this', y \<mapsto> other'))"
    using buffers_assign by (auto simp: objects_ok_def buffer_assign_def)
  ultimately show ?case
    using buffers_assign.IH owned_ok_swap [OF _ buffers_assign.hyps(4), of "owns h" m] by argo
next
  case (buffers_destroy h m x this)
  then show ?case
    using destroy_ok [of h m x this] by blast
qed

subsection \<open>Send queues\<close>

text \<open>
  A send queue with the queue pairs it holds; index, address and key of a default object are not initialized. Its index
  is the one that the peer announced, an index into the array of receive buffers of the peer.
\<close>

record queue_obj =
  qo_queue :: send_queue
  qo_send :: "qp option"
  qo_recv :: "qp option"
  qo_completion :: "nat option"
  qo_manager :: bool

definition queue_default :: "u64 \<Rightarrow> u64 \<Rightarrow> nat \<Rightarrow> queue_obj" where
  "queue_default index address key =
     \<lparr>qo_queue = send_queue_init index address key [], qo_send = None, qo_recv = None, qo_completion = None, qo_manager = False\<rparr>"

definition queue_move :: "queue_obj \<Rightarrow> queue_obj \<Rightarrow> queue_obj \<times> queue_obj" where
  "queue_move fresh other = (other, fresh)"

definition queue_assign :: "queue_obj \<Rightarrow> queue_obj \<Rightarrow> queue_obj \<times> queue_obj" where
  "queue_assign this other = (other, this)"

definition if_valid :: "'q option \<Rightarrow> 'q list" where
  "if_valid p = (case p of None \<Rightarrow> [] | Some q \<Rightarrow> [q])"

definition send_queue_destroy :: "nic \<Rightarrow> queue_obj \<Rightarrow> network_memory \<Rightarrow> network_memory res" where
  "send_queue_destroy d x m =
     rbind (if qo_manager x then free_recv_buffer (sq_index (qo_queue x)) m else Inr m) (\<lambda>m'.
     rbind (destroy_all (nic_destroy d) ''could not destroy send queue'' (if_valid (qo_send x))) (\<lambda>_.
     rbind (destroy_all (nic_destroy d) ''could not destroy receive queue'' (if_valid (qo_recv x))) (\<lambda>_.
     rbind (destroy_all (nic_destroy_cq d) ''could not destroy completion queue'' (if_valid (qo_completion x))) (\<lambda>_.
     Inr m'))))"

text \<open>A queue that was moved from is destroyed without an effect.\<close>

lemma moved_queue_destroyed:
  "queue_move (queue_default i a k) other = (this', other') \<Longrightarrow> send_queue_destroy d other' m = Inr m"
  by (auto simp: queue_move_def queue_default_def send_queue_destroy_def if_valid_def)

subsection \<open>Receive queues\<close>

record recv_obj =
  ro_queue :: recv_queue
  ro_srq :: "nat option"
  ro_completion :: "nat option"
  ro_buffers :: bool

definition recv_default :: recv_obj where
  "recv_default = \<lparr>ro_queue = \<lparr>rq_num_posted = 0\<rparr>, ro_srq = None, ro_completion = None, ro_buffers = False\<rparr>"

definition recv_move :: "recv_obj \<Rightarrow> recv_obj \<times> recv_obj" where
  "recv_move other = (other, recv_default)"

definition recv_assign :: "recv_obj \<Rightarrow> recv_obj \<Rightarrow> recv_obj \<times> recv_obj" where
  "recv_assign this other = (other, this)"

text \<open>\<open>srq_ok\<close> says whether \<open>ibv_destroy_srq\<close> succeeds.\<close>

definition recv_queue_destroy :: "(nat \<Rightarrow> bool) \<Rightarrow> nic \<Rightarrow> recv_obj \<Rightarrow> unit res" where
  "recv_queue_destroy srq_ok d x =
     rbind (destroy_all srq_ok ''could not destroy receive queue'' (if_valid (ro_srq x))) (\<lambda>_.
     destroy_all (nic_destroy_cq d) ''could not destroy completion queue'' (if_valid (ro_completion x)))"

definition deactivate_srq :: "(nat \<Rightarrow> bool) \<Rightarrow> recv_obj \<Rightarrow> unit res" where
  "deactivate_srq srq_ok x =
     (case ro_srq x of None \<Rightarrow> Inl Null_deref | Some q \<Rightarrow> destroy_all srq_ok ''could not destroy SRQ'' [q])"

text \<open>
  \<open>deactivate_srq\<close>, which a client that is to fail calls, leaves the pointer in the object: the destructor destroys a shared receive queue
  that is not there any more. \<open>L\<close> are the queues that exist.
\<close>

lemma srq_destroyed_twice:
  assumes "ro_srq x = Some q" and "deactivate_srq (\<lambda>r. r \<in> L) x = Inr ()"
  shows "recv_queue_destroy (\<lambda>r. r \<in> L - {q}) d x = Inl (Assert_failed ''could not destroy receive queue'')"
  using assms by (simp add: recv_queue_destroy_def if_valid_def)

subsection \<open>Properties\<close>

text \<open>
  C33. However the program takes buffers from the manager, moves the objects that hold them and destroys them: two objects never hold
  overlapping memory, no buffer is in the free list twice or while it is held, and none is lost: every buffer of the pages is free
  or held.
\<close>

theorem buffer_objects_exclusive:
  assumes "buffers_run h m"
  shows "(\<forall>x y p j q k. x \<noteq> y \<and> owns h x = Some (p, j) \<and> owns h y = Some (q, k) \<longrightarrow>
       p \<noteq> q \<or> j + SEND_BUFFER_SIZE \<le> k \<or> k + SEND_BUFFER_SIZE \<le> j) \<and>
    distinct (nm_free_list m) \<and> set (nm_free_list m) \<inter> ran (owns h) = {} \<and>
    set (nm_free_list m) \<union> ran (owns h) = (\<Union>p < nm_pages m. set (page_buffers p))"
proof -
  have inv: "buffers_inv (ran (owns h)) m" and inj: "inj_on (owns h) (dom (owns h))"
    and all: "set (nm_free_list m) \<union> ran (owns h) = (\<Union>p < nm_pages m. set (page_buffers p))"
    using buffers_run_ok [OF assms] by (simp_all add: owned_ok_def)
  have "p \<noteq> q \<or> j + SEND_BUFFER_SIZE \<le> k \<or> k + SEND_BUFFER_SIZE \<le> j"
    if "x \<noteq> y" and xy: "owns h x = Some (p, j)" "owns h y = Some (q, k)" for x y p j q k
  proof (rule buffers_apart)
    show "(p, j) \<noteq> (q, k)"
      using inj that by (auto simp: inj_on_def dom_def)
    have "(p, j) \<in> ran (owns h)" "(q, k) \<in> ran (owns h)"
      using xy by (auto simp: ran_def)
    then show "SEND_BUFFER_SIZE dvd j" "SEND_BUFFER_SIZE dvd k"
      using inv by (auto simp: buffers_inv_def)
  qed
  moreover have "distinct (nm_free_list m)" "set (nm_free_list m) \<inter> ran (owns h) = {}"
    using inv unfolding buffers_inv_def by argo+
  ultimately show ?thesis
    using all by blast
qed

theorem buffer_objects_exclusive_witness:
  "\<exists>a b m. get_buffers 2 network_memory_init = ([a, b], m) \<and>
     (fst a \<noteq> fst b \<or> snd a + SEND_BUFFER_SIZE \<le> snd b \<or> snd b + SEND_BUFFER_SIZE \<le> snd a)"
proof -
  obtain bs m where get: "get_buffers 2 network_memory_init = (bs, m)" by fastforce
  from get_buffers_ok(1) [OF buffers_inv_init get] obtain a b where bs: "bs = [a, b]"
    by (auto simp: numeral_2_eq_2 length_Suc_conv)
  have run: "buffers_run (Map.empty ++ map_of (zip [0, 1] (map (\<lambda>b. buffer_new b 9) bs))) m" (is "buffers_run ?h m")
    by (rule buffers_get [OF buffers_start get]) simp_all
  have "owns ?h 0 = Some (fst a, snd a)" "owns ?h 1 = Some (fst b, snd b)"
    by (simp_all add: bs buffer_new_def)
  with buffer_objects_exclusive [OF run] have "fst a \<noteq> fst b \<or> snd a + SEND_BUFFER_SIZE \<le> snd b \<or> snd b + SEND_BUFFER_SIZE \<le> snd a"
    by (metis zero_neq_one)
  with get bs show ?thesis by blast
qed

text \<open>
  C39. The destructor of a send queue gives back the wrong receive buffer: it frees the index that the peer announced in the
  array of this machine. If another connection of this machine uses the buffer with this index, the buffer counts as free from then on,
  and if the buffers with smaller indices are in use, as they are when none was given back, the next connection gets this buffer
  as well, and two peers write into the same memory.
\<close>

theorem queue_frees_used_buffer:
  assumes "receive_inv U m" and "qo_queue x = remote_queue info peer" and "qo_manager x" and "qi_index peer \<in> U"
    and "send_queue_destroy d x m = Inr m'"
  shows "receive_inv (U - {qi_index peer}) m' \<and>
    ({..<qi_index peer} \<subseteq> U \<longrightarrow>
       (\<exists>addr m''. nm_receive_buffers m ! qi_index peer = Some addr \<and> create_receive_buffer m' = Inr ((qi_index peer, addr), m'')))"
proof -
  let ?j = "qi_index peer"
  have m': "free_recv_buffer ?j m = Inr m'"
    using assms(2,3,5) by (auto simp: send_queue_destroy_def rbind_eq_Inr remote_queue_def send_queue_init_def)
  have inv': "receive_inv (U - {?j}) m'"
    using rb.put_back [OF assms(1,4)] by (simp add: release_def m')
  have j: "?j < MAX_QUEUE_PAIRS" and len: "length (nm_free_receive m) = MAX_QUEUE_PAIRS"
    and used: "\<And>i. i \<in> U \<Longrightarrow> \<not> nm_free_receive m ! i"
    using assms(1,4) by (auto simp: receive_inv_def)
  obtain addr where addr: "nm_receive_buffers m ! ?j = Some addr"
    using assms(1) used [OF assms(4)] j by (auto simp: receive_inv_def pages_ok_def not_le split: if_splits)
  have free: "nm_free_receive m' = (nm_free_receive m)[?j := True]" "nm_receive_buffers m' = nm_receive_buffers m"
    using m' j by (auto simp: free_recv_buffer_def)
  have "find_first (nm_free_receive m') = ?j" if "{..<?j} \<subseteq> U"
  proof -
    have "takeWhile Not (nm_free_receive m') = take ?j (nm_free_receive m')"
      using used that j len by (intro takeWhile_eq_take_P_nth) (auto simp: free nth_list_update)
    with j len show ?thesis
      by (simp add: find_first_def free)
  qed
  with addr free j inv' show ?thesis
    by (simp add: create_receive_buffer_def Let_def)
qed

theorem queue_frees_used_buffer_witness:
  "\<exists>addr m m' m''. create_receive_buffer network_memory_init = Inr ((0, addr), m) \<and>
     send_queue_destroy example_nic (queue_default 0 4096 9\<lparr>qo_manager := True\<rparr>) m = Inr m' \<and>
     create_receive_buffer m' = Inr ((0, addr), m'')"
proof -
  let ?x = "queue_default 0 4096 9\<lparr>qo_manager := True\<rparr>"
  let ?info = "example_destination\<lparr>di_xrc_queue_nums := []\<rparr>"
  obtain addr m where m: "create_receive_buffer network_memory_init = Inr ((0, addr), m)"
    unfolding example_receive_buffer Let_def by blast
  note ok = create_receive_buffer_ok [OF receive_inv_init m]
  obtain m' where m': "send_queue_destroy example_nic ?x m = Inr m'"
    by (simp add: send_queue_destroy_def queue_default_def if_valid_def free_recv_buffer_def send_queue_init_def MAX_QUEUE_PAIRS_def)
  obtain peer :: queue_info where peer: "qi_index peer = 0" "qi_address peer = 4096" "qi_remote_key peer = 9"
    by (metis queue_info.select_convs)
  have "qo_queue ?x = remote_queue ?info peer"
    by (simp add: queue_default_def remote_queue_def peer)
  from queue_frees_used_buffer [OF ok(2) this _ _ m'] peer ok(3) m m' show ?thesis
    by (auto simp: queue_default_def)
qed

end
