(* ===== verification/Storage_Stream.thy ===== *)
theory Storage_Stream
  imports Replica
begin

text \<open>
  Streaming the log: whatever the control and client threads do, a slot that is published and set stays
  so, hence they are a legal environment of the iterators; each subscriber thread sends the slots of
  its residue class in order, each to the receive queue its log index selects.
\<close>

subsection \<open>The handlers only let the log grow\<close>

lemma log_grows_refl [simp]: "log_grows l l"
  by (simp add: log_grows_def)

lemma extends_grows: "log_inv l \<Longrightarrow> log_extends l l' \<Longrightarrow> l_num_entries l' = l_current_entries l' \<Longrightarrow> log_grows l l'"
  by (auto simp: log_grows_def log_inv_def log_extends_def slot_content_def)

lemma layout_grows:
  assumes "log_inv l" and "same_layout l l'"
    and "\<And>i. i < l_current_entries l \<Longrightarrow> e_set (ent l i) \<Longrightarrow> e_set (ent l' i) \<and>
           e_data_length (ent l' i) = e_data_length (ent l i) \<and> entry_payload (ent l' i) = entry_payload (ent l i)"
  shows "log_grows l l'"
  using assms by (simp add: log_grows_def same_layout_def slot_content_def log_inv_def)

lemma insert_grows:
  assumes inv: "storage_inv s" and n: "n < 2 ^ 64" and size: "length (cidx (st_log s) cid) < 2 ^ 64"
    and run: "position_insert (st_log s) (sc_position (client_of s cid)) bytes len n = Inr (l', pos', g)"
  shows "log_grows (st_log s) l'"
proof -
  let ?l = "st_log s" and ?pos = "sc_position (client_of s cid)"
  obtain k where k: "cursor ?l ?pos k" and id: "p_client_id ?pos = cid"
    using obtain_cursor [OF inv] .
  have log: "log_inv ?l" and at: "pos_at ?l ?pos k"
    using inv k by (simp_all add: storage_inv_def cursor_def)
  have room: "0 < n" "k + n \<le> length (cidx ?l cid)"
    using position_insert_fails [OF log at n, of bytes len] run id size by force+
  then have l': "l' = insert_result ?l cid k bytes len n"
    using position_insert_eq [OF log at room(1) n, of bytes len] run id by simp
  have "ent l' i = ent ?l i" if i: "i < l_current_entries ?l" "e_set (ent ?l i)" for i
  proof (cases "e_client_id (ent ?l i) = cid")
    case True
    then have "i \<in> set (cidx ?l cid)"
      using i(1) by (simp add: cidx_def)
    then obtain j where j: "j < length (cidx ?l cid)" "i = cidx ?l cid ! j"
      by (auto simp: in_set_conv_nth)
    then have "j < k"
      using i(2) k id by (simp add: cursor_def)
    then show ?thesis
      using j room span_cidx_iff [OF j(1), of k "n - 1"] cidx_nth_inject [of j ?l cid "k + n - 1"]
      by (auto simp: l' insert_result_ent)
  qed (use insert_result_other [OF room] l' in simp)
  then show ?thesis
    unfolding l' by (intro layout_grows [OF log insert_result_layout [OF room]]) (simp add: l')
qed

lemma finalize_grows:
  assumes inv: "storage_inv s" and run: "storage_on_finalize m s = Some (Inr (s', out))"
  shows "log_grows (st_log s) (st_log s')"
proof (cases m)
  case (Storage_client_finalize cid)
  show ?thesis
  proof (cases "cid < MAX_CLIENTS")
    case True
    then obtain s2 where "storage_on_finalize m s = Some (Inr (s2, []))" and s2: "same_layout (st_log s) (st_log s2)"
        "\<forall>i < l_current_entries (st_log s). e_client_id (ent (st_log s) i) = cid \<longrightarrow> e_set (ent (st_log s2) i)"
        "\<forall>i. e_client_id (ent (st_log s) i) \<noteq> cid \<longrightarrow> ent (st_log s2) i = ent (st_log s) i"
        "\<forall>i. entry_payload (ent (st_log s2) i) = entry_payload (ent (st_log s) i) \<and>
          e_data_length (ent (st_log s2) i) = e_data_length (ent (st_log s) i)"
      using storage_on_finalize_ok [OF inv True] unfolding Storage_client_finalize by metis
    with run have "s' = s2"
      by simp
    moreover have "log_inv (st_log s)"
      using inv by (simp add: storage_inv_def)
    moreover have "e_set (ent (st_log s2) i)" if "i < l_current_entries (st_log s)" "e_set (ent (st_log s) i)" for i
      using s2(2,3) that by (cases "e_client_id (ent (st_log s) i) = cid") auto
    ultimately show ?thesis
      using s2 by (intro layout_grows) auto
  qed (use run in \<open>simp add: Storage_client_finalize with_client_of\<close>)
qed (use run in simp_all)

lemma slots_grows:
  assumes inv: "storage_inv s" and ok: "wire_ok m s" and run: "storage_on_slots m s = Some (Inr (s', out))"
  shows "log_grows (st_log s) (st_log s')"
proof (cases m)
  case (Storage_slots g asg)
  have log: "log_inv (st_log s)"
    using inv by (simp add: storage_inv_def)
  show ?thesis
  proof (cases "asg = []")
    case False
    then obtain l' where "add_entries g asg (st_log s) = Inr l'" "log_extends (st_log s) l'"
        "l_num_entries l' = l_current_entries l'"
      using add_entries_log [OF log, of asg g] ok by (auto simp: wire_ok_def Storage_slots)
    with False run extends_grows [OF log] show ?thesis
      by (auto simp: Storage_slots)
  qed (use run Storage_slots in simp)
qed (use run in simp_all)

lemma storage_on_insert_grows:
  assumes inv: "storage_inv s" and ok: "wire_ok m s" and run: "storage_on_insert m s = Some (Inr (s', out))"
  shows "log_grows (st_log s) (st_log s')"
  using run ok insert_grows [OF inv]
  by (cases m) (auto simp: with_connected_of wire_ok_def rbind_eq_Inr frame_simps split: if_splits)

lemma storage_on_patch_grows:
  assumes inv: "storage_inv s" and ok: "wire_ok m s" and run: "storage_on_patch m s = Some (Inr (s', out))"
  shows "log_grows (st_log s) (st_log s')"
  using run ok insert_grows [OF inv]
  by (cases m) (auto simp: with_client_of wire_ok_def rbind_eq_Inr frame_simps split: if_splits)

lemma storage_log_frame:
  "storage_on_failure m s = Some (Inr (s', out)) \<Longrightarrow> st_log s' = st_log s"
  "storage_on_freeze m s = Some (Inr (s', out)) \<Longrightarrow> st_log s' = st_log s"
  "storage_on_cut m s = Some (Inr (s', out)) \<Longrightarrow> st_log s' = st_log s"
  "storage_on_subscriber_finished m s = Some (Inr (s', out)) \<Longrightarrow> st_log s' = st_log s"
  "storage_on_client_finished m s = Some (Inr (s', out)) \<Longrightarrow> st_log s' = st_log s"
  "storage_on_client_intro m s = Some (Inr (s', out)) \<Longrightarrow> st_log s' = st_log s"
  "storage_on_subscriber_intro n m s = Some (Inr (s', out)) \<Longrightarrow> st_log s' = st_log s"
  by (cases m; auto simp: with_client_of with_connected_of frame_simps Let_def rbind_eq_Inr
      storage_add_client_def get_client_state_of storage_add_subscriber_def split: if_splits; fail)+

lemmas storage_handlers_opaque =
  storage_on_slots.simps storage_on_freeze.simps storage_on_cut.simps storage_on_patch.simps
  storage_on_finalize.simps storage_on_subscriber_finished.simps storage_on_insert.simps
  storage_on_client_finished.simps storage_on_failure.simps storage_on_client_intro.simps
  storage_on_subscriber_intro.simps

text \<open>The handlers that change the log.\<close>

lemma storage_handle_log:
  assumes "storage_handle ev s = Some (Inr (s', out))"
  shows "st_log s' = st_log s \<or> storage_on_slots (event_message ev) s = Some (Inr (s', out)) \<or>
    storage_on_patch (event_message ev) s = Some (Inr (s', out)) \<or> storage_on_finalize (event_message ev) s = Some (Inr (s', out)) \<or>
    storage_on_insert (event_message ev) s = Some (Inr (s', out))"
proof (cases ev)
  case (St_accepted n m len)
  then show ?thesis
    using assms run_storage_handler_cases [of "storage_accept_handlers n" m len s s' out]
      storage_log_frame(6) [of m s s' out] storage_log_frame(7) [of n m s s' out]
    by (auto simp: storage_accept_handlers_def simp del: storage_handlers_opaque split: if_splits)
next
  case (St_failure m len)
  then show ?thesis
    using assms run_storage_handler_cases [of storage_failure_handlers m len s s' out] storage_log_frame(1) [of m s s' out]
    by (auto simp: storage_failure_handlers_def simp del: storage_handlers_opaque split: if_splits)
next
  case (St_control m len)
  then show ?thesis
    using assms run_storage_handler_cases [of control_handlers m len s s' out] storage_log_frame(2-4) [of m s s' out]
    by (auto simp: control_handlers_def simp del: storage_handlers_opaque split: if_splits)
next
  case (St_client m len)
  then show ?thesis
    using assms run_storage_handler_cases [of client_handlers m len s s' out] storage_log_frame(5) [of m s s' out]
    by (auto simp: client_handlers_def simp del: storage_handlers_opaque split: if_splits)
qed

lemma storage_handle_grows:
  assumes inv: "storage_inv s" and ok: "wire_ok (event_message ev) s"
    and run: "storage_handle ev s = Some (Inr (s', out))"
  shows "log_grows (st_log s) (st_log s')"
  using storage_handle_log [OF run] slots_grows [OF inv ok] storage_on_patch_grows [OF inv ok] finalize_grows [OF inv]
    storage_on_insert_grows [OF inv ok] log_grows_refl by metis

subsection \<open>A subscriber thread\<close>

text \<open>The thread has streamed the first \<open>n\<close> slots of its residue class.\<close>

definition thread_at :: "storage_state \<Rightarrow> subscriber_thread \<Rightarrow> nat \<Rightarrow> bool" where
  "thread_at s t n \<longleftrightarrow>
     iter_at (th_index t) (st_subscriber_threads s) (st_log s, th_log t) n \<and>
     th_num_sent t = (th_index t + n * st_subscriber_threads s) mod 2 ^ 64"

lemma thread_at_init: "index < 2 ^ 64 \<Longrightarrow> thread_at s (subscriber_thread_init index s) 0"
  by (simp add: thread_at_def subscriber_thread_init_def iterator_init_at)

lemma materialize_frame:
  "materialize s t = Inr (t', out) \<Longrightarrow>
     th_log t' = th_log t \<and> th_index t' = th_index t \<and> th_num_sent t' = th_num_sent t"
  by (auto simp: materialize_def apply_change_def split: option.splits prod.splits change_t.splits if_splits)

text \<open>One iteration: the next slot of the class goes to every subscriber if it is there, and only then.\<close>

lemma stream_entry_step:
  fixes n :: nat
  assumes at: "thread_at s t n" and run: "stream_entry s t = Inr (t', out)"
  defines "i \<equiv> th_index t + n * st_subscriber_threads s"
  shows "if i < l_num_entries (st_log s) \<and> e_set (ent (st_log s) i)
         then thread_at s t' (Suc n) \<and>
              out = map (\<lambda>(sid, nq). Send (To_subscriber sid) (entry_message s t (ent (st_log s) i))
                           (1 + i mod 2 ^ 64 mod nq) False) (th_subscribers t)
         else thread_at s t' n \<and> out = []"
proof -
  let ?N = "st_subscriber_threads s"
  have it: "iter_at (th_index t) ?N (st_log s, th_log t) n" and sent: "th_num_sent t = i mod 2 ^ 64"
    using at by (simp_all add: thread_at_def i_def)
  obtain r it' where next': "next_entry (st_log s) (th_log t) = (r, it')"
    by fastforce
  note poll = iter_poll_ready [OF it, unfolded iter_poll_def, simplified next' fst_conv snd_conv Let_def case_prod_conv]
  have r: "r = (if i < l_num_entries (st_log s) \<and> e_set (ent (st_log s) i) then Some (ptr_of i) else None)"
    using poll(1) by (simp add: iter_ready_def Let_def i_def)
  have it': "iter_at (th_index t) ?N (st_log s, it') (if r = None then n else Suc n)"
    using poll(1,2) by simp
  have "u64_add (i mod 2 ^ 64) ?N = (i + ?N) mod 2 ^ 64"
    by (simp add: u64_add_def mod_add_left_eq)
  then show ?thesis
    using run it' r sent
    by (auto simp: stream_entry_def next' thread_at_def i_def ent_def add_ac split: if_splits)
qed

lemma thread_at_stable:
  assumes "log_grows (st_log s) (st_log s')" and "st_subscriber_threads s' = st_subscriber_threads s"
    and "thread_at s t n"
  shows "thread_at s' t n"
  using assms sit.env_at [of "(st_log s, th_log t)" "(st_log s', th_log t)"]
  by (simp add: thread_at_def iter_env_def)

subsection \<open>Executions\<close>

text \<open>The states a server can reach, as long as its peers send what the protocol allows.\<close>

inductive storage_run :: "storage_state \<Rightarrow> bool" where
  storage_start: "storage_init client_threads subscriber_threads subscriber_depth shard_id replica_id = Inr s \<Longrightarrow> storage_run s"
| storage_step: "storage_run s \<Longrightarrow> wire_ok (event_message ev) s \<Longrightarrow> storage_handle ev s = Some (Inr (s', out)) \<Longrightarrow>
    storage_run s'"

lemma storage_run_inv: "storage_run s \<Longrightarrow> storage_inv s"
  by (induction rule: storage_run.induct) (auto intro: storage_inv_init storage_handle_inv)

definition example_start :: "u64 \<Rightarrow> storage_state" where
  "example_start r = (example_server r log_init)\<lparr>st_client_state := \<lambda>_. None\<rparr>"

lemma example_start_init: "r < MAX_REPLICAS \<Longrightarrow> storage_init 1 1 1 0 r = Inr (example_start r)"
  by (simp add: storage_init_def example_start_def example_server_def)

lemma example_start_run: "storage_run (example_start 0)"
  by (rule storage_start [OF example_start_init]) (simp add: MAX_REPLICAS_def)

lemma example_accept:
  "storage_handle (St_accepted 1 (Client_intro 0 0 100) 32) (example_start r) = Some (Inr (example_server r log_init, []))"
  by (simp add: run_storage_handler_def storage_accept_handlers_def sizeof_defs storage_add_client_def get_client_state_def
      set_client_def example_start_def example_server_def MAX_CLIENTS_value storage_client_new_def)

lemma example_slots:
  "storage_handle (St_control (Storage_slots 0 [\<lparr>as_client_id = 0, as_num_slots = 2\<rparr>]) 40) (example_server r log_init) =
     Some (Inr (example_server r example_log, []))"
  using example_log_eq(1) by (simp add: run_storage_handler_def control_handlers_def sizeof_defs example_server_def)

subsection \<open>Properties\<close>

text \<open>
  C20. In every state a storage server reaches, the blocks, the chains of the clients' slots and the counters of
  the log fit together, the position of each client stands right behind its last filled slot, and a send queue
  to a client exists exactly while the client is connected.
\<close>

theorem storage_reachable_ok: "storage_run s \<Longrightarrow> storage_inv s"
  by (rule storage_run_inv)

theorem storage_reachable_ok_witness: "storage_inv (example_server 0 log_init)"
  using storage_reachable_ok [OF storage_step [OF example_start_run _ example_accept]] by (simp add: wire_ok_def)

text \<open>
  Once a slot is published and filled, no operation of the server changes it: it stays filled, and its
  client, sequence number and payload stay the same, so readers need no lock.
\<close>

lemma filled_slots_stay:
  assumes "storage_run s" and "wire_ok (event_message ev) s" and "storage_handle ev s = Some (Inr (s', out))"
    and "i < l_num_entries (st_log s)" and "e_set (ent (st_log s) i)"
  shows "i < l_num_entries (st_log s') \<and> e_set (ent (st_log s') i) \<and>
    slot_content (ent (st_log s') i) = slot_content (ent (st_log s) i)"
  using storage_handle_grows [OF storage_run_inv [OF assms(1)] assms(2,3)] assms(4,5) by (auto simp: log_grows_def)

text \<open>
  The slots that a subscriber thread gets from the log are those of its residue class, in order, none
  skipped and none repeated, however its polls interleave with the threads that publish epochs and fill slots.
\<close>

theorem thread_reads_in_order:
  assumes "reader_run iter_poll iter_env (l, iterator_init index stride) ps t"
  shows "ps = map (\<lambda>n. ptr_of (index + n * stride)) [0..<length ps]"
  using sit.run_at [OF assms iterator_init_at] by simp

text \<open>
  One iteration of a subscriber thread that has streamed \<open>n\<close> slots: if the next slot of its residue class
  is published and filled, it is sent to every subscriber, with its sequence number and payload, to the receive
  queue that its index selects; otherwise nothing is sent and the thread stays where it is.
\<close>

theorem stream_next_slot:
  assumes "thread_at s t n" and "stream_entry s t = Inr (t', out)"
  shows "if th_index t + n * st_subscriber_threads s < l_num_entries (st_log s)
            \<and> e_set (ent (st_log s) (th_index t + n * st_subscriber_threads s))
         then thread_at s t' (Suc n) \<and>
              out = map (\<lambda>(sid, nq). Send (To_subscriber sid)
                           (entry_message s t (ent (st_log s) (th_index t + n * st_subscriber_threads s)))
                           (1 + (th_index t + n * st_subscriber_threads s) mod 2 ^ 64 mod nq) False) (th_subscribers t)
         else thread_at s t' n \<and> out = []"
  using stream_entry_step [OF assms] .

end
