(* ===== verification/History.thy ===== *)
theory History
  imports Storage_Stream
begin

text \<open>
  The history of a storage server: the operations it has carried out, in order. The log of the server is the
  abstract log after these operations, whatever else the server did in between. Replicas of a shard handle the
  same epochs in the same order and, for each client, the same requests in the same order, but interleave them
  differently; their logs are then parts of one common log.
\<close>

subsection \<open>What an abstract log holds in a slot\<close>

text \<open>The place of a slot among the slots of its client is the index of its payload in the client's stream.\<close>

definition abs_rank :: "abs_log \<Rightarrow> nat \<Rightarrow> nat" where
  "abs_rank a i = length (filter (\<lambda>j. fst (al_slots a ! j) = fst (al_slots a ! i)) [0..<i])"

definition abs_filled :: "abs_log \<Rightarrow> nat \<Rightarrow> bool" where
  "abs_filled a i \<longleftrightarrow> i < length (al_slots a) \<and> abs_rank a i < length (al_stream a (fst (al_slots a ! i)))"

definition abs_content :: "abs_log \<Rightarrow> nat \<Rightarrow> byte list" where
  "abs_content a i = al_stream a (fst (al_slots a ! i)) ! abs_rank a i"

lemma filter_upt_nth:
  assumes "P i" and "i < n"
  shows "length (filter P [0..<i]) < length (filter P [0..<n]) \<and> filter P [0..<n] ! length (filter P [0..<i]) = i"
proof -
  have "[0..<n] = [0..<i] @ i # [Suc i..<n]"
    using assms(2) by (metis le_add_diff_inverse less_imp_le upt_add_eq_append upt_conv_Cons zero_le)
  with assms(1) show ?thesis
    by (simp add: nth_append)
qed

lemma abs_slot:
  assumes inv: "storage_inv s" and i: "i < l_current_entries (st_log s)"
  shows "abs_filled (abs_of (st_log s)) i \<longleftrightarrow> e_set (ent (st_log s) i)"
    and "e_set (ent (st_log s) i) \<Longrightarrow> abs_content (abs_of (st_log s)) i = entry_payload (ent (st_log s) i)"
    and "al_slots (abs_of (st_log s)) ! i = (e_client_id (ent (st_log s) i), e_gsn (ent (st_log s) i))"
proof -
  let ?l = "st_log s" and ?a = "abs_of (st_log s)"
  define c where "c = e_client_id (ent ?l i)"
  show slot: "al_slots ?a ! i = (e_client_id (ent ?l i), e_gsn (ent ?l i))"
    using log_slots_nth [OF i] by (simp add: abs_of_def)
  have "abs_rank ?a i = length (filter (\<lambda>j. e_client_id (ent ?l j) = c) [0..<i])"
    unfolding abs_rank_def slot using i by (intro arg_cong [of _ _ length] filter_cong) (auto simp: c_def abs_of_def log_slots_nth)
  then have at: "abs_rank ?a i < length (cidx ?l c)" "cidx ?l c ! abs_rank ?a i = i"
    using filter_upt_nth [of "\<lambda>j. e_client_id (ent ?l j) = c" i] i by (auto simp: cidx_def c_def)
  obtain k where k: "cursor ?l (sc_position (client_of s c)) k" and id: "p_client_id (sc_position (client_of s c)) = c"
    using obtain_cursor [OF inv] .
  have stream: "client_stream ?l c = map (\<lambda>i. entry_payload (ent ?l i)) (take k (cidx ?l c))" "length (client_stream ?l c) = k"
    using cursor_stream [OF k] cursor_stream_length [OF k] id by simp_all
  have set: "e_set (ent ?l i) \<longleftrightarrow> abs_rank ?a i < k"
    using k at id by (auto simp: cursor_def)
  show "abs_filled ?a i \<longleftrightarrow> e_set (ent ?l i)"
    unfolding abs_filled_def slot set using i stream(2) by (simp add: abs_of_def c_def)
  show "abs_content ?a i = entry_payload (ent ?l i)" if "e_set (ent ?l i)"
    unfolding abs_content_def slot using that set at by (simp add: abs_of_def stream(1) flip: c_def)
qed

text \<open>One abstract log is a part of another: fewer slots, and less of the streams.\<close>

definition abs_le :: "abs_log \<Rightarrow> abs_log \<Rightarrow> bool" where
  "abs_le a b \<longleftrightarrow> prefix (al_slots a) (al_slots b) \<and> (\<forall>c. prefix (al_stream a c) (al_stream b c))"

lemma prefix_nth: "prefix xs ys \<Longrightarrow> i < length xs \<Longrightarrow> ys ! i = xs ! i"
  by (auto simp: prefix_def nth_append)

lemma abs_le_slot: "abs_le a b \<Longrightarrow> i < length (al_slots a) \<Longrightarrow> al_slots b ! i = al_slots a ! i \<and> i < length (al_slots b)"
  by (auto simp: abs_le_def prefix_nth dest: prefix_length_le)

lemma abs_le_filled:
  assumes le: "abs_le a b" and i: "abs_filled a i"
  shows "abs_filled b i \<and> abs_content b i = abs_content a i \<and> al_slots b ! i = al_slots a ! i"
proof -
  have slots: "i < length (al_slots a)" "al_slots b ! j = al_slots a ! j" "i < length (al_slots b)" if "j \<le> i" for j
    using i abs_le_slot [OF le, of j] abs_le_slot [OF le, of i] that by (auto simp: abs_filled_def)
  have "abs_rank b i = abs_rank a i"
    unfolding abs_rank_def using slots(2) by (intro arg_cong [of _ _ length] filter_cong) auto
  moreover have "prefix (al_stream a (fst (al_slots a ! i))) (al_stream b (fst (al_slots a ! i)))"
    using le by (simp add: abs_le_def)
  ultimately show ?thesis
    using i slots [of i] prefix_length_le prefix_nth unfolding abs_filled_def abs_content_def by fastforce
qed

subsection \<open>Operations\<close>

datatype op = Op_slots u64 "assignment list" | Op_insert u64 nat "byte list" | Op_close u64

text \<open>The slots that a message of the ordering service adds to a shard.\<close>

definition laid_out :: "u64 \<Rightarrow> assignment list \<Rightarrow> (u64 \<times> u64) list" where
  "laid_out start asg =
     map (\<lambda>k. (as_client_id (asg ! (epoch_plan asg ! k)), start + k))
       (filter (\<lambda>k. as_client_id (asg ! (epoch_plan asg ! k)) \<noteq> UINT64_MAX) [0..<sum_list (map as_num_slots asg)])"

fun abs_op :: "op \<Rightarrow> abs_log \<Rightarrow> abs_log" where
  "abs_op (Op_slots g asg) a = abs_extend (laid_out g asg) a"
| "abs_op (Op_insert cid n bytes) a = abs_insert cid n bytes a"
| "abs_op (Op_close cid) a = abs_close cid a"

definition abs_empty :: abs_log where
  "abs_empty = \<lparr>al_slots = [], al_stream = \<lambda>_. []\<rparr>"

definition abs_run :: "op list \<Rightarrow> abs_log" where
  "abs_run ops = foldl (\<lambda>a op. abs_op op a) abs_empty ops"

lemma abs_run_simps [simp]: "abs_run [] = abs_empty" "abs_run (ops @ [op]) = abs_op op (abs_run ops)"
  by (simp_all add: abs_run_def)

text \<open>
  The operation that an event of the server amounts to, if any. A patch for a failed client is an insert that
  closes as many slots as the number it is given.
\<close>

fun effect :: "storage_event \<Rightarrow> storage_state \<Rightarrow> op list" where
  "effect (St_control (Storage_slots g asg) _) s = (if asg = [] then [] else [Op_slots g asg])"
| "effect (St_control (Storage_client_finalize cid) _) s = [Op_close cid]"
| "effect (St_client (Storage_insert cid n bytes) _) s =
     (if sc_disconnected (client_of s cid) then [] else [Op_insert cid n bytes])"
| "effect (St_control (Storage_client_patch cid g bytes) _) s =
     (if g > sc_latest_gsn (client_of s cid) then [Op_insert cid g bytes] else [])"
| "effect _ s = []"

inductive storage_history :: "storage_state \<Rightarrow> op list \<Rightarrow> bool" where
  history_start: "storage_init client_threads subscriber_threads subscriber_depth shard_id replica_id = Inr s \<Longrightarrow>
    storage_history s []"
| history_step: "storage_history s ops \<Longrightarrow> wire_ok (event_message ev) s \<Longrightarrow>
    storage_handle ev s = Some (Inr (s', out)) \<Longrightarrow> storage_history s' (ops @ effect ev s)"

lemma history_run: "storage_history s ops \<Longrightarrow> storage_run s"
  by (induction rule: storage_history.induct) (auto intro: storage_run.intros)

subsection \<open>The log is the abstract log of the history\<close>

lemma handler_result:
  assumes "run_storage_handler fs m len s = Some (Inr r)"
  shows "case map_of fs (msg_type m) of None \<Rightarrow> r = (s, []) | Some f \<Rightarrow> f m s = Some (Inr r)"
  using assms by (induction fs) (auto simp: run_storage_handler_def type_value_inject split: if_splits)

lemma slots_effect:
  assumes inv: "storage_inv s" and un: "unset_empty (st_log s)" and ok: "wire_ok (Storage_slots g asg) s"
    and run: "storage_on_slots (Storage_slots g asg) s = Some (Inr (s', out))" and ne: "asg \<noteq> []"
  shows "abs_of (st_log s') = abs_extend (laid_out g asg) (abs_of (st_log s)) \<and> unset_empty (st_log s')"
proof -
  obtain l' where "add_entries g asg (st_log s) = Inr l'" "log_extends (st_log s) l'"
      "log_slots l' = log_slots (st_log s) @ laid_out g asg"
    using add_entries_log [of "st_log s" asg g] inv ok ne by (auto simp: wire_ok_def storage_inv_def laid_out_def)
  with extends_refines [OF this(2,3) un] run ne show ?thesis
    by auto
qed

lemma insert_effect:
  assumes inv: "storage_inv s" and un: "unset_empty (st_log s)" and ok: "wire_ok (Storage_insert cid n bytes) s"
    and run: "storage_on_insert (Storage_insert cid n bytes) s = Some (Inr (s', out))" and live: "\<not> sc_disconnected (client_of s cid)"
  shows "abs_of (st_log s') = abs_insert cid n bytes (abs_of (st_log s)) \<and> unset_empty (st_log s') \<and> cid < MAX_CLIENTS \<and>
    sc_connected (client_of s cid) \<and> 0 < n \<and>
    length (al_stream (abs_of (st_log s)) cid) + n \<le> length (abs_owned cid (abs_of (st_log s))) \<and>
    out = [Send (To_client cid) (Client_insert_ack (st_replica_id s)
             (abs_owned cid (abs_of (st_log s)) ! (length (al_stream (abs_of (st_log s)) cid) + n - 1))) 0 False]"
proof -
  let ?a = "abs_of (st_log s)"
  have cid: "cid < MAX_CLIENTS" "sc_connected (client_of s cid)"
    using run by (auto simp: with_connected_of split: if_splits)
  have size: "n < 2 ^ 64" "length (abs_owned cid ?a) < 2 ^ 64"
    using ok by (simp_all add: wire_ok_def abs_owned_cidx)
  have room: "0 < n" "length (al_stream ?a cid) + n \<le> length (abs_owned cid ?a)"
  proof -
    obtain k where k: "cursor (st_log s) (sc_position (client_of s cid)) k" and id: "p_client_id (sc_position (client_of s cid)) = cid"
      using obtain_cursor [OF inv] .
    have len: "length (al_stream ?a cid) = k" "length (abs_owned cid ?a) = length (cidx (st_log s) cid)"
      using cursor_stream_length [OF k] id by (simp_all add: abs_owned_cidx) (simp add: abs_of_def)
    have "\<not> (n = 0 \<or> length (cidx (st_log s) cid) < k + n)"
      using storage_on_insert_exhausted [OF inv cid live k size(1), of bytes] size(2) run unfolding len by fastforce
    then show "0 < n" "length (al_stream ?a cid) + n \<le> length (abs_owned cid ?a)"
      by (simp_all add: len)
  qed
  from insert_refines [OF inv un cid live room(1) size(1) room(2), of bytes] run cid room show ?thesis
    by (auto simp del: storage_on_insert.simps)
qed

lemma finalize_effect:
  assumes inv: "storage_inv s" and un: "unset_empty (st_log s)"
    and run: "storage_on_finalize (Storage_client_finalize cid) s = Some (Inr (s', out))"
  shows "abs_of (st_log s') = abs_close cid (abs_of (st_log s)) \<and> unset_empty (st_log s')"
proof -
  have "cid < MAX_CLIENTS"
    using run by (auto simp: with_client_of split: if_splits)
  from finalize_refines [OF inv un this] run show ?thesis
    by (auto simp del: storage_on_finalize.simps)
qed

lemma insert_frozen_log: "storage_on_insert (Storage_insert cid n bytes) s = Some (Inr (s', out)) \<Longrightarrow>
    sc_disconnected (client_of s cid) \<Longrightarrow> st_log s' = st_log s"
  by (auto simp: with_connected_of frame_simps split: if_splits)

lemma insert_any_effect:
  assumes "storage_inv s" and "unset_empty (st_log s)" and "wire_ok (Storage_insert cid n bytes) s"
    and "storage_on_insert (Storage_insert cid n bytes) s = Some (Inr (s', out))"
  shows "unset_empty (st_log s') \<and> abs_of (st_log s') =
    (if sc_disconnected (client_of s cid) then abs_of (st_log s) else abs_insert cid n bytes (abs_of (st_log s)))"
  using insert_effect [OF assms] insert_frozen_log [OF assms(4)] assms(2)
  by (cases "sc_disconnected (client_of s cid)") simp_all

lemma patch_effect:
  assumes inv: "storage_inv s" and un: "unset_empty (st_log s)" and ok: "wire_ok (Storage_client_patch cid g bytes) s"
    and run: "storage_on_patch (Storage_client_patch cid g bytes) s = Some (Inr (s', out))"
  shows "unset_empty (st_log s') \<and> abs_of (st_log s') =
    (if g > sc_latest_gsn (client_of s cid) then abs_insert cid g bytes (abs_of (st_log s)) else abs_of (st_log s))"
proof (cases "g > sc_latest_gsn (client_of s cid)")
  case False
  with run un show ?thesis
    by (auto simp: with_client_of frame_simps split: if_splits)
next
  case True
  let ?l = "st_log s" and ?pos = "sc_position (client_of s cid)"
  from run True obtain pos' h where ins: "position_insert ?l ?pos bytes (length bytes) g = Inr (st_log s', pos', h)"
    by (auto simp: with_client_of rbind_eq_Inr split: if_splits)
  obtain k where k: "cursor ?l ?pos k" and id: "p_client_id ?pos = cid"
    using obtain_cursor [OF inv] .
  have log: "log_inv ?l" and at: "pos_at ?l ?pos k"
    using inv k by (simp_all add: storage_inv_def cursor_def)
  have g: "g < 2 ^ 64" "length (cidx ?l cid) < 2 ^ 64"
    using ok by (simp_all add: wire_ok_def)
  have room: "0 < g" "k + g \<le> length (cidx ?l cid)"
    using position_insert_fails [OF log at g(1), of bytes "length bytes"] ins id g(2) by force+
  obtain l2 pos2 where l2: "position_insert ?l ?pos bytes (length bytes) g = Inr (l2, pos2, e_gsn (ent ?l (cidx ?l cid ! (k + g - 1))))"
    "pos_at l2 pos2 (k + g)" "p_client_id pos2 = cid" "l2 = insert_result ?l cid k bytes (length bytes) g"
    using position_insert_ok [OF log at room(1) g(1), of bytes "length bytes"] room(2) id by metis
  have "cursor l2 pos2 (k + g)"
    using insert_result_cursor [OF k room(1), of bytes "length bytes" pos2] room(2) l2 id by simp
  from insert_result_abs [OF k id un room l2(4) this l2(3)] l2(1) ins True show ?thesis
    by simp
qed

lemma slots_empty_log: "storage_on_slots (Storage_slots g []) s = Some (Inr (s', out)) \<Longrightarrow> st_log s' = st_log s"
  by simp

lemma handle_effect:
  assumes inv: "storage_inv s" and un: "unset_empty (st_log s)" and ok: "wire_ok (event_message ev) s"
    and run: "storage_handle ev s = Some (Inr (s', out))"
  shows "abs_of (st_log s') = foldl (\<lambda>a op. abs_op op a) (abs_of (st_log s)) (effect ev s) \<and> unset_empty (st_log s')"
proof (cases ev)
  case (St_accepted n m len)
  have "st_log s' = st_log s"
    using run handler_result [of "storage_accept_handlers n" m len s "(s', out)"]
      storage_log_frame(6) [of m s s' out] storage_log_frame(7) [of n m s s' out]
    by (auto simp: St_accepted storage_accept_handlers_def simp del: storage_handlers_opaque split: if_splits)
  with un show ?thesis by (simp add: St_accepted)
next
  case (St_failure m len)
  have "st_log s' = st_log s"
    using run handler_result [of storage_failure_handlers m len s "(s', out)"] storage_log_frame(1) [of m s s' out]
    by (auto simp: St_failure storage_failure_handlers_def simp del: storage_handlers_opaque split: if_splits)
  with un show ?thesis by (simp add: St_failure)
next
  case (St_control m len)
  note res = handler_result [of control_handlers m len s "(s', out)"]
  note frame = storage_log_frame(2-4) [of m s s' out]
  show ?thesis
    using run res frame un ok inv patch_effect [OF inv un, of _ _ _ s' out] slots_effect [OF inv un, of _ _ s' out] finalize_effect [OF inv un, of _ s' out]
      slots_empty_log [of _ s s' out]
    by (cases m) (auto simp: St_control control_handlers_def simp del: storage_handlers_opaque)
next
  case (St_client m len)
  note res = handler_result [of client_handlers m len s "(s', out)"]
  show ?thesis
    using run res storage_log_frame(5) [of m s s' out] un ok insert_any_effect [OF inv un, of _ _ _ s' out]
    by (cases m) (auto simp: St_client client_handlers_def simp del: storage_handlers_opaque)
qed

lemma history_abs:
  assumes "storage_history s ops"
  shows "abs_of (st_log s) = abs_run ops \<and> unset_empty (st_log s) \<and> storage_inv s"
  using assms
proof (induction rule: storage_history.induct)
  case (history_start ct st sd sh rep s)
  have "client_stream log_init = (\<lambda>_. [])"
    by (simp add: client_stream_def cidx_def log_init_def fun_eq_iff)
  moreover have "st_log s = log_init"
    using history_start by (auto simp: storage_init_def split: if_splits)
  ultimately show ?case
    using storage_inv_init [OF history_start] unset_empty_init by (simp add: abs_of_def abs_empty_def example_log_slots)
next
  case (history_step s ops ev s' out)
  then show ?case
    using handle_effect [of s ev s' out] storage_handle_inv [of s ev s' out] by (simp add: abs_run_def)
qed

subsection \<open>Replicas of a shard\<close>

text \<open>
  What the replicas of a shard have in common: \<open>ctl\<close>, the operations that the ordering service asks for, and
  \<open>ins c\<close>, the requests of client \<open>c\<close>. A history follows them if it has taken a first part of each, and if it closes a
  client only when it has taken all requests of the client: the handshake at the end of a client's
  life and the comparison of the cuts of a failed client are there to ensure the latter.
\<close>

fun is_control :: "op \<Rightarrow> bool" where
  "is_control (Op_insert _ _ _) \<longleftrightarrow> False"
| "is_control _ \<longleftrightarrow> True"

fun op_request :: "u64 \<Rightarrow> op \<Rightarrow> (nat \<times> byte list) list" where
  "op_request c (Op_insert d n bytes) = (if c = d then [(n, bytes)] else [])"
| "op_request c _ = []"

definition requests_of :: "u64 \<Rightarrow> op list \<Rightarrow> (nat \<times> byte list) list" where
  "requests_of c ops = concat (map (op_request c) ops)"

lemma requests_of_simps [simp]: "requests_of c [] = []" "requests_of c (xs @ ys) = requests_of c xs @ requests_of c ys"
  "requests_of c [op] = op_request c op"
  by (simp_all add: requests_of_def)

inductive follows :: "op list \<Rightarrow> (u64 \<Rightarrow> (nat \<times> byte list) list) \<Rightarrow> op list \<Rightarrow> bool" for ctl ins where
  follows_start: "follows ctl ins []"
| follows_slots: "follows ctl ins ops \<Longrightarrow> prefix (filter is_control ops @ [Op_slots g asg]) ctl \<Longrightarrow>
    follows ctl ins (ops @ [Op_slots g asg])"
| follows_insert: "follows ctl ins ops \<Longrightarrow> prefix (requests_of c ops @ [(n, bytes)]) (ins c) \<Longrightarrow>
    follows ctl ins (ops @ [Op_insert c n bytes])"
| follows_close: "follows ctl ins ops \<Longrightarrow> prefix (filter is_control ops @ [Op_close c]) ctl \<Longrightarrow>
    requests_of c ops = ins c \<Longrightarrow> follows ctl ins (ops @ [Op_close c])"

text \<open>The payloads of requests, one for each slot that they close, and the log of the common history.\<close>

definition payloads :: "(nat \<times> byte list) list \<Rightarrow> byte list list" where
  "payloads rs = concat (map (\<lambda>(n, bytes). replicate (n - 1) [] @ [bytes]) rs)"

lemma payloads_simps [simp]: "payloads [] = []" "payloads (xs @ ys) = payloads xs @ payloads ys"
  "payloads [(n, bytes)] = replicate (n - 1) [] @ [bytes]"
  by (simp_all add: payloads_def)

definition common_log :: "op list \<Rightarrow> (u64 \<Rightarrow> (nat \<times> byte list) list) \<Rightarrow> abs_log" where
  "common_log ctl ins = foldl (\<lambda>a op. abs_op op a) \<lparr>al_slots = [], al_stream = \<lambda>c. payloads (ins c)\<rparr> ctl"

lemma common_log_simps [simp]:
  "common_log [] ins = \<lparr>al_slots = [], al_stream = \<lambda>c. payloads (ins c)\<rparr>"
  "common_log (ctl @ [op]) ins = abs_op op (common_log ctl ins)"
  by (simp_all add: common_log_def)

lemmas abs_op_defs = abs_extend_def abs_insert_def abs_close_def abs_owned_def

lemma follows_prefix: "follows ctl ins ops \<Longrightarrow> prefix (filter is_control ops) ctl \<and> prefix (requests_of c ops) (ins c)"
  by (induction rule: follows.induct) auto

text \<open>A history that follows the common one has its slots, and its streams up to the last request taken.\<close>

lemma follows_run:
  assumes "follows ctl ins ops"
  shows "al_slots (abs_run ops) = al_slots (common_log (filter is_control ops) ins)"
    and "if Op_close c \<in> set ops
         then requests_of c ops = ins c \<and> al_stream (abs_run ops) c = al_stream (common_log (filter is_control ops) ins) c
         else al_stream (abs_run ops) c = payloads (requests_of c ops) \<and>
              al_stream (common_log (filter is_control ops) ins) c = payloads (ins c)"
  using assms
proof (induction arbitrary: c rule: follows.induct)
  case (follows_insert ops d n bytes)
  { case 1 show ?case using follows_insert.IH(1) by (simp add: abs_op_defs) }
  { case 2 show ?case using follows_insert.IH(2) [of c] follows_insert.hyps(2) by (auto simp: abs_op_defs) }
next
  case (follows_close ops d)
  { case 1 show ?case using follows_close.IH(1) by (simp add: abs_op_defs) }
  { case 2 show ?case using follows_close.IH(1) follows_close.IH(2) [of c] follows_close.hyps(3)
      by (auto simp: abs_op_defs split: if_splits) }
qed (simp_all add: abs_empty_def abs_op_defs)

lemma abs_op_grows: "is_control op \<Longrightarrow> abs_le a (abs_op op a)"
  by (cases op) (auto simp: abs_le_def abs_op_defs)

lemma abs_le_trans: "abs_le a b \<Longrightarrow> abs_le b c \<Longrightarrow> abs_le a c"
  unfolding abs_le_def by (meson prefix_order.trans)

lemma common_log_grows:
  assumes "list_all is_control rest"
  shows "abs_le (common_log ctl ins) (common_log (ctl @ rest) ins)"
  using assms
proof (induction rest rule: rev_induct)
  case (snoc op rest)
  then show ?case
    using abs_le_trans [OF _ abs_op_grows [of op "common_log (ctl @ rest) ins"]]
    by (simp flip: append_assoc)
qed (simp add: abs_le_def)

lemma follows_le:
  assumes f: "follows ctl ins ops" and ctl: "list_all is_control ctl"
  shows "abs_le (abs_run ops) (common_log ctl ins)"
proof -
  obtain rest where rest: "ctl = filter is_control ops @ rest"
    using follows_prefix [OF f] by (auto simp: prefix_def)
  have "prefix (payloads (requests_of c ops)) (payloads (ins c))" for c
    using follows_prefix [OF f, of c] by (auto simp: prefix_def)
  then have "prefix (al_stream (abs_run ops) c) (al_stream (common_log (filter is_control ops) ins) c)" for c
    using follows_run(2) [OF f, of c] by (auto split: if_splits)
  then have "abs_le (abs_run ops) (common_log (filter is_control ops) ins)"
    using follows_run(1) [OF f] by (simp add: abs_le_def)
  with common_log_grows [of rest "filter is_control ops" ins] ctl rest show ?thesis
    by (auto intro: abs_le_trans)
qed

text \<open>A history that has taken everything has arrived at the common log.\<close>

lemma follows_all:
  assumes f: "follows ctl ins ops" and "filter is_control ops = ctl" and "\<And>c. requests_of c ops = ins c"
  shows "abs_run ops = common_log ctl ins"
proof (rule abs_log.equality)
  show "al_stream (abs_run ops) = al_stream (common_log ctl ins)"
  proof
    fix c
    show "al_stream (abs_run ops) c = al_stream (common_log ctl ins) c"
      using follows_run(2) [OF f, of c] assms(2,3) by (simp split: if_splits)
  qed
qed (use follows_run(1) [OF f] assms(2) in simp_all)

text \<open>Whatever a replica has in its log, the common log has in the same place.\<close>

lemma history_slot:
  assumes h: "storage_history s ops" and f: "follows ctl ins ops" "list_all is_control ctl" and i: "i < l_current_entries (st_log s)"
  shows "i < length (al_slots (common_log ctl ins))"
    and "al_slots (common_log ctl ins) ! i = (e_client_id (ent (st_log s) i), e_gsn (ent (st_log s) i))"
    and "e_set (ent (st_log s) i) \<Longrightarrow> abs_filled (common_log ctl ins) i \<and>
           abs_content (common_log ctl ins) i = entry_payload (ent (st_log s) i)"
proof -
  note a = history_abs [OF h]
  have le: "abs_le (abs_of (st_log s)) (common_log ctl ins)"
    using a follows_le [OF f] by simp
  have slots: "i < length (al_slots (abs_of (st_log s)))"
    using i by (simp add: abs_of_def)
  note inv = conjunct2 [OF conjunct2 [OF a]]
  show "i < length (al_slots (common_log ctl ins))"
    and "al_slots (common_log ctl ins) ! i = (e_client_id (ent (st_log s) i), e_gsn (ent (st_log s) i))"
    using abs_le_slot [OF le slots] abs_slot(3) [OF inv i] by simp_all
  show "abs_filled (common_log ctl ins) i \<and> abs_content (common_log ctl ins) i = entry_payload (ent (st_log s) i)"
    if "e_set (ent (st_log s) i)"
    using abs_le_filled [OF le, of i] abs_slot(1,2) [OF inv i] that by simp
qed

subsection \<open>Properties\<close>

text \<open>
  C13. The storage server implements the abstract log: whatever messages its threads handle, in whatever order, those of the recovery of a
  failed client included, its log is the abstract log after the epochs, inserts, patches and closings it has carried out, and slots that
  are not filled hold nothing. The messages are such as the protocol sends: an epoch lists its largest allotment first, of fewer than
  \<open>2 ^ 62\<close> slots, names clients in range, and its sequence numbers fit in 64 bits; so does the number of slots that an insert or a patch
  closes, and so do the slots of its client.
\<close>

theorem server_refines_log:
  assumes "storage_history s ops"
  shows "abs_of (st_log s) = abs_run ops \<and> unset_empty (st_log s)"
  using history_abs [OF assms] by simp

theorem server_refines_log_witness:
  "storage_history (example_server 0 example_log) [Op_slots 0 [\<lparr>as_client_id = 0, as_num_slots = 2\<rparr>]] \<and>
   al_slots (abs_run [Op_slots 0 [\<lparr>as_client_id = 0, as_num_slots = 2\<rparr>]]) = [(0, 0), (0, 1)]"
proof -
  have "storage_history (example_server 0 log_init) []"
    using history_step [OF history_start [OF example_start_init] _ example_accept [of 0]] by (simp add: wire_ok_def MAX_REPLICAS_def)
  from history_step [OF this _ example_slots]
  have h: "storage_history (example_server 0 example_log) [Op_slots 0 [\<lparr>as_client_id = 0, as_num_slots = 2\<rparr>]]"
    by (simp add: wire_ok_def wf_assignments_def MAX_CLIENTS_value)
  have "abs_run [Op_slots 0 [\<lparr>as_client_id = 0, as_num_slots = 2\<rparr>]] = abs_of example_log"
    using server_refines_log [OF h] by (simp add: example_server_client)
  with h show ?thesis
    by (simp add: example_abs(1))
qed

end
