(* ===== verification/Subscriber_Log.thy ===== *)
theory Subscriber_Log
  imports Zip_Consts Strided_Reader
begin

text \<open>
  The log of a subscriber, \<open>src/subscriber/log.h\<close> and \<open>src/subscriber/log.cpp\<close>: blocks of pointers indexed by
  the global sequence number, filled by the polling threads, read by the application threads with a
  stride, and recycled once all readers have left the first block.

  The list of blocks is a list whose nodes are never erased: a recycled node holds the null pointer and
  its block moves to a new node at the end, zeroed. An iterator into the list is an index.
\<close>

subsection \<open>The log\<close>

type_synonym sub_block = "nat \<Rightarrow> log_entry_msg option"

record sub_log =
  sl_blocks :: "sub_block option list"
  sl_counters :: "nat list"
  sl_block :: nat
  sl_num_blocks :: nat
  sl_num_iterators :: nat

definition zero_block :: sub_block where
  "zero_block = (\<lambda>_. None)"

definition sub_log_init :: "nat \<Rightarrow> sub_log" where
  "sub_log_init num_iterators =
     \<lparr>sl_blocks = [Some zero_block, Some zero_block], sl_counters = [0, 0], sl_block = 0,
      sl_num_blocks = 2, sl_num_iterators = num_iterators\<rparr>"

definition recycle_blocks :: "sub_log \<Rightarrow> sub_log" where
  "recycle_blocks l =
     (if sl_counters l ! sl_block l = sl_num_iterators l
      then l\<lparr>sl_blocks := (sl_blocks l)[sl_block l := None] @ [Some zero_block],
             sl_counters := sl_counters l @ [0], sl_num_blocks := Suc (sl_num_blocks l),
             sl_block := Suc (sl_block l)\<rparr>
      else l)"

subsection \<open>The position of a polling thread\<close>

record sub_position =
  sp_current_blocks :: nat
  sp_iterator :: nat
  sp_block_index :: nat

definition sub_position_init :: sub_position where
  "sub_position_init = \<lparr>sp_current_blocks = 0, sp_iterator = 0, sp_block_index = 0\<rparr>"

text \<open>
  \<open>insert\<close> spins while the block of the entry does not exist yet (\<open>None\<close>); it only moves forward.
\<close>

definition sub_insert :: "log_entry_msg \<Rightarrow> sub_log \<Rightarrow> sub_position \<Rightarrow> (sub_log \<times> sub_position) res option" where
  "sub_insert e l p =
     (let block = le_gsn e div NUM_ENTRIES_PER_BLOCK; index = le_gsn e mod NUM_ENTRIES_PER_BLOCK;
          cur = (if block \<ge> sp_current_blocks p then sl_num_blocks l else sp_current_blocks p);
          steps = block - sp_block_index p;
          bi = sp_block_index p + steps; it = sp_iterator p + steps
      in if block \<ge> cur then None
         else if it \<ge> length (sl_blocks l) then Some (Inl Out_of_bounds)
         else case sl_blocks l ! it of
                None \<Rightarrow> Some (Inl Null_deref)
              | Some blk \<Rightarrow>
                  Some (Inr (l\<lparr>sl_blocks := (sl_blocks l)[it := Some (blk(index := Some e))]\<rparr>,
                             p\<lparr>sp_current_blocks := cur, sp_block_index := bi, sp_iterator := it\<rparr>)))"

subsection \<open>The iterators\<close>

record sub_iter =
  si_entry_index :: nat
  si_stride :: nat
  si_current_blocks :: nat
  si_block :: nat
  si_counter :: nat
  si_block_index :: nat
  si_entry :: "(nat \<times> nat) option"

text \<open>The member \<open>current_blocks_\<close> has no initializer; its first value is an argument.\<close>

definition sub_iterator_init :: "nat \<Rightarrow> nat \<Rightarrow> nat \<Rightarrow> sub_iter" where
  "sub_iterator_init index stride current_blocks =
     \<lparr>si_entry_index = index, si_stride = stride, si_current_blocks = current_blocks, si_block = 0,
      si_counter = 0, si_block_index = 0, si_entry = None\<rparr>"

text \<open>Leave the blocks before the one of the next entry, counting out of each of them.\<close>

fun leave_blocks :: "nat \<Rightarrow> sub_log \<times> sub_iter \<Rightarrow> sub_log \<times> sub_iter" where
  "leave_blocks 0 s = s"
| "leave_blocks (Suc n) (l, it) =
     leave_blocks n
       (l\<lparr>sl_counters := (sl_counters l)[si_counter it := Suc (sl_counters l ! si_counter it)]\<rparr>,
        it\<lparr>si_block_index := Suc (si_block_index it), si_block := Suc (si_block it),
           si_counter := Suc (si_counter it)\<rparr>)"

text \<open>The first half of \<open>next_entry\<close>; \<open>advance\<close> is what it does to \<open>entry_index_\<close>.\<close>

definition sub_obtain :: "(nat \<Rightarrow> nat) \<Rightarrow> sub_log \<Rightarrow> sub_iter \<Rightarrow> bool \<times> sub_log \<times> sub_iter" where
  "sub_obtain advance l it =
     (if si_entry it \<noteq> None then (True, l, it)
      else
        (let block = si_entry_index it div NUM_ENTRIES_PER_BLOCK;
             cur = (if block \<ge> si_current_blocks it then sl_num_blocks l else si_current_blocks it);
             it1 = it\<lparr>si_current_blocks := cur\<rparr>
         in if block \<ge> cur then (False, l, it1)
            else
              (let (l2, it2) = leave_blocks (block - si_block_index it1) (l, it1)
               in (True, l2, it2\<lparr>si_entry := Some (si_block it2, si_entry_index it2 mod NUM_ENTRIES_PER_BLOCK),
                                si_entry_index := advance (si_entry_index it2)\<rparr>))))"

definition load_entry :: "sub_log \<Rightarrow> nat \<times> nat \<Rightarrow> log_entry_msg option res" where
  "load_entry l p =
     (if fst p \<ge> length (sl_blocks l) then Inl Out_of_bounds
      else case sl_blocks l ! fst p of None \<Rightarrow> Inl Null_deref | Some blk \<Rightarrow> Inr (blk (snd p)))"

definition sub_next_entry :: "sub_log \<Rightarrow> sub_iter \<Rightarrow> (log_entry_msg option \<times> sub_log \<times> sub_iter) res" where
  "sub_next_entry l it =
     (case sub_obtain (\<lambda>i. i + si_stride it) l it of
        (False, l', it') \<Rightarrow> Inr (None, l', it')
      | (True, l', it') \<Rightarrow>
          rbind (load_entry l' (the (si_entry it'))) (\<lambda>e.
            case e of
              Some x \<Rightarrow> Inr (Some x, l', it'\<lparr>si_entry := None\<rparr>)
            | None \<Rightarrow> Inr (None, l', it')))"

text \<open>\<open>sequential_iterator\<close>: over all entries, returning only those of its residue class \<open>index\<close>.\<close>

definition sub_sequential_init :: "nat \<Rightarrow> nat \<Rightarrow> nat \<Rightarrow> sub_iter" where
  "sub_sequential_init index stride current_blocks = (sub_iterator_init index stride current_blocks)\<lparr>si_entry_index := 0\<rparr>"

definition sub_next_sequential ::
  "nat \<Rightarrow> sub_log \<Rightarrow> sub_iter \<Rightarrow> (log_entry_msg option \<times> sub_log \<times> sub_iter) res" where
  "sub_next_sequential index l it =
     (case sub_obtain Suc l it of
        (False, l', it') \<Rightarrow> Inr (None, l', it')
      | (True, l', it') \<Rightarrow>
          rbind (load_entry l' (the (si_entry it'))) (\<lambda>e.
            case e of
              Some x \<Rightarrow>
                if si_stride it' = 0 then Inl Div_by_zero
                else Inr (if (si_entry_index it' - 1) mod si_stride it' = index then Some x else None,
                          l', it'\<lparr>si_entry := None\<rparr>)
            | None \<Rightarrow> Inr (None, l', it')))"

end
