(* ===== verification/Subscriber_Log_Facts.thy ===== *)
theory Subscriber_Log_Facts
  imports Subscriber_Log
begin

text \<open>
  The subscriber log with all its iterators: the counters count exactly the iterators that have left a
  block, so a block is recycled only when no iterator needs it, no iterator ever follows a null pointer,
  and each of them reads the sequence numbers of its residue class in order.
\<close>

subsection \<open>The system of the log and its iterators\<close>

type_synonym sub_sys = "sub_log \<times> sub_iter list"

definition sys_poll :: "nat \<Rightarrow> sub_sys \<Rightarrow> log_entry_msg option \<times> sub_sys" where
  "sys_poll i s =
     (case sub_next_entry (fst s) (snd s ! i) of
        Inr (e, l', it') \<Rightarrow> (e, l', (snd s)[i := it'])
      | Inl _ \<Rightarrow> (None, s))"

definition slot_at :: "sub_log \<Rightarrow> nat \<Rightarrow> log_entry_msg option" where
  "slot_at l g =
     (let b = g div NUM_ENTRIES_PER_BLOCK
      in if b < length (sl_blocks l)
         then (case sl_blocks l ! b of Some blk \<Rightarrow> blk (g mod NUM_ENTRIES_PER_BLOCK) | None \<Rightarrow> None)
         else None)"

definition sub_log_ok :: "sub_log \<Rightarrow> bool" where
  "sub_log_ok l \<longleftrightarrow>
     length (sl_blocks l) = sl_num_blocks l \<and> length (sl_counters l) = sl_num_blocks l \<and>
     sl_num_blocks l = sl_block l + 2 \<and>
     (\<forall>b < sl_num_blocks l. sl_blocks l ! b = None \<longleftrightarrow> b < sl_block l) \<and>
     (\<forall>g e. slot_at l g = Some e \<longrightarrow> le_gsn e = g)"

definition iter_ok :: "nat \<Rightarrow> sub_log \<Rightarrow> sub_iter \<Rightarrow> bool" where
  "iter_ok stride l it \<longleftrightarrow>
     si_stride it = stride \<and> si_block it = si_block_index it \<and> si_counter it = si_block_index it \<and>
     sl_block l \<le> si_block_index it \<and> si_block_index it < sl_num_blocks l \<and>
     si_current_blocks it \<le> sl_num_blocks l \<and>
     si_block_index it \<le> si_entry_index it div NUM_ENTRIES_PER_BLOCK \<and>
     (case si_entry it of None \<Rightarrow> True | Some (b, _) \<Rightarrow> b = si_block_index it)"

definition sys_inv :: "nat \<Rightarrow> sub_sys \<Rightarrow> bool" where
  "sys_inv stride s \<longleftrightarrow>
     sub_log_ok (fst s) \<and> sl_num_iterators (fst s) = length (snd s) \<and>
     (\<forall>it \<in> set (snd s). iter_ok stride (fst s) it) \<and>
     (\<forall>b < sl_num_blocks (fst s). sl_counters (fst s) ! b = length (filter (\<lambda>it. b < si_block_index it) (snd s)))"

subsection \<open>One poll\<close>

lemma leave_blocks_eq:
  assumes "si_counter it = si_block_index it" and "si_block_index it + n \<le> length (sl_counters l)"
  shows "leave_blocks n (l, it) =
         (l\<lparr>sl_counters := map (\<lambda>b. sl_counters l ! b + (if si_block_index it \<le> b \<and> b < si_block_index it + n then 1 else 0))
               [0..<length (sl_counters l)]\<rparr>,
          it\<lparr>si_block_index := si_block_index it + n, si_block := si_block it + n, si_counter := si_counter it + n\<rparr>)"
  using assms
proof (induction n arbitrary: l it)
  case 0
  have "map (\<lambda>b. sl_counters l ! b + (if si_block_index it \<le> b \<and> b < si_block_index it + 0 then 1 else 0))
      [0..<length (sl_counters l)] = sl_counters l"
    by (rule nth_equalityI) auto
  then show ?case by simp
next
  case (Suc n)
  let ?l = "l\<lparr>sl_counters := (sl_counters l)[si_counter it := Suc (sl_counters l ! si_counter it)]\<rparr>"
  let ?it = "it\<lparr>si_block_index := Suc (si_block_index it), si_block := Suc (si_block it),
           si_counter := Suc (si_counter it)\<rparr>"
  have "leave_blocks n (?l, ?it) =
      (?l\<lparr>sl_counters := map (\<lambda>b. sl_counters ?l ! b + (if si_block_index ?it \<le> b \<and> b < si_block_index ?it + n then 1 else 0))
               [0..<length (sl_counters ?l)]\<rparr>,
       ?it\<lparr>si_block_index := si_block_index ?it + n, si_block := si_block ?it + n, si_counter := si_counter ?it + n\<rparr>)"
    using Suc.prems by (intro Suc.IH) simp_all
  then show ?case
    using Suc.prems by (auto simp: nth_list_update)
qed

lemma length_filter_update:
  "i < length xs \<Longrightarrow>
     length (filter P (xs[i := y])) + (if P (xs ! i) then 1 else 0) = length (filter P xs) + (if P y then 1 else 0)"
proof (induction xs arbitrary: i)
  case (Cons x xs)
  then show ?case
    using Cons.IH [of "i - 1"] by (cases i) simp_all
qed simp

lemma slot_at_cong: "sl_blocks l' = sl_blocks l \<Longrightarrow> slot_at l' = slot_at l"
  by (rule ext) (simp add: slot_at_def Let_def)

lemma sub_log_ok_counters:
  "length cs = length (sl_counters l) \<Longrightarrow> sub_log_ok (l\<lparr>sl_counters := cs\<rparr>) \<longleftrightarrow> sub_log_ok l"
  using slot_at_cong [of "l\<lparr>sl_counters := cs\<rparr>" l] by (simp add: sub_log_ok_def)

text \<open>What a poll does to the log: nothing but counting.\<close>

lemma iter_update_inv:
  assumes inv: "sys_inv stride (l, its)" and i: "i < length its"
    and it2: "iter_ok stride l it2" "si_block_index it2 = si_block_index (its ! i)"
  shows "sys_inv stride (l, its[i := it2])"
proof -
  have "length (filter (\<lambda>it. b < si_block_index it) (its[i := it2])) = length (filter (\<lambda>it. b < si_block_index it) its)" for b
    using length_filter_update [OF i, of "\<lambda>it. b < si_block_index it" it2] it2(2) by simp
  then show ?thesis
    using inv it2(1) set_update_subset_insert [of its i it2] by (auto simp: sys_inv_def)
qed

text \<open>An iterator moves from its block to a later one and counts itself as having left each block in between.\<close>

definition left_counters :: "nat \<Rightarrow> nat \<Rightarrow> nat list \<Rightarrow> nat list" where
  "left_counters b c counters = map (\<lambda>k. counters ! k + (if b \<le> k \<and> k < c then 1 else 0)) [0..<length counters]"

lemma iter_move_inv:
  assumes inv: "sys_inv stride (l, its)" and i: "i < length its"
    and it2: "iter_ok stride l it2" "si_block_index (its ! i) \<le> si_block_index it2"
  shows "sys_inv stride (l\<lparr>sl_counters := left_counters (si_block_index (its ! i)) (si_block_index it2) (sl_counters l)\<rparr>, its[i := it2])"
    (is "sys_inv stride (?l', _)")
proof -
  have log: "sub_log_ok l" and cnt: "\<And>b. b < sl_num_blocks l \<Longrightarrow> sl_counters l ! b = length (filter (\<lambda>it. b < si_block_index it) its)"
    using inv by (simp_all add: sys_inv_def)
  have "sub_log_ok ?l'"
    using log by (subst sub_log_ok_counters) (simp_all add: left_counters_def)
  moreover have "iter_ok stride ?l' it3" if "iter_ok stride l it3" for it3
    using that by (simp add: iter_ok_def)
  moreover have "sl_counters ?l' ! b = length (filter (\<lambda>it. b < si_block_index it) (its[i := it2]))" if "b < sl_num_blocks l" for b
  proof -
    have "length (sl_counters l) = sl_num_blocks l"
      using log by (simp add: sub_log_ok_def)
    then have "sl_counters ?l' ! b = sl_counters l ! b + (if si_block_index (its ! i) \<le> b \<and> b < si_block_index it2 then 1 else 0)"
      using that by (simp add: left_counters_def)
    then show ?thesis
      using length_filter_update [OF i, of "\<lambda>it. b < si_block_index it" it2] it2(2) cnt [OF that]
      by (simp split: if_splits)
  qed
  ultimately show ?thesis
    using inv it2(1) set_update_subset_insert [of its i it2] by (auto simp: sys_inv_def)
qed

text \<open>The three ways of \<open>obtain\<close>: the entry is already there, its block does not exist yet, or the iterator moves to it.\<close>

definition seen_blocks :: "sub_log \<Rightarrow> sub_iter \<Rightarrow> nat" where
  "seen_blocks l it =
     (if si_entry_index it div NUM_ENTRIES_PER_BLOCK \<ge> si_current_blocks it then sl_num_blocks l else si_current_blocks it)"

lemma seen_blocks_ok:
  assumes "iter_ok stride l it"
  shows "seen_blocks l it \<le> sl_num_blocks l"
    and "si_entry_index it div NUM_ENTRIES_PER_BLOCK < seen_blocks l it \<longleftrightarrow> si_entry_index it div NUM_ENTRIES_PER_BLOCK < sl_num_blocks l"
  using assms by (auto simp: seen_blocks_def iter_ok_def)

lemma sub_obtain_held: "si_entry it \<noteq> None \<Longrightarrow> sub_obtain adv l it = (True, l, it)"
  by (auto simp: sub_obtain_def)

lemma sub_obtain_wait:
  assumes "iter_ok stride l it" and "si_entry it = None" and "\<not> si_entry_index it div NUM_ENTRIES_PER_BLOCK < sl_num_blocks l"
  shows "sub_obtain adv l it = (False, l, it\<lparr>si_current_blocks := seen_blocks l it\<rparr>)"
  using assms(2,3) seen_blocks_ok(2) [OF assms(1)] by (auto simp: sub_obtain_def Let_def seen_blocks_def)

lemma sub_obtain_move:
  assumes it: "iter_ok stride l it" and log: "sub_log_ok l" and none: "si_entry it = None"
    and block: "si_entry_index it div NUM_ENTRIES_PER_BLOCK < sl_num_blocks l"
  shows "sub_obtain adv l it =
    (let block = si_entry_index it div NUM_ENTRIES_PER_BLOCK
     in (True, l\<lparr>sl_counters := left_counters (si_block_index it) block (sl_counters l)\<rparr>,
         it\<lparr>si_current_blocks := seen_blocks l it, si_block_index := block, si_block := block, si_counter := block,
            si_entry := Some (block, si_entry_index it mod NUM_ENTRIES_PER_BLOCK), si_entry_index := adv (si_entry_index it)\<rparr>))"
proof -
  let ?block = "si_entry_index it div NUM_ENTRIES_PER_BLOCK"
  let ?it = "it\<lparr>si_current_blocks := seen_blocks l it\<rparr>"
  have le: "si_block_index it \<le> ?block"
    using it by (simp add: iter_ok_def)
  have "leave_blocks (?block - si_block_index it) (l, ?it) =
      (l\<lparr>sl_counters := left_counters (si_block_index it) ?block (sl_counters l)\<rparr>,
       ?it\<lparr>si_block_index := ?block, si_block := ?block, si_counter := ?block\<rparr>)"
    using it log le block by (subst leave_blocks_eq) (auto simp: iter_ok_def sub_log_ok_def left_counters_def)
  then show ?thesis
    using none block seen_blocks_ok(2) [OF it] by (simp add: sub_obtain_def Let_def seen_blocks_def)
qed

lemma sub_obtain_ok:
  fixes adv :: "nat \<Rightarrow> nat"
  assumes inv: "sys_inv stride (l, its)" and i: "i < length its" and adv: "\<And>x. x \<le> adv x"
    and run: "sub_obtain adv l (its ! i) = (ok, l', it')"
  shows "sys_inv stride (l', its[i := it'])" and "sl_blocks l' = sl_blocks l" and "sl_num_blocks l' = sl_num_blocks l"
    and "ok \<longleftrightarrow> si_entry (its ! i) \<noteq> None \<or> si_entry_index (its ! i) div NUM_ENTRIES_PER_BLOCK < sl_num_blocks l"
    and "ok \<Longrightarrow> si_entry (its ! i) = None \<Longrightarrow>
           si_entry it' = Some (si_entry_index (its ! i) div NUM_ENTRIES_PER_BLOCK, si_entry_index (its ! i) mod NUM_ENTRIES_PER_BLOCK) \<and>
           si_entry_index it' = adv (si_entry_index (its ! i))"
    and "ok \<Longrightarrow> si_entry (its ! i) \<noteq> None \<Longrightarrow> it' = its ! i \<and> l' = l"
    and "\<not> ok \<Longrightarrow> l' = l \<and> si_entry it' = None \<and> si_entry_index it' = si_entry_index (its ! i)"
proof -
  let ?it = "its ! i" and ?B = NUM_ENTRIES_PER_BLOCK
  let ?block = "si_entry_index ?it div ?B"
  have it: "iter_ok stride l ?it" and log: "sub_log_ok l"
    using inv i by (auto simp: sys_inv_def)
  consider (held) "si_entry ?it \<noteq> None" | (wait) "si_entry ?it = None" "\<not> ?block < sl_num_blocks l"
    | (move) "si_entry ?it = None" "?block < sl_num_blocks l" by blast
  then have "sys_inv stride (l', its[i := it']) \<and> sl_blocks l' = sl_blocks l \<and> sl_num_blocks l' = sl_num_blocks l \<and>
    (ok \<longleftrightarrow> si_entry ?it \<noteq> None \<or> ?block < sl_num_blocks l) \<and>
    (ok \<longrightarrow> si_entry ?it = None \<longrightarrow> si_entry it' = Some (?block, si_entry_index ?it mod ?B) \<and>
       si_entry_index it' = adv (si_entry_index ?it)) \<and>
    (ok \<longrightarrow> si_entry ?it \<noteq> None \<longrightarrow> it' = ?it \<and> l' = l) \<and>
    (\<not> ok \<longrightarrow> l' = l \<and> si_entry it' = None \<and> si_entry_index it' = si_entry_index ?it)"
  proof cases
    case held
    with run inv sub_obtain_held [OF held] show ?thesis by auto
  next
    case wait
    have "iter_ok stride l (?it\<lparr>si_current_blocks := seen_blocks l ?it\<rparr>)"
      using it seen_blocks_ok(1) [OF it] wait(1) by (simp add: iter_ok_def)
    from iter_update_inv [OF inv i this] run wait sub_obtain_wait [OF it wait] show ?thesis by auto
  next
    case move
    let ?it2 = "?it\<lparr>si_current_blocks := seen_blocks l ?it, si_block_index := ?block, si_block := ?block, si_counter := ?block,
        si_entry := Some (?block, si_entry_index ?it mod ?B), si_entry_index := adv (si_entry_index ?it)\<rparr>"
    have "iter_ok stride l ?it2" "si_block_index ?it \<le> ?block"
      using it move(2) seen_blocks_ok(1) [OF it] adv [of "si_entry_index ?it"] by (simp_all add: iter_ok_def div_le_mono)
    with iter_move_inv [OF inv i, of ?it2] run move sub_obtain_move [OF it log move] show ?thesis
      by (auto simp: Let_def)
  qed
  then show "sys_inv stride (l', its[i := it'])" "sl_blocks l' = sl_blocks l" "sl_num_blocks l' = sl_num_blocks l"
    "ok \<longleftrightarrow> si_entry ?it \<noteq> None \<or> ?block < sl_num_blocks l"
    "ok \<Longrightarrow> si_entry ?it = None \<Longrightarrow> si_entry it' = Some (?block, si_entry_index ?it mod ?B) \<and>
       si_entry_index it' = adv (si_entry_index ?it)"
    "ok \<Longrightarrow> si_entry ?it \<noteq> None \<Longrightarrow> it' = ?it \<and> l' = l"
    "\<not> ok \<Longrightarrow> l' = l \<and> si_entry it' = None \<and> si_entry_index it' = si_entry_index ?it"
    by auto
qed

text \<open>The entry a poll looks at, and what it returns.\<close>

definition considered :: "sub_iter \<Rightarrow> nat \<times> nat" where
  "considered it =
     (case si_entry it of
        Some p \<Rightarrow> p
      | None \<Rightarrow> (si_entry_index it div NUM_ENTRIES_PER_BLOCK, si_entry_index it mod NUM_ENTRIES_PER_BLOCK))"

lemma load_entry_ok:
  assumes "sub_log_ok l" and "sl_block l \<le> b" and "b < sl_num_blocks l" and "off < NUM_ENTRIES_PER_BLOCK"
  shows "load_entry l (b, off) = Inr (slot_at l (b * NUM_ENTRIES_PER_BLOCK + off))"
  using assms by (auto simp: load_entry_def sub_log_ok_def slot_at_def Let_def)

lemma iter_ok_release: "iter_ok stride l it \<Longrightarrow> iter_ok stride l (it\<lparr>si_entry := None\<rparr>)"
  by (simp add: iter_ok_def)

lemma sys_inv_release:
  assumes "sys_inv stride (l, its)" and "i < length its"
  shows "sys_inv stride (l, its[i := (its ! i)\<lparr>si_entry := None\<rparr>])"
proof -
  let ?it = "(its ! i)\<lparr>si_entry := None\<rparr>"
  have "length (filter (\<lambda>it. b < si_block_index it) (its[i := ?it])) = length (filter (\<lambda>it. b < si_block_index it) its)" for b
    using length_filter_update [OF assms(2), of "\<lambda>it. b < si_block_index it" ?it] by simp
  moreover have "iter_ok stride l ?it"
    using assms by (intro iter_ok_release) (simp add: sys_inv_def)
  ultimately show ?thesis
    using assms(1) set_update_subset_insert [of its i ?it] by (auto simp: sys_inv_def)
qed

text \<open>
  A poll never faults, keeps the invariant, and returns the entry at the next index of the iterator: the
  \<open>i\<close>-th iterator of the system goes through the sequence numbers \<open>r\<close>, \<open>r + stride\<close>, and so on.
\<close>

definition next_index :: "nat \<Rightarrow> nat \<Rightarrow> nat \<Rightarrow> nat" where
  "next_index index stride n = index + n * stride"

definition sub_at :: "nat \<Rightarrow> nat \<Rightarrow> nat \<Rightarrow> sub_sys \<Rightarrow> nat \<Rightarrow> bool" where
  "sub_at r i stride s n \<longleftrightarrow>
     sys_inv stride s \<and> i < length (snd s) \<and>
     (let it = snd s ! i; g = next_index r stride n
      in case si_entry it of
           None \<Rightarrow> si_entry_index it = g
         | Some p \<Rightarrow> p = (g div NUM_ENTRIES_PER_BLOCK, g mod NUM_ENTRIES_PER_BLOCK) \<and> si_entry_index it = g + stride)"

definition sub_ready :: "nat \<Rightarrow> nat \<Rightarrow> sub_sys \<Rightarrow> nat \<Rightarrow> log_entry_msg option" where
  "sub_ready r stride s n = slot_at (fst s) (next_index r stride n)"

lemma sub_next_entry_ok:
  fixes n :: nat
  assumes at: "sub_at r i stride (l, its) n"
  obtains l' it' where
    "sub_next_entry l (its ! i) = Inr (slot_at l (next_index r stride n), l', it')"
    "sl_blocks l' = sl_blocks l" "sl_num_blocks l' = sl_num_blocks l" "sl_block l' = sl_block l"
    "sub_at r i stride (l', its[i := it']) (if slot_at l (next_index r stride n) = None then n else Suc n)"
proof -
  let ?it = "its ! i" and ?g = "next_index r stride n" and ?B = NUM_ENTRIES_PER_BLOCK
  have inv: "sys_inv stride (l, its)" and i: "i < length its"
    using at by (simp_all add: sub_at_def)
  have stride: "si_stride ?it = stride"
    using inv i by (auto simp: sys_inv_def iter_ok_def)
  obtain ok l1 it1 where run: "sub_obtain (\<lambda>x. x + stride) l ?it = (ok, l1, it1)"
    by (metis prod_cases3)
  have "x \<le> x + stride" for x
    by simp
  note obt = sub_obtain_ok [OF inv i this run]
  have i1: "i < length (its[i := it1])"
    using i by simp
  have log1: "sub_log_ok l1" and it1: "iter_ok stride l1 it1"
    using obt(1) i by (auto simp: sys_inv_def set_update_memI)
  have slot1: "slot_at l1 = slot_at l"
    using obt(2) by (rule slot_at_cong)
  have blk: "sl_block l1 = sl_block l"
    using log1 inv obt(3) by (simp add: sys_inv_def sub_log_ok_def)
  show thesis
  proof (cases ok)
    case False
    then have none: "si_entry ?it = None" and big: "\<not> si_entry_index ?it div ?B < sl_num_blocks l"
      using obt(4) by blast+
    then have "slot_at l ?g = None"
      using at inv by (simp add: sub_at_def slot_at_def sys_inv_def sub_log_ok_def Let_def)
    moreover have "sub_at r i stride (l1, its[i := it1]) n"
      using False obt(1,7) at none i1 by (simp add: sub_at_def Let_def)
    ultimately show thesis
      using that [of l1 it1] run False obt(2,3) blk stride by (simp add: sub_next_entry_def)
  next
    case True
    have e1: "si_entry it1 = Some (?g div ?B, ?g mod ?B)" "si_entry_index it1 = ?g + stride"
      using True obt(5,6) at by (cases "si_entry ?it"; simp add: sub_at_def Let_def)+
    have bi: "si_block_index it1 = ?g div ?B"
      using it1 e1 by (simp add: iter_ok_def)
    have load: "load_entry l1 (?g div ?B, ?g mod ?B) = Inr (slot_at l ?g)"
      using load_entry_ok [OF log1, of "?g div ?B" "?g mod ?B"] it1 bi by (simp add: iter_ok_def slot1)
    show thesis
    proof (cases "slot_at l ?g")
      case None
      moreover have "sub_at r i stride (l1, its[i := it1]) n"
        using obt(1) e1 i1 by (simp add: sub_at_def Let_def)
      ultimately show thesis
        using that [of l1 it1] run True obt(2,3) blk stride load e1 by (simp add: sub_next_entry_def)
    next
      case (Some e)
      let ?it2 = "it1\<lparr>si_entry := None\<rparr>"
      have "sys_inv stride (l1, its[i := ?it2])"
        using sys_inv_release [OF obt(1) i1] i by simp
      then have "sub_at r i stride (l1, its[i := ?it2]) (Suc n)"
        using e1 i1 by (simp add: sub_at_def next_index_def algebra_simps)
      then show thesis
        using that [of l1 ?it2] Some run True obt(2,3) blk stride load e1 by (simp add: sub_next_entry_def)
    qed
  qed
qed

subsection \<open>The other threads\<close>

text \<open>
  The control thread recycles, the polling threads insert entries that are new at positions that have
  not passed them, the other application threads poll.
\<close>

definition position_ok :: "sub_log \<Rightarrow> sub_position \<Rightarrow> bool" where
  "position_ok l p \<longleftrightarrow> sp_iterator p = sp_block_index p \<and> sp_current_blocks p \<le> sl_num_blocks l"

inductive sub_env :: "nat \<Rightarrow> sub_sys \<Rightarrow> sub_sys \<Rightarrow> bool" for i where
  env_recycle: "sub_env i (l, its) (recycle_blocks l, its)"
| env_insert: "position_ok l p \<Longrightarrow> sp_block_index p \<le> le_gsn e div NUM_ENTRIES_PER_BLOCK \<Longrightarrow>
    slot_at l (le_gsn e) = None \<Longrightarrow> sub_insert e l p = Some (Inr (l', p')) \<Longrightarrow> sub_env i (l, its) (l', its)"
| env_poll: "j \<noteq> i \<Longrightarrow> j < length its \<Longrightarrow> sub_next_entry l (its ! j) = Inr (e, l', it') \<Longrightarrow>
    sub_env i (l, its) (l', its[j := it'])"

lemma recycle_ok:
  assumes inv: "sys_inv stride (l, its)"
  shows "sys_inv stride (recycle_blocks l, its)"
    and "sl_num_blocks l \<le> sl_num_blocks (recycle_blocks l)"
    and "i < length its \<Longrightarrow> si_block_index (its ! i) \<le> g div NUM_ENTRIES_PER_BLOCK \<Longrightarrow>
           slot_at l g = Some e \<Longrightarrow> slot_at (recycle_blocks l) g = Some e"
    and "slot_at (recycle_blocks l) g = Some e \<Longrightarrow> slot_at l g = Some e"
proof -
  let ?l = "recycle_blocks l" and ?b = "sl_block l"
  have log: "sub_log_ok l" and n: "sl_num_blocks l = ?b + 2" "length (sl_blocks l) = ?b + 2" "length (sl_counters l) = ?b + 2"
    using inv by (auto simp: sys_inv_def sub_log_ok_def)
  have nulls: "sl_blocks l ! b = None \<longleftrightarrow> b < ?b" if "b < ?b + 2" for b
    using log n(1) that by (simp add: sub_log_ok_def)
  have "sys_inv stride (?l, its) \<and> (\<forall>g e. slot_at ?l g = Some e \<longrightarrow> slot_at l g = Some e) \<and>
      (\<forall>g. (\<exists>it \<in> set its. si_block_index it \<le> g div NUM_ENTRIES_PER_BLOCK) \<longrightarrow> slot_at l g \<noteq> None \<longrightarrow> slot_at ?l g = slot_at l g)"
  proof (cases "sl_counters l ! ?b = sl_num_iterators l")
    case True
    then have l: "?l = l\<lparr>sl_blocks := (sl_blocks l)[?b := None] @ [Some zero_block],
        sl_counters := sl_counters l @ [0], sl_num_blocks := Suc (sl_num_blocks l), sl_block := Suc ?b\<rparr>"
      by (simp add: recycle_blocks_def)
    have "length (filter (\<lambda>it. ?b < si_block_index it) its) = length its"
      using inv True n(1) by (simp add: sys_inv_def)
    then have past: "?b < si_block_index it" if "it \<in> set its" for it
      using that by (metis filter_id_conv length_filter_less less_irrefl)
    have blk: "sl_blocks ?l ! b = (if b = ?b then None else if b < ?b + 2 then sl_blocks l ! b else Some zero_block)"
      if "b < ?b + 3" for b
      using that n(2) by (auto simp: l nth_append nth_Cons')
    have slot: "slot_at ?l g = (if g div NUM_ENTRIES_PER_BLOCK = ?b then None else slot_at l g)" for g
      using blk [of "g div NUM_ENTRIES_PER_BLOCK"] n(2)
      by (auto simp: slot_at_def Let_def l zero_block_def nth_append split: option.splits)
    have "sub_log_ok ?l"
      using log n blk nulls slot by (auto simp: sub_log_ok_def l less_Suc_eq split: if_splits)
    moreover have "iter_ok stride ?l it" if "it \<in> set its" for it
      using inv that past [OF that] by (force simp: sys_inv_def iter_ok_def l split: option.splits)
    moreover have "sl_counters ?l ! b = length (filter (\<lambda>it. b < si_block_index it) its)" if "b < sl_num_blocks ?l" for b
    proof (cases "b < ?b + 2")
      case True
      with inv n show ?thesis by (simp add: l sys_inv_def nth_append)
    next
      case False
      then have "filter (\<lambda>it. b < si_block_index it) its = []"
        using inv n(1) by (force simp: sys_inv_def iter_ok_def filter_empty_conv)
      with False that n show ?thesis by (simp add: l nth_append)
    qed
    ultimately show ?thesis
      using inv past [folded not_le] slot by (auto simp: sys_inv_def l)
  qed (use inv in \<open>simp add: recycle_blocks_def\<close>)
  then show "sys_inv stride (?l, its)"
    "i < length its \<Longrightarrow> si_block_index (its ! i) \<le> g div NUM_ENTRIES_PER_BLOCK \<Longrightarrow>
       slot_at l g = Some e \<Longrightarrow> slot_at ?l g = Some e"
    "slot_at ?l g = Some e \<Longrightarrow> slot_at l g = Some e"
    by (simp, metis nth_mem option.discI, blast)
  show "sl_num_blocks l \<le> sl_num_blocks ?l"
    by (simp add: recycle_blocks_def)
qed

lemma sub_insert_ok:
  assumes inv: "sys_inv stride (l, its)" and p: "position_ok l p" "sp_block_index p \<le> le_gsn e div NUM_ENTRIES_PER_BLOCK"
    and run: "sub_insert e l p = Some (Inr (l', p'))"
  shows "sys_inv stride (l', its)" and "slot_at l' = (slot_at l)(le_gsn e := Some e)" and "sl_block l' = sl_block l"
    and "position_ok l' p'"
proof -
  let ?B = NUM_ENTRIES_PER_BLOCK
  let ?b = "le_gsn e div ?B"
  have len: "length (sl_blocks l) = sl_num_blocks l"
    using inv by (simp add: sys_inv_def sub_log_ok_def)
  have it: "sp_iterator p + (?b - sp_block_index p) = ?b" "sp_block_index p + (?b - sp_block_index p) = ?b"
    using p by (simp_all add: position_ok_def)
  obtain blk where b: "?b < sl_num_blocks l" and blk: "sl_blocks l ! ?b = Some blk"
    and l': "l' = l\<lparr>sl_blocks := (sl_blocks l)[?b := Some (blk(le_gsn e mod ?B := Some e))]\<rparr>"
    and p': "sp_iterator p' = ?b" "sp_block_index p' = ?b" "sp_current_blocks p' \<le> sl_num_blocks l"
    using run p(1) by (auto simp: sub_insert_def it Let_def position_ok_def len split: if_splits option.splits)
  show "slot_at l' = (slot_at l)(le_gsn e := Some e)"
  proof (rule ext)
    fix g
    have "g = le_gsn e \<longleftrightarrow> g div ?B = ?b \<and> g mod ?B = le_gsn e mod ?B"
      by (metis div_mult_mod_eq)
    then show "slot_at l' g = ((slot_at l)(le_gsn e := Some e)) g"
      using b blk len by (auto simp: slot_at_def Let_def l' nth_list_update)
  qed
  moreover have "sl_blocks l ! ?b = None \<longleftrightarrow> ?b < sl_block l"
    using inv b by (simp add: sys_inv_def sub_log_ok_def)
  then have "\<not> ?b < sl_block l"
    by (simp add: blk)
  ultimately have "sub_log_ok l'"
    using inv b blk by (auto simp: sys_inv_def sub_log_ok_def l' nth_list_update split: if_splits)
  moreover have "iter_ok stride l' it" if "iter_ok stride l it" for it
    using that by (simp add: iter_ok_def l')
  ultimately show "sys_inv stride (l', its)"
    using inv by (auto simp: sys_inv_def l')
  show "sl_block l' = sl_block l" "position_ok l' p'"
    using p' by (simp_all add: l' position_ok_def)
qed

lemma sub_at_block:
  assumes "sub_at r i stride (l, its) n" and "n \<le> k"
  shows "si_block_index (its ! i) \<le> next_index r stride k div NUM_ENTRIES_PER_BLOCK"
proof -
  have it: "iter_ok stride l (its ! i)"
    using assms(1) by (auto simp: sub_at_def sys_inv_def)
  have "si_block_index (its ! i) \<le> next_index r stride n div NUM_ENTRIES_PER_BLOCK"
    using it assms(1) by (cases "si_entry (its ! i)") (auto simp: sub_at_def iter_ok_def Let_def)
  also have "\<dots> \<le> next_index r stride k div NUM_ENTRIES_PER_BLOCK"
    using assms(2) by (intro div_le_mono) (simp add: next_index_def)
  finally show ?thesis .
qed

lemma sub_at_cong:
  "sub_at r i stride (l, its) n \<Longrightarrow> sys_inv stride (l', its') \<Longrightarrow> its' ! i = its ! i \<Longrightarrow> length its' = length its \<Longrightarrow>
     sub_at r i stride (l', its') n"
  by (simp add: sub_at_def)

text \<open>Any iterator of the system stands somewhere in its sequence, so its polls are covered by \<open>sub_next_entry_ok\<close>.\<close>

lemma sub_poll_other:
  assumes inv: "sys_inv stride (l, its)" and j: "j < length its"
    and run: "sub_next_entry l (its ! j) = Inr (e, l', it')"
  shows "sys_inv stride (l', its[j := it'])" and "sl_blocks l' = sl_blocks l"
proof -
  let ?it = "its ! j"
  have stride: "si_stride ?it = stride"
    using inv j by (auto simp: sys_inv_def iter_ok_def)
  obtain ok l1 it1 where ob: "sub_obtain (\<lambda>x. x + stride) l ?it = (ok, l1, it1)"
    by (metis prod_cases3)
  have "x \<le> x + stride" for x
    by simp
  note obt = sub_obtain_ok [OF inv j this ob]
  have "l' = l1 \<and> (it' = it1 \<or> it' = it1\<lparr>si_entry := None\<rparr>)"
    using run by (auto simp: sub_next_entry_def stride ob rbind_eq_Inr split: bool.splits option.splits)
  then show "sys_inv stride (l', its[j := it'])" "sl_blocks l' = sl_blocks l"
    using obt(1,2) sys_inv_release [OF obt(1), of j] j by auto
qed

lemma sub_env_ok:
  assumes "sub_env i s s'" and "sub_at r i stride s n"
  shows "sub_at r i stride s' n \<and> (\<forall>k e. n \<le> k \<longrightarrow> sub_ready r stride s k = Some e \<longrightarrow> sub_ready r stride s' k = Some e)"
  using assms
proof (induction rule: sub_env.induct)
  case (env_recycle l its)
  have inv: "sys_inv stride (l, its)" and i: "i < length its"
    using env_recycle by (simp_all add: sub_at_def)
  have "sub_at r i stride (recycle_blocks l, its) n"
    using sub_at_cong [OF env_recycle recycle_ok(1) [OF inv]] by simp
  moreover have "slot_at (recycle_blocks l) (next_index r stride k) = Some e"
    if "n \<le> k" "slot_at l (next_index r stride k) = Some e" for k e
    using recycle_ok(3) [OF inv i sub_at_block [OF env_recycle that(1)] that(2)] .
  ultimately show ?case
    by (simp add: sub_ready_def)
next
  case (env_insert l p e' l' p' its)
  have inv: "sys_inv stride (l, its)"
    using env_insert.prems by (simp add: sub_at_def)
  note ins = sub_insert_ok [OF inv env_insert.hyps(1,2,4)]
  have "sub_at r i stride (l', its) n"
    using sub_at_cong [OF env_insert.prems ins(1)] by simp
  then show ?case
    using ins(2) env_insert.hyps(3) by (auto simp: sub_ready_def)
next
  case (env_poll j its l e' l' it')
  have inv: "sys_inv stride (l, its)"
    using env_poll.prems by (simp add: sub_at_def)
  note poll = sub_poll_other [OF inv env_poll.hyps(2,3)]
  have "sub_at r i stride (l', its[j := it']) n"
    using sub_at_cong [OF env_poll.prems poll(1)] env_poll.hyps(1) by simp
  then show ?case
    using slot_at_cong [OF poll(2)] by (simp add: sub_ready_def)
qed

lemma sys_poll_ok:
  assumes "sub_at r i stride s n"
  shows "fst (sys_poll i s) = sub_ready r stride s n"
    and "sub_at r i stride (snd (sys_poll i s)) (if sub_ready r stride s n = None then n else Suc n)"
    and "slot_at (fst (snd (sys_poll i s))) = slot_at (fst s)"
proof -
  obtain l its where s: "s = (l, its)" by fastforce
  obtain l' it' where run: "sub_next_entry l (its ! i) = Inr (slot_at l (next_index r stride n), l', it')"
      "sl_blocks l' = sl_blocks l"
      "sub_at r i stride (l', its[i := it']) (if slot_at l (next_index r stride n) = None then n else Suc n)"
    using sub_next_entry_ok [of r i stride l its n] assms s by metis
  have poll: "sys_poll i s = (slot_at l (next_index r stride n), l', its[i := it'])"
    by (simp add: sys_poll_def s run(1))
  show "fst (sys_poll i s) = sub_ready r stride s n"
    "sub_at r i stride (snd (sys_poll i s)) (if sub_ready r stride s n = None then n else Suc n)"
    "slot_at (fst (snd (sys_poll i s))) = slot_at (fst s)"
    using run(3) slot_at_cong [OF run(2)] unfolding poll by (simp_all add: sub_ready_def s)
qed

interpretation subit: strided_reader "sys_poll i" "sub_env i" "sub_at r i stride" "sub_ready r stride"
    le_gsn "next_index r stride" for r i stride
proof (unfold_locales, goal_cases)
  case (1 s n) then show ?case by (rule sys_poll_ok)
next
  case (2 s n) then show ?case by (rule sys_poll_ok)
next
  case (3 s n k e) then show ?case
    by (simp add: sys_poll_ok(3) sub_ready_def)
next
  case (4 s s' n) then show ?case using sub_env_ok by blast
next
  case (5 s s' n k e) then show ?case using sub_env_ok by blast
next
  case (6 s n e) then show ?case
    by (auto simp: sub_at_def sys_inv_def sub_log_ok_def sub_ready_def)
qed

text \<open>The application threads as \<open>process\<close> starts them on the fresh log.\<close>

lemma threads_inv:
  assumes "\<And>i. i < n \<Longrightarrow> f i = sub_iterator_init (r i) n b" and "b \<le> 2"
  shows "sys_inv n (sub_log_init n, map f [0..<n])"
  using assms by (auto simp: sys_inv_def sub_log_ok_def sub_log_init_def iter_ok_def sub_iterator_init_def
      slot_at_def zero_block_def nth_Cons' Let_def split: if_splits)

lemma threads_at:
  assumes "i < n" and "\<And>j. j < n \<Longrightarrow> f j = sub_iterator_init (r j) n b" and "b \<le> 2"
  shows "sub_at (r i) i n (sub_log_init n, map f [0..<n]) 0"
  using threads_inv [of n f r] assms by (simp add: sub_at_def next_index_def sub_iterator_init_def)

end
