(* ===== verification/Teardown.thy ===== *)
theory Teardown
  imports Handles History Subscriber_Log_Facts
begin

text \<open>
  The end of the objects: the destructors of the two logs, \<open>src/storage/log.cpp\<close> and \<open>src/subscriber/log.cpp\<close>, and of the network manager,
  \<open>src/network/manager.cpp\<close>, with the overloads of \<open>accept\<close> and \<open>connect\<close> for a single queue.
\<close>

subsection \<open>The log of a storage server\<close>

text \<open>
  The destructor goes over all entries of all blocks and frees the data of those that are longer than a word. The model lists the
  entries whose data is freed.
\<close>

definition block_entries :: "nat \<Rightarrow> ptr list" where
  "block_entries b = map (Pair b) [0..<NUM_ENTRIES_PER_BLOCK]"

definition log_destroy :: "log \<Rightarrow> ptr list" where
  "log_destroy l = filter (\<lambda>p. e_data_length (l_heap l p) > 8) (concat (map block_entries [0..<l_num_blocks l]))"

text \<open>What is freed has to be a copy that \<open>alloc_copy\<close> has allocated.\<close>

fun is_copy :: "edata \<Rightarrow> bool" where
  "is_copy (Heap_data _) = True"
| "is_copy (Word_data _) = False"

definition copies_long :: "(ptr \<Rightarrow> entry) \<Rightarrow> bool" where
  "copies_long h \<longleftrightarrow> (\<forall>p. is_copy (e_data (h p)) \<longleftrightarrow> e_data_length (h p) > 8)"

named_theorems copies

lemma copies_init [copies]: "copies_long (l_heap log_init)"
  by (simp add: copies_long_def log_init_def zero_entry_def)

lemma copies_set [copies]: "copies_long h \<Longrightarrow> copies_long (set_entry p h)"
  by (auto simp: copies_long_def set_entry_def)

lemma copies_fill [copies]: "copies_long h \<Longrightarrow> copies_long (fill_entry p mem len h)"
  by (simp add: copies_long_def fill_entry_def alloc_copy_def)

lemma room_heap [simp]: "l_heap (room l) = l_heap l"
  by (simp add: room_def)

lemma copies_place [copies]:
  assumes "copies_long (l_heap l)"
  shows "copies_long (l_heap (place_entry l c g))"
proof (cases "l_client_entries l c")
  case (Pair first last)
  with assms show ?thesis
    by (cases last) (auto simp: copies_long_def place_entry_def Let_def)
qed

lemma copies_yield [copies]:
  "yield asg i (l, g) = Inr (l', g') \<Longrightarrow> copies_long (l_heap l) \<Longrightarrow> copies_long (l_heap l')"
  by (auto simp: yield_def Let_def split: if_splits intro: copies_place)

lemma copies_secondaries [copies]:
  "secondaries asg js (errors, l, g) = Inr (errors', l', g') \<Longrightarrow> copies_long (l_heap l) \<Longrightarrow> copies_long (l_heap l')"
proof (induction js arbitrary: errors l g)
  case (Cons j js)
  then show ?case
    by (auto simp: Let_def rbind_eq_Inr split: if_splits dest: copies_yield)
qed simp

lemma copies_primaries [copies]:
  "primaries asg k (errors, l, g) = Inr (errors', l', g') \<Longrightarrow> copies_long (l_heap l) \<Longrightarrow> copies_long (l_heap l')"
proof (induction k arbitrary: errors l g)
  case (Suc k)
  then show ?case
    by (auto simp: rbind_eq_Inr dest: copies_yield copies_secondaries)
qed simp

lemma copies_add [copies]:
  "add_entries g asg l = Inr l' \<Longrightarrow> copies_long (l_heap l) \<Longrightarrow> copies_long (l_heap l')"
  by (auto simp: add_entries_def Let_def rbind_eq_Inr split: if_splits dest: copies_primaries)

lemma copies_close_slots [copies]: "close_slots n h p = Inr (h', q) \<Longrightarrow> copies_long h \<Longrightarrow> copies_long h'"
  by (induction n arbitrary: h p) (auto simp: Let_def split: option.splits intro: copies)

lemma copies_insert [copies]:
  assumes "position_insert l pos mem len n = Inr (l', pos', g)" and "copies_long (l_heap l)"
  shows "copies_long (l_heap l')"
proof -
  from assms(1) obtain p h q where p: "next_of l pos = Some p" and h: "close_slots (u64_sub n 1) (l_heap l) p = Inr (h, q)"
    and l': "l' = l\<lparr>l_heap := fill_entry q mem len h\<rparr>"
    by (auto simp: position_insert_def rbind_eq_Inr Let_def split: option.splits)
  from copies_fill [OF copies_close_slots [OF h assms(2)]] show ?thesis
    by (simp add: l')
qed

lemma copies_close_loop:
  assumes "close_loop h p = Some r"
  shows "copies_long h \<longrightarrow> copies_long (fst r)"
proof (rule close_loop.raw_induct [OF _ assms])
  fix loop h p r
  assume IH: "\<And>h p r. loop h p = Some r \<Longrightarrow> copies_long h \<longrightarrow> copies_long (fst r)"
    and r: "(case e_next (h p) of None \<Rightarrow> Some (h, p) | Some q \<Rightarrow> loop (set_entry q h) q) = Some r"
  show "copies_long h \<longrightarrow> copies_long (fst r)"
    using r copies_set [of h] IH by (cases "e_next (h p)") auto
qed

lemma copies_close [copies]:
  "position_close l pos = Some (l', pos') \<Longrightarrow> copies_long (l_heap l) \<Longrightarrow> copies_long (l_heap l')"
  by (auto simp: position_close_def Let_def copies_set split: prod.splits option.splits dest!: copies_close_loop)

lemma copies_slots_handler:
  "storage_on_slots m s = Some (Inr (s', out)) \<Longrightarrow> copies_long (l_heap (st_log s)) \<Longrightarrow> copies_long (l_heap (st_log s'))"
  by (cases m) (auto simp: rbind_eq_Inr split: if_splits dest: copies_add)

lemma copies_patch_handler:
  "storage_on_patch m s = Some (Inr (s', out)) \<Longrightarrow> copies_long (l_heap (st_log s)) \<Longrightarrow> copies_long (l_heap (st_log s'))"
  by (cases m) (auto simp: with_client_of rbind_eq_Inr frame_simps split: if_splits dest: copies_insert)

lemma copies_finalize_handler:
  "storage_on_finalize m s = Some (Inr (s', out)) \<Longrightarrow> copies_long (l_heap (st_log s)) \<Longrightarrow> copies_long (l_heap (st_log s'))"
  by (cases m) (auto simp: with_client_of frame_simps split: if_splits dest: copies_close)

lemma copies_insert_handler:
  "storage_on_insert m s = Some (Inr (s', out)) \<Longrightarrow> copies_long (l_heap (st_log s)) \<Longrightarrow> copies_long (l_heap (st_log s'))"
  by (cases m) (auto simp: with_connected_of rbind_eq_Inr frame_simps split: if_splits dest: copies_insert)

lemma storage_run_copies: "storage_run s \<Longrightarrow> copies_long (l_heap (st_log s))"
proof (induction rule: storage_run.induct)
  case (storage_start ct st sd sh r s)
  then show ?case
    using copies_init by (auto simp: storage_init_def split: if_splits)
next
  case (storage_step s ev s' out)
  from storage_handle_log [OF storage_step.hyps(3)] storage_step.IH show ?case
    by (auto dest: copies_slots_handler copies_patch_handler copies_finalize_handler copies_insert_handler simp del: storage_handlers_opaque)
qed

lemma distinct_block_entries: "distinct (concat (map block_entries [0..<n]))"
  by (induction n) (auto simp: block_entries_def distinct_map inj_on_def)

text \<open>
  The destructor frees every copy once and nothing that is not a copy: no entry beyond the blocks has data.
\<close>

lemma log_destroy_exact:
  assumes "storage_run s"
  shows "distinct (log_destroy (st_log s)) \<and> set (log_destroy (st_log s)) = {p. snd p < NUM_ENTRIES_PER_BLOCK \<and> is_copy (e_data (l_heap (st_log s) p))}"
proof -
  let ?l = "st_log s"
  have inv: "log_inv ?l"
    using storage_run_inv [OF assms] by (simp add: storage_inv_def)
  have long: "e_data_length (l_heap ?l p) > 8 \<longleftrightarrow> is_copy (e_data (l_heap ?l p))" for p
    using storage_run_copies [OF assms] unfolding copies_long_def by blast
  have "fst p < l_num_blocks ?l" if p: "snd p < NUM_ENTRIES_PER_BLOCK" "is_copy (e_data (l_heap ?l p))" for p
  proof (rule ccontr)
    assume "\<not> fst p < l_num_blocks ?l"
    then have "(l_num_blocks ?l - 1) * NUM_ENTRIES_PER_BLOCK + NUM_ENTRIES_PER_BLOCK \<le> fst p * NUM_ENTRIES_PER_BLOCK"
      using inv mult_le_mono1 [of "l_num_blocks ?l" "fst p" NUM_ENTRIES_PER_BLOCK]
      by (cases "l_num_blocks ?l") (auto simp: log_inv_def add.commute)
    then have "ent ?l (fst p * NUM_ENTRIES_PER_BLOCK + snd p) = zero_entry"
      using inv by (auto simp: log_inv_def)
    moreover have "ptr_of (fst p * NUM_ENTRIES_PER_BLOCK + snd p) = p"
      using p(1) by (simp add: ptr_of_end)
    ultimately show False
      using p(2) by (simp add: ent_def zero_entry_def)
  qed
  then show ?thesis
    by (force simp: log_destroy_def distinct_block_entries long block_entries_def)
qed

subsection \<open>The log of a subscriber\<close>

text \<open>The destructor frees the blocks of the nodes that do not hold a null pointer: the two blocks that were allocated.\<close>

definition sub_log_destroy :: "sub_log \<Rightarrow> nat list" where
  "sub_log_destroy l = filter (\<lambda>b. sl_blocks l ! b \<noteq> None) [0..<length (sl_blocks l)]"

lemma sub_log_destroy_exact:
  assumes "sub_log_ok l"
  shows "sub_log_destroy l = [sl_block l, Suc (sl_block l)]"
proof -
  have len: "length (sl_blocks l) = Suc (Suc (sl_block l))" and null: "\<And>b. b < length (sl_blocks l) \<Longrightarrow> sl_blocks l ! b = None \<longleftrightarrow> b < sl_block l"
    using assms by (auto simp: sub_log_ok_def)
  have "filter (\<lambda>b. sl_blocks l ! b \<noteq> None) [0..<sl_block l] = []"
    using null len by (auto simp: filter_empty_conv)
  moreover have "sl_blocks l ! sl_block l \<noteq> None" "sl_blocks l ! Suc (sl_block l) \<noteq> None"
    using null [of "sl_block l"] null [of "Suc (sl_block l)"] len by auto
  ultimately show ?thesis
    by (simp add: sub_log_destroy_def len)
qed

subsection \<open>The network manager\<close>

text \<open>What the driver answers when memory regions, domains and the device are given back.\<close>

record device_close =
  dc_dereg :: "nat \<Rightarrow> bool"
  dc_xrcd :: bool
  dc_pd :: bool
  dc_device :: bool

definition assert_ok :: "string \<Rightarrow> bool \<Rightarrow> unit res" where
  "assert_ok error b = (if b then Inr () else Inl (Assert_failed error))"

definition manager_destroy :: "device_close \<Rightarrow> manager_state \<Rightarrow> unit res" where
  "manager_destroy d m =
     rbind (destroy_all (dc_dereg d) ''could not destroy memory region'' [0..<nm_pages (mg_memory m)]) (\<lambda>_.
     rbind (assert_ok ''could not destroy XRC domain'' (dc_xrcd d)) (\<lambda>_.
     rbind (assert_ok ''could not destroy protection domain'' (dc_pd d)) (\<lambda>_.
     assert_ok ''could not destroy device context'' (dc_device d))))"

text \<open>The overloads for one queue take the first queue of the vector.\<close>

definition front_queue ::
  "(connection option \<times> manager_state) res \<Rightarrow> (((send_queue \<times> qp \<times> qp) \<times> byte list) option \<times> manager_state) res" where
  "front_queue r =
     rbind r (\<lambda>(c, m). case c of
       None \<Rightarrow> Inr (None, m)
     | Some (queues, message) \<Rightarrow> (case queues of [] \<Rightarrow> Inl Out_of_bounds | q # _ \<Rightarrow> Inr (Some (q, message), m)))"

definition accept_one where "accept_one d ret errno socket io m = front_queue (accept_connection d ret errno socket 1 io m)"
definition connect_one where "connect_one d socket ret io m = front_queue (connect_to d socket ret 1 io m)"

text \<open>The vector is never empty: at least one queue is negotiated, and each is activated with a queue of the peer.\<close>

lemma activate_all_length: "activate_all d m info ps qs = Inr ps' \<Longrightarrow> length ps' = length ps \<and> length ps \<le> length qs"
  by (induction d m info ps qs arbitrary: ps' rule: activate_all.induct) (auto simp: rbind_eq_Inr)

lemma establish_nonempty: "establish d n io m = Inr (Some (queues, message), m') \<Longrightarrow> queues \<noteq> []"
proof -
  assume est: "establish d n io m = Inr (Some (queues, message), m')"
  then obtain other qs m1 bytes info ps where other: "io_num_queues io = Some other"
    and qs: "open_queues d (negotiate n other) m = Inr (qs, m1)"
    and ps: "activate_all d m1 info (map snd qs) (take (negotiate n other) (di_queue_infos info)) = Inr ps"
    and queues: "queues = zip (map (remote_queue info) (take (negotiate n other) (di_queue_infos info))) (map (labelled (di_message info)) ps)"
    by (auto simp: establish_def rbind_eq_Inr Let_def split: option.splits bool.splits)
  have "0 < length qs"
    using open_queues_length [OF qs] negotiate_pos by simp
  with activate_all_length [OF ps] show ?thesis
    using negotiate_pos [of n other] by (auto simp: queues zip_eq_Nil_iff)
qed

lemma front_queue_ok:
  assumes "\<And>queues message m'. r = Inr (Some (queues, message), m') \<Longrightarrow> queues \<noteq> []" and "r = Inr x"
  shows "\<exists>y. front_queue r = Inr y"
  using assms by (cases x) (auto simp: front_queue_def neq_Nil_conv split: option.splits prod.splits list.splits)

lemma accept_one_ok: "accept_connection d ret errno socket 1 io m = Inr x \<Longrightarrow> \<exists>y. accept_one d ret errno socket io m = Inr y"
  unfolding accept_one_def
  by (rule front_queue_ok) (auto simp: accept_connection_def rbind_eq_Inr split: if_splits dest: establish_nonempty)

lemma connect_one_ok: "connect_to d socket ret 1 io m = Inr x \<Longrightarrow> \<exists>y. connect_one d socket ret io m = Inr y"
  unfolding connect_one_def
  by (rule front_queue_ok) (auto simp: connect_to_def Let_def split: if_splits dest: establish_nonempty)

end
