(* ===== verification/Lock_Service.thy ===== *)
theory Lock_Service
  imports Client Zip_Bytes
begin

text \<open>
  The lock service, \<open>src/lock_service/lock_service.h\<close> and \<open>src/lock_service/lock_service.cpp\<close>: every process
  replays the requests of the log, in log order, on one queue of waiting clients per key; the head of a queue
  holds the lock.

  A request carries the address of a flag on the stack of the thread that waits for it; the flags of a process
  are a memory from addresses to booleans.
\<close>

subsection \<open>Data\<close>

datatype lock_action = Lock | Unlock

record lock_request =
  lr_action :: lock_action
  lr_client :: u64
  lr_lock_key :: u64
  lr_done :: nat

record lock_service =
  ls_cid :: u64
  ls_queue :: "lock_request list list"
  ls_done :: "nat \<Rightarrow> bool"
  ls_buffer_idx :: nat

definition kNumBuffers :: nat where "kNumBuffers = 10"

definition lock_service_init :: "u64 \<Rightarrow> nat \<Rightarrow> lock_service" where
  "lock_service_init cid num_keys =
     \<lparr>ls_cid = cid, ls_queue = replicate num_keys [], ls_done = (\<lambda>_. False), ls_buffer_idx = 0\<rparr>"

text \<open>The payload: the struct has four bytes of padding after the action, whose value is \<open>pad\<close>.\<close>

fun action_value :: "lock_action \<Rightarrow> nat" where
  "action_value Lock = 0"
| "action_value Unlock = 1"

definition request_bytes :: "byte list \<Rightarrow> lock_request \<Rightarrow> byte list" where
  "request_bytes pad r =
     le_bytes 4 (action_value (lr_action r)) @ pad @ le_bytes 8 (lr_client r) @ le_bytes 8 (lr_lock_key r) @ le_bytes 8 (lr_done r)"

definition request_of :: "byte list \<Rightarrow> lock_request" where
  "request_of bs =
     \<lparr>lr_action = (if field bs 0 4 = 0 then Lock else Unlock), lr_client = field bs 8 8,
      lr_lock_key = field bs 16 8, lr_done = field bs 24 8\<rparr>"

subsection \<open>Operations\<close>

definition notify :: "lock_request \<Rightarrow> lock_service \<Rightarrow> lock_service" where
  "notify r s = (if lr_client r = ls_cid s then s\<lparr>ls_done := (ls_done s)(lr_done r := True)\<rparr> else s)"

text \<open>
  The callback of the subscriber. In the branch for \<open>Unlock\<close> the reference \<open>top\<close> is used after the element has
  been removed; the model reads the values the element had.
\<close>

definition lock_callback :: "lock_request \<Rightarrow> lock_service \<Rightarrow> lock_service res" where
  "lock_callback req s =
     (let key = lr_lock_key req
      in if \<not> key < length (ls_queue s) then Inl (Assert_failed ''invalid lock key'')
         else
           (let queue = ls_queue s ! key
            in case lr_action req of
                 Lock \<Rightarrow>
                   (let s1 = (if queue = [] then notify req s else s)
                    in Inr (s1\<lparr>ls_queue := (ls_queue s1)[key := queue @ [req]]\<rparr>))
               | Unlock \<Rightarrow>
                   (case queue of
                      [] \<Rightarrow> Inl (Assert_failed ''trying to unlock an invalid key'')
                    | first # rest \<Rightarrow>
                        if lr_action first \<noteq> Lock then Inl (Assert_failed ''invalid action'')
                        else if lr_client first \<noteq> lr_client req then Inl (Assert_failed ''client mismatched'')
                        else if lr_lock_key first \<noteq> lr_lock_key req then Inl (Assert_failed ''key mismatched'')
                        else
                          (let s1 = notify first (s\<lparr>ls_queue := (ls_queue s)[key := rest]\<rparr>)
                           in Inr (case rest of [] \<Rightarrow> s1 | second # _ \<Rightarrow> notify second s1)))))"

definition lock_callback_entry :: "log_entry_msg \<Rightarrow> lock_service \<Rightarrow> lock_service res" where
  "lock_callback_entry e s = lock_callback (request_of (le_data e)) s"

text \<open>
  \<open>request\<close> up to the loop that waits for the flag: the flag and the response are locals at the addresses
  \<open>done\<close> and \<open>response\<close>; the payload goes into the next of the buffers, whose old padding stays.
\<close>

definition lock_request_start ::
  "u64 \<Rightarrow> u64 \<Rightarrow> lock_action \<Rightarrow> nat \<Rightarrow> nat \<Rightarrow> byte list \<Rightarrow> lock_service \<times> client \<Rightarrow> (lock_service \<times> client) res" where
  "lock_request_start cid key action done response pad s =
     (let (ls, c) = s;
          ls1 = ls\<lparr>ls_done := (ls_done ls)(done := False), ls_buffer_idx := (ls_buffer_idx ls + 1) mod kNumBuffers\<rparr>
      in rbind (client_insert (request_bytes pad \<lparr>lr_action = action, lr_client = cid, lr_lock_key = key, lr_done = done\<rparr>) response c)
           (\<lambda>c'. Inr (ls1, c')))"

text \<open>The wait is over.\<close>

definition request_done :: "nat \<Rightarrow> lock_service \<Rightarrow> bool" where
  "request_done done s \<longleftrightarrow> ls_done s done"

fun lock_replay :: "lock_request list \<Rightarrow> lock_service \<Rightarrow> lock_service res" where
  "lock_replay [] s = Inr s"
| "lock_replay (r # rs) s = rbind (lock_callback r s) (lock_replay rs)"

subsection \<open>The payload\<close>

lemma request_roundtrip:
  assumes "length pad = 4" and "lr_client r < 2 ^ 64" and "lr_lock_key r < 2 ^ 64" and "lr_done r < 2 ^ 64"
  shows "request_of (request_bytes pad r) = r"
proof -
  have a: "action_value (lr_action r) < 256 ^ 4" "(if action_value (lr_action r) = 0 then Lock else Unlock) = lr_action r"
    by (cases "lr_action r"; simp)+
  have "field (le_bytes 8 (lr_done r)) 0 8 = lr_done r"
    using field_le_bytes [of "lr_done r" 8 "[]"] assms(4) by simp
  then show ?thesis
    using assms a unfolding request_of_def request_bytes_def
    by (cases r) (simp add: field_skip field_le_bytes)
qed

lemma lock_callback_entry_payload:
  assumes "length pad = 4" and "lr_client r < 2 ^ 64" and "lr_lock_key r < 2 ^ 64" and "lr_done r < 2 ^ 64"
  shows "lock_callback_entry (e\<lparr>le_data := request_bytes pad r\<rparr>) s = lock_callback r s"
  by (simp add: lock_callback_entry_def request_roundtrip [OF assms])

lemma length_request_bytes: "length pad = 4 \<Longrightarrow> length (request_bytes pad r) = 32"
  by (simp add: request_bytes_def)

subsection \<open>The queues are those of a fair lock\<close>

definition lock_requests :: "u64 \<Rightarrow> lock_request list \<Rightarrow> lock_request list" where
  "lock_requests key = filter (\<lambda>r. lr_action r = Lock \<and> lr_lock_key r = key)"

definition num_unlocks :: "u64 \<Rightarrow> lock_request list \<Rightarrow> nat" where
  "num_unlocks key rs = length (filter (\<lambda>r. lr_action r = Unlock \<and> lr_lock_key r = key) rs)"

lemma lock_requests_simps [simp]:
  "lock_requests key [] = []"
  "lock_requests key (rs @ [r]) = lock_requests key rs @ (if lr_action r = Lock \<and> lr_lock_key r = key then [r] else [])"
  "num_unlocks key [] = 0"
  "num_unlocks key (rs @ [r]) = num_unlocks key rs + (if lr_action r = Unlock \<and> lr_lock_key r = key then 1 else 0)"
  by (simp_all add: lock_requests_def num_unlocks_def)

lemma lock_replay_append: "lock_replay (xs @ ys) s = rbind (lock_replay xs s) (lock_replay ys)"
  by (induction xs arbitrary: s) (simp_all add: rbind_def split: sum.splits)

lemma notify_frame [simp]:
  "ls_queue (notify r s) = ls_queue s" "ls_cid (notify r s) = ls_cid s"
  "ls_done (notify r s) = (if lr_client r = ls_cid s then (ls_done s)(lr_done r := True) else ls_done s)"
  by (simp_all add: notify_def)

text \<open>A successful step, as it changes the queues.\<close>

lemma lock_callback_Inr:
  "lock_callback req s = Inr s' \<Longrightarrow>
     ls_cid s' = ls_cid s \<and> lr_lock_key req < length (ls_queue s) \<and>
     (case lr_action req of
        Lock \<Rightarrow> ls_queue s' = (ls_queue s)[lr_lock_key req := ls_queue s ! lr_lock_key req @ [req]]
      | Unlock \<Rightarrow> \<exists>first rest. ls_queue s ! lr_lock_key req = first # rest \<and> lr_client first = lr_client req \<and>
                   ls_queue s' = (ls_queue s)[lr_lock_key req := rest])"
  by (auto simp: lock_callback_def Let_def split: if_splits lock_action.splits list.splits)

lemma lock_replay_queues:
  assumes "lock_replay rs (lock_service_init cid n) = Inr s"
  shows "ls_cid s = cid \<and> length (ls_queue s) = n \<and>
    (\<forall>key < n. num_unlocks key rs \<le> length (lock_requests key rs) \<and>
       ls_queue s ! key = drop (num_unlocks key rs) (lock_requests key rs))"
  using assms
proof (induction rs arbitrary: s rule: rev_induct)
  case (snoc r rs)
  then obtain s0 where s0: "lock_replay rs (lock_service_init cid n) = Inr s0" and r: "lock_callback r s0 = Inr s"
    by (auto simp: lock_replay_append rbind_eq_Inr)
  note IH = snoc.IH [OF s0]
  let ?k = "lr_lock_key r"
  have k: "?k < n"
    using lock_callback_Inr [OF r] IH by simp
  show ?case
  proof (cases "lr_action r")
    case Lock
    with lock_callback_Inr [OF r] have "ls_queue s = (ls_queue s0)[?k := ls_queue s0 ! ?k @ [r]]" "ls_cid s = cid"
      using IH by auto
    with IH k Lock show ?thesis
      by (auto simp: nth_list_update)
  next
    case Unlock
    with lock_callback_Inr [OF r] IH obtain first rest where
      t: "ls_queue s0 ! ?k = first # rest" "ls_queue s = (ls_queue s0)[?k := rest]" "ls_cid s = cid" by auto
    have d: "drop (num_unlocks ?k rs) (lock_requests ?k rs) = first # rest"
      using IH k t(1) by simp
    then have "num_unlocks ?k rs < length (lock_requests ?k rs)"
      by (metis drop_all list.distinct(1) not_le)
    moreover have "drop (Suc (num_unlocks ?k rs)) (lock_requests ?k rs) = rest"
      using d by (metis drop_Suc list.sel(3) tl_drop)
    ultimately show ?thesis
      using IH k Unlock t by (auto simp: nth_list_update)
  qed
qed (simp add: lock_service_init_def)

text \<open>
  The same log gives every process the same queues, whichever its own client is: success, failure and the
  queues do not depend on \<open>cid\<close> or on the flags.
\<close>

definition lock_view :: "lock_service res \<Rightarrow> lock_request list list res" where
  "lock_view r = (case r of Inl e \<Rightarrow> Inl e | Inr s \<Rightarrow> Inr (ls_queue s))"

lemma lock_callback_view:
  "ls_queue s = ls_queue t \<Longrightarrow> lock_view (lock_callback r s) = lock_view (lock_callback r t)"
  by (cases "lr_action r"; cases "ls_queue t ! lr_lock_key r")
     (simp_all add: lock_callback_def lock_view_def Let_def split: list.split)

lemma lock_replay_view:
  "ls_queue s = ls_queue t \<Longrightarrow> lock_view (lock_replay rs s) = lock_view (lock_replay rs t)"
proof (induction rs arbitrary: s t)
  case (Cons r rs)
  note v = lock_callback_view [OF Cons.prems, of r]
  show ?case
  proof (cases "lock_callback r s")
    case (Inl e)
    with v show ?thesis by (cases "lock_callback r t") (simp_all add: lock_view_def)
  next
    case (Inr s1)
    with v obtain t1 where "lock_callback r t = Inr t1" "ls_queue s1 = ls_queue t1"
      by (cases "lock_callback r t") (simp_all add: lock_view_def)
    with Inr Cons.IH [of s1 t1] show ?thesis by simp
  qed
qed (simp add: lock_view_def)

subsection \<open>Mutual exclusion\<close>

definition holder :: "u64 \<Rightarrow> lock_service \<Rightarrow> u64 option" where
  "holder key s = (case ls_queue s ! key of [] \<Rightarrow> None | r # _ \<Rightarrow> Some (lr_client r))"

text \<open>Whoever holds a lock keeps it until the log has a request of its own to unlock the key.\<close>

lemma holder_step:
  assumes "lock_callback r s = Inr s'" and "holder key s = Some c" and "key < length (ls_queue s)"
  shows "holder key s' = Some c \<or> lr_action r = Unlock \<and> lr_lock_key r = key \<and> lr_client r = c"
  using lock_callback_Inr [OF assms(1)] assms(2,3)
  by (cases "lr_action r"; cases "lr_lock_key r = key") (auto simp: holder_def split: list.splits)

lemma holder_until_unlock:
  assumes "lock_replay rs s = Inr s'" and "holder key s = Some c" and "key < length (ls_queue s)"
    and "\<forall>r \<in> set rs. \<not> (lr_action r = Unlock \<and> lr_lock_key r = key \<and> lr_client r = c)"
  shows "holder key s' = Some c"
  using assms
proof (induction rs arbitrary: s)
  case (Cons r rs)
  then obtain s1 where s1: "lock_callback r s = Inr s1" "lock_replay rs s1 = Inr s'"
    by (auto simp: rbind_eq_Inr)
  have "length (ls_queue s1) = length (ls_queue s)"
    using lock_callback_Inr [OF s1(1)] by (auto split: lock_action.splits)
  with Cons.IH [OF s1(2)] holder_step [OF s1(1) Cons.prems(2,3)] Cons.prems(3,4) show ?case
    by auto
qed simp

text \<open>
  The flags. Where the requests of this process to lock are in the queues, at which addresses, and what a delivery
  does to them: to lock appends a position, to unlock moves the others one place forward.
\<close>

definition own_at :: "lock_service \<Rightarrow> nat \<Rightarrow> nat \<Rightarrow> bool" where
  "own_at s k i \<longleftrightarrow> k < length (ls_queue s) \<and> i < length (ls_queue s ! k) \<and> lr_client (ls_queue s ! k ! i) = ls_cid s"

definition address_at :: "lock_service \<Rightarrow> nat \<Rightarrow> nat \<Rightarrow> nat" where
  "address_at s k i = lr_done (ls_queue s ! k ! i)"

lemma lock_positions:
  assumes "lock_callback r s = Inr s'" and "lr_action r = Lock"
  defines "k0 \<equiv> lr_lock_key r" and "n0 \<equiv> length (ls_queue s ! lr_lock_key r)"
  shows "own_at s' k i \<longleftrightarrow> own_at s k i \<or> k = k0 \<and> i = n0 \<and> lr_client r = ls_cid s"
    and "own_at s k i \<Longrightarrow> address_at s' k i = address_at s k i"
    and "address_at s' k0 n0 = lr_done r" and "\<not> own_at s k0 n0"
    and "ls_done s' a \<longleftrightarrow> ls_done s a \<or> n0 = 0 \<and> lr_client r = ls_cid s \<and> a = lr_done r"
    and "ls_cid s' = ls_cid s"
proof -
  let ?q = "ls_queue s ! k0"
  have k: "k0 < length (ls_queue s)" and s': "ls_queue s' = (ls_queue s)[k0 := ?q @ [r]]" and c: "ls_cid s' = ls_cid s"
    and d: "ls_done s' = (if ?q = [] \<and> lr_client r = ls_cid s then (ls_done s)(lr_done r := True) else ls_done s)"
    using assms(1,2) by (auto simp: k0_def lock_callback_def Let_def split: if_splits)
  show "own_at s' k i \<longleftrightarrow> own_at s k i \<or> k = k0 \<and> i = n0 \<and> lr_client r = ls_cid s"
    using k by (auto simp: own_at_def s' c n0_def k0_def nth_list_update nth_append less_Suc_eq)
  show "own_at s k i \<Longrightarrow> address_at s' k i = address_at s k i"
    using k by (auto simp: own_at_def address_at_def s' nth_list_update nth_append)
  show "address_at s' k0 n0 = lr_done r" "\<not> own_at s k0 n0"
    using k by (simp_all add: address_at_def own_at_def s' n0_def k0_def)
  show "ls_done s' a \<longleftrightarrow> ls_done s a \<or> n0 = 0 \<and> lr_client r = ls_cid s \<and> a = lr_done r"
    by (auto simp: d n0_def k0_def)
  show "ls_cid s' = ls_cid s" by (rule c)
qed

lemma unlock_positions:
  assumes "lock_callback r s = Inr s'" and "lr_action r = Unlock"
  defines "k0 \<equiv> lr_lock_key r"
  defines "old \<equiv> \<lambda>k i. if k = k0 then Suc i else i"
  shows "own_at s' k i \<longleftrightarrow> own_at s k (old k i)"
    and "own_at s' k i \<Longrightarrow> address_at s' k i = address_at s k (old k i)"
    and "ls_done s' a \<longleftrightarrow> ls_done s a \<or> own_at s k0 0 \<and> a = address_at s k0 0 \<or> own_at s k0 1 \<and> a = address_at s k0 1"
    and "ls_cid s' = ls_cid s"
proof -
  obtain first rest where q: "ls_queue s ! k0 = first # rest" and k: "k0 < length (ls_queue s)"
    and s1: "s' = (case rest of [] \<Rightarrow> notify first (s\<lparr>ls_queue := (ls_queue s)[k0 := rest]\<rparr>)
               | second # _ \<Rightarrow> notify second (notify first (s\<lparr>ls_queue := (ls_queue s)[k0 := rest]\<rparr>)))"
    using assms(1,2) by (auto simp: k0_def lock_callback_def Let_def split: if_splits list.splits)
  have s': "ls_queue s' = (ls_queue s)[k0 := rest]" "ls_cid s' = ls_cid s"
    by (auto simp: s1 split: list.splits)
  show "own_at s' k i \<longleftrightarrow> own_at s k (old k i)"
    using k q by (auto simp: old_def own_at_def s' nth_list_update)
  show "own_at s' k i \<Longrightarrow> address_at s' k i = address_at s k (old k i)"
    using k q by (auto simp: old_def own_at_def address_at_def s' nth_list_update)
  have first: "own_at s k0 0 \<longleftrightarrow> lr_client first = ls_cid s" "address_at s k0 0 = lr_done first"
    using k q by (auto simp: own_at_def address_at_def)
  have second: "own_at s k0 1 \<longleftrightarrow> rest \<noteq> [] \<and> lr_client (hd rest) = ls_cid s" "rest \<noteq> [] \<Longrightarrow> address_at s k0 1 = lr_done (hd rest)"
    using k q by (auto simp: own_at_def address_at_def hd_conv_nth)
  show "ls_done s' a \<longleftrightarrow> ls_done s a \<or> own_at s k0 0 \<and> a = address_at s k0 0 \<or> own_at s k0 1 \<and> a = address_at s k0 1"
    using second by (cases rest) (auto simp: s1 first)
  show "ls_cid s' = ls_cid s" by (rule s'(2))
qed

lemma head_holds: "own_at s k 0 \<Longrightarrow> holder k s = Some (ls_cid s)"
  by (cases "ls_queue s ! k") (auto simp: holder_def own_at_def)

text \<open>
  A process of the lock service: the calls under way, by the address of the flag on the stack of the caller,
  and those of them that are requests to lock whose entry of the log has not been delivered to this process.
\<close>

record lock_process =
  lp_service :: lock_service
  lp_calls :: "nat \<Rightarrow> lock_request option"
  lp_sent :: "nat set"

definition process_init :: "u64 \<Rightarrow> nat \<Rightarrow> lock_process" where
  "process_init cid n = \<lparr>lp_service = lock_service_init cid n, lp_calls = (\<lambda>_. None), lp_sent = {}\<rparr>"

text \<open>
  An address can be that of a new flag if no call under way has its flag there. A lock that is held leaves the
  address of its acquisition in the queue; only the release of this lock may use it again.
\<close>

definition address_free :: "lock_process \<Rightarrow> lock_action \<Rightarrow> u64 \<Rightarrow> nat \<Rightarrow> bool" where
  "address_free p action key a \<longleftrightarrow> lp_calls p a = None \<and>
     (\<forall>k i. own_at (lp_service p) k i \<and> address_at (lp_service p) k i = a \<longrightarrow> action = Unlock \<and> key = k)"

definition own_lock :: "lock_process \<Rightarrow> lock_request \<Rightarrow> bool" where
  "own_lock p r \<longleftrightarrow> lr_action r = Lock \<and> lr_client r = ls_cid (lp_service p)"

text \<open>
  The threads of the process start calls and return from them when the flag is set; the subscriber delivers the
  entries of the log, any of other processes and each request of its own to lock once.
\<close>

inductive lock_run :: "lock_process \<Rightarrow> bool" where
  lock_start: "lock_run (process_init cid n)"
| lock_issue: "lock_run p \<Longrightarrow> address_free p action key a \<Longrightarrow>
    lock_request_start (ls_cid (lp_service p)) key action a response pad (lp_service p, c) = Inr (s', c') \<Longrightarrow>
    lock_run (p\<lparr>lp_service := s',
      lp_calls := (lp_calls p)(a \<mapsto> \<lparr>lr_action = action, lr_client = ls_cid (lp_service p), lr_lock_key = key, lr_done = a\<rparr>),
      lp_sent := (if action = Lock then insert a (lp_sent p) else lp_sent p)\<rparr>)"
| lock_return: "lock_run p \<Longrightarrow> lp_calls p a = Some r \<Longrightarrow> request_done a (lp_service p) \<Longrightarrow>
    lock_run (p\<lparr>lp_calls := (lp_calls p)(a := None)\<rparr>)"
| lock_deliver: "lock_run p \<Longrightarrow> (own_lock p r \<Longrightarrow> lr_done r \<in> lp_sent p \<and> lp_calls p (lr_done r) = Some r) \<Longrightarrow>
    lock_callback r (lp_service p) = Inr s' \<Longrightarrow>
    lock_run (p\<lparr>lp_service := s', lp_sent := (if own_lock p r then lp_sent p - {lr_done r} else lp_sent p)\<rparr>)"

text \<open>
  The invariant: requests in the queues have addresses of their own; one that is not at the head is a call to lock under
  way whose flag is not set; one at the head, if its call is still under way, has its flag set; a call to lock that has not been
  delivered has its flag not set and its address is not in the queues.
\<close>

definition locking :: "lock_process \<Rightarrow> nat \<Rightarrow> bool" where
  "locking p a \<longleftrightarrow> (\<exists>r. lp_calls p a = Some r \<and> lr_action r = Lock)"

definition process_inv :: "lock_process \<Rightarrow> bool" where
  "process_inv p \<longleftrightarrow> (let s = lp_service p in
     (\<forall>k i k' i'. own_at s k i \<and> own_at s k' i' \<and> address_at s k i = address_at s k' i' \<longrightarrow> k = k' \<and> i = i') \<and>
     (\<forall>k i. own_at s k i \<and> 0 < i \<longrightarrow> locking p (address_at s k i) \<and> \<not> ls_done s (address_at s k i)) \<and>
     (\<forall>k. own_at s k 0 \<and> locking p (address_at s k 0) \<longrightarrow> ls_done s (address_at s k 0)) \<and>
     (\<forall>a \<in> lp_sent p. locking p a \<and> \<not> ls_done s a \<and> (\<forall>k i. own_at s k i \<longrightarrow> address_at s k i \<noteq> a)))"

lemma locking_frame [simp]:
  "locking (p\<lparr>lp_service := s\<rparr>) = locking p" "locking (p\<lparr>lp_sent := t\<rparr>) = locking p"
  by (simp_all add: locking_def fun_eq_iff)

lemma process_invI:
  assumes "\<And>k i k' i'. own_at (lp_service p) k i \<Longrightarrow> own_at (lp_service p) k' i' \<Longrightarrow>
      address_at (lp_service p) k i = address_at (lp_service p) k' i' \<Longrightarrow> k = k' \<and> i = i'"
    and "\<And>k i. own_at (lp_service p) k i \<Longrightarrow> 0 < i \<Longrightarrow>
      locking p (address_at (lp_service p) k i) \<and> \<not> ls_done (lp_service p) (address_at (lp_service p) k i)"
    and "\<And>k. own_at (lp_service p) k 0 \<Longrightarrow> locking p (address_at (lp_service p) k 0) \<Longrightarrow>
      ls_done (lp_service p) (address_at (lp_service p) k 0)"
    and "\<And>a. a \<in> lp_sent p \<Longrightarrow> locking p a \<and> \<not> ls_done (lp_service p) a"
    and "\<And>a k i. a \<in> lp_sent p \<Longrightarrow> own_at (lp_service p) k i \<Longrightarrow> address_at (lp_service p) k i \<noteq> a"
  shows "process_inv p"
  using assms unfolding process_inv_def Let_def by blast

lemma process_invD:
  assumes "process_inv p"
  shows "own_at (lp_service p) k i \<Longrightarrow> own_at (lp_service p) k' i' \<Longrightarrow>
      address_at (lp_service p) k i = address_at (lp_service p) k' i' \<Longrightarrow> k = k' \<and> i = i'"
    and "own_at (lp_service p) k i \<Longrightarrow> 0 < i \<Longrightarrow>
      locking p (address_at (lp_service p) k i) \<and> \<not> ls_done (lp_service p) (address_at (lp_service p) k i)"
    and "own_at (lp_service p) k 0 \<Longrightarrow> locking p (address_at (lp_service p) k 0) \<Longrightarrow>
      ls_done (lp_service p) (address_at (lp_service p) k 0)"
    and "a \<in> lp_sent p \<Longrightarrow> locking p a \<and> \<not> ls_done (lp_service p) a"
    and "a \<in> lp_sent p \<Longrightarrow> own_at (lp_service p) k i \<Longrightarrow> address_at (lp_service p) k i \<noteq> a"
  using assms unfolding process_inv_def Let_def by blast+

lemma process_issue:
  assumes inv: "process_inv p" and free: "address_free p action key a"
    and start: "lock_request_start (ls_cid (lp_service p)) key action a response pad (lp_service p, c) = Inr (s', c')"
  defines "r \<equiv> \<lparr>lr_action = action, lr_client = ls_cid (lp_service p), lr_lock_key = key, lr_done = a\<rparr>"
  defines "p' \<equiv> p\<lparr>lp_service := s', lp_calls := (lp_calls p)(a \<mapsto> r),
      lp_sent := (if action = Lock then insert a (lp_sent p) else lp_sent p)\<rparr>"
  shows "process_inv p'"
proof -
  let ?s = "lp_service p"
  have s': "s' = ?s\<lparr>ls_done := (ls_done ?s)(a := False), ls_buffer_idx := (ls_buffer_idx ?s + 1) mod kNumBuffers\<rparr>"
    using start by (auto simp: lock_request_start_def Let_def rbind_eq_Inr)
  then have p': "own_at (lp_service p') = own_at ?s" "address_at (lp_service p') = address_at ?s"
    "ls_done (lp_service p') = (ls_done ?s)(a := False)"
    "locking p' b \<longleftrightarrow> (if b = a then action = Lock else locking p b)"
    "lp_sent p' = (if action = Lock then insert a (lp_sent p) else lp_sent p)" for b
    by (simp_all add: p'_def r_def own_at_def address_at_def fun_eq_iff locking_def)
  note inv = process_invD [OF inv]
  have new: "lp_calls p a = None" "\<not> locking p a" "a \<notin> lp_sent p"
    using free inv(4) [of a] by (auto simp: address_free_def locking_def)
  have queued: "action = Unlock \<and> i = 0" if "own_at ?s k i" "address_at ?s k i = a" for k i
    using free inv(2) [of k i] new that by (cases i) (auto simp: address_free_def)
  show ?thesis
  proof (rule process_invI, goal_cases)
    case (1 k i k' i')
    then show ?case using inv(1) by (simp add: p')
  next
    case (2 k i)
    then show ?case using inv(2) [of k i] queued [of k i] by (auto simp: p')
  next
    case (3 k)
    then show ?case using inv(3) [of k] queued [of k 0] by (auto simp: p' split: if_splits)
  next
    case (4 b)
    then show ?case using inv(4) [of b] new by (auto simp: p' split: if_splits)
  next
    case (5 b k i)
    then show ?case using inv(5) [of b k i] queued [of k i] by (auto simp: p' split: if_splits)
  qed
qed

lemma process_return:
  assumes inv: "process_inv p" and "request_done a (lp_service p)"
  shows "process_inv (p\<lparr>lp_calls := (lp_calls p)(a := None)\<rparr>)" (is "process_inv ?p'")
proof -
  have l: "locking ?p' b \<longleftrightarrow> b \<noteq> a \<and> locking p b" for b
    by (auto simp: locking_def)
  note inv = process_invD [OF inv]
  show ?thesis
    using assms(2) by (intro process_invI) (use inv in \<open>auto simp: l request_done_def\<close>)
qed

lemma process_lock:
  assumes inv: "process_inv p" and own: "own_lock p r \<Longrightarrow> lr_done r \<in> lp_sent p"
    and call: "lock_callback r (lp_service p) = Inr s'" and lock: "lr_action r = Lock"
  shows "process_inv (p\<lparr>lp_service := s', lp_sent := (if own_lock p r then lp_sent p - {lr_done r} else lp_sent p)\<rparr>)"
    (is "process_inv ?p'")
proof -
  let ?s = "lp_service p" and ?k = "lr_lock_key r" and ?n = "length (ls_queue (lp_service p) ! lr_lock_key r)"
  note pos = lock_positions [OF call lock]
  note inv = process_invD [OF inv]
  have mine: "own_lock p r \<longleftrightarrow> lr_client r = ls_cid ?s"
    by (simp add: own_lock_def lock)
  have fresh: "own_at ?s k i \<Longrightarrow> lr_client r = ls_cid ?s \<Longrightarrow> address_at ?s k i \<noteq> lr_done r"
    and sent: "lr_client r = ls_cid ?s \<Longrightarrow> locking p (lr_done r) \<and> \<not> ls_done ?s (lr_done r)" for k i
    using own inv(4,5) mine by blast+
  have at: "own_at s' k i \<Longrightarrow> own_at ?s k i \<and> address_at s' k i = address_at ?s k i
      \<or> k = ?k \<and> i = ?n \<and> lr_client r = ls_cid ?s \<and> address_at s' k i = lr_done r" for k i
    using pos(1,2) [of k i] pos(3) by auto
  show ?thesis
  proof (rule process_invI, goal_cases)
    case (1 k i k' i')
    then show ?case
      using at [of k i] at [of k' i'] inv(1) [of k i k' i'] fresh [of k i] fresh [of k' i'] by auto
  next
    case (2 k i)
    then show ?case
      using at [of k i] inv(2) [of k i] fresh [of k i] sent by (auto simp: pos(5))
  next
    case (3 k)
    then show ?case
      using at [of k 0] inv(3) [of k] by (auto simp: pos(5))
  next
    case (4 a)
    then show ?case
      using inv(4) [of a] by (auto simp: mine pos(5) split: if_splits)
  next
    case (5 a k i)
    then show ?case
      using at [of k i] inv(5) [of a k i] by (auto simp: mine split: if_splits)
  qed
qed

lemma process_unlock:
  assumes inv: "process_inv p" and call: "lock_callback r (lp_service p) = Inr s'" and unlock: "lr_action r = Unlock"
  shows "process_inv (p\<lparr>lp_service := s'\<rparr>)" (is "process_inv ?p'")
proof -
  let ?s = "lp_service p" and ?k = "lr_lock_key r"
  define old where "old k i = (if k = ?k then Suc i else i)" for k i
  note pos = unlock_positions [OF call unlock, folded old_def]
  note inv = process_invD [OF inv]
  have at: "own_at s' k i \<Longrightarrow> own_at ?s k (old k i) \<and> address_at s' k i = address_at ?s k (old k i)" for k i
    using pos(1,2) [of k i] by simp
  have o: "old k i = 0 \<longleftrightarrow> k \<noteq> ?k \<and> i = 0" "old k i = 1 \<and> k = ?k \<longleftrightarrow> k = ?k \<and> i = 0"
    "old k i = old k j \<longleftrightarrow> i = j" for k i j
    by (auto simp: old_def)
  have set: "ls_done s' (address_at s' k i) \<longleftrightarrow> ls_done ?s (address_at ?s k (old k i)) \<or> k = ?k \<and> i = 0"
    if "own_at s' k i" for k i
    using at [OF that] inv(1) [of k "old k i" ?k 0] inv(1) [of k "old k i" ?k 1] o [of k i] unfolding pos(3)
    by (metis One_nat_def)
  show ?thesis
  proof (rule process_invI, goal_cases)
    case (1 k i k' i')
    then show ?case
      using at [of k i] at [of k' i'] inv(1) [of k "old k i" k' "old k' i'"] by (auto simp: o)
  next
    case (2 k i)
    then show ?case
      using at [of k i] inv(2) [of k "old k i"] set [of k i] by (auto simp: old_def split: if_splits)
  next
    case (3 k)
    then show ?case
      using at [of k 0] inv(3) [of k] set [of k 0] by (auto simp: old_def split: if_splits)
  next
    case (4 a)
    then show ?case
      using inv(4) [of a] inv(5) [of a] by (auto simp: pos(3))
  next
    case (5 a k i)
    then show ?case
      using at [of k i] inv(5) [of a k "old k i"] by auto
  qed
qed

lemma lock_run_inv: "lock_run p \<Longrightarrow> process_inv p"
proof (induction rule: lock_run.induct)
  case (lock_start cid n)
  show ?case
    by (rule process_invI) (auto simp: process_init_def own_at_def lock_service_init_def)
next
  case (lock_issue p action key a response pad c s' c')
  from process_issue [OF lock_issue.IH lock_issue.hyps(2,3)] show ?case .
next
  case (lock_return p a r)
  from process_return [OF lock_return.IH lock_return.hyps(3)] show ?case .
next
  case (lock_deliver p r s')
  show ?case
  proof (cases "lr_action r")
    case Lock
    from process_lock [OF lock_deliver.IH _ lock_deliver.hyps(3) Lock] lock_deliver.hyps(2) show ?thesis by blast
  next
    case Unlock
    with process_unlock [OF lock_deliver.IH lock_deliver.hyps(3)] show ?thesis
      by (simp add: own_lock_def)
  qed
qed

subsection \<open>The flag of a release\<close>

text \<open>
  The callback sets the flags of requests to lock only: a flag at an address that no such request names is
  never written. The wait of a release therefore ends only where its flag happens to be at the address of the
  flag of the acquisition, which was destroyed when the acquisition returned.
\<close>

lemma notify_other: "a \<noteq> lr_done r \<Longrightarrow> ls_done (notify r s) a = ls_done s a"
  by simp

lemma ball_update: "\<forall>q \<in> set xs. P q \<Longrightarrow> P v \<Longrightarrow> \<forall>q \<in> set (xs[k := v]). P q"
  using set_update_subset_insert [of xs k v] by blast

lemma callback_other_flag:
  assumes "lock_callback r s = Inr s'" and "\<forall>q \<in> set (ls_queue s). \<forall>x \<in> set q. lr_done x \<noteq> a"
    and "lr_action r = Lock \<longrightarrow> lr_done r \<noteq> a"
  shows "ls_done s' a = ls_done s a \<and> (\<forall>q \<in> set (ls_queue s'). \<forall>x \<in> set q. lr_done x \<noteq> a)"
proof -
  let ?k = "lr_lock_key r"
  have k: "?k < length (ls_queue s)"
    using lock_callback_Inr [OF assms(1)] by simp
  then have q: "\<forall>x \<in> set (ls_queue s ! ?k). lr_done x \<noteq> a"
    using assms(2) nth_mem by blast
  have "ls_done s' a = ls_done s a"
    using assms(1,3) q by (auto simp: lock_callback_def Let_def split: if_splits lock_action.splits list.splits)
  moreover have "\<exists>q'. ls_queue s' = (ls_queue s)[?k := q'] \<and> (\<forall>x \<in> set q'. lr_done x \<noteq> a)"
  proof (cases "lr_action r")
    case Lock
    with lock_callback_Inr [OF assms(1)] assms(3) q show ?thesis
      by (intro exI [of _ "ls_queue s ! ?k @ [r]"]) auto
  next
    case Unlock
    with lock_callback_Inr [OF assms(1)] q show ?thesis
      by auto
  qed
  then obtain q' where "ls_queue s' = (ls_queue s)[?k := q']" "\<forall>x \<in> set q'. lr_done x \<noteq> a" by blast
  ultimately show ?thesis
    using ball_update [OF assms(2), of q' ?k] by simp
qed

lemma replay_other_flag:
  assumes "lock_replay rs s = Inr s'" and "\<forall>q \<in> set (ls_queue s). \<forall>x \<in> set q. lr_done x \<noteq> a"
    and "\<forall>r \<in> set rs. lr_action r = Lock \<longrightarrow> lr_done r \<noteq> a"
  shows "ls_done s' a = ls_done s a"
  using assms
proof (induction rs arbitrary: s)
  case (Cons r rs)
  then obtain s1 where s1: "lock_callback r s = Inr s1" "lock_replay rs s1 = Inr s'"
    by (auto simp: rbind_eq_Inr)
  with callback_other_flag [OF s1(1) Cons.prems(2)] Cons.prems(3) Cons.IH [OF s1(2)] show ?case
    by simp
qed simp

subsection \<open>Properties\<close>

text \<open>
  C25. The lock of a key is fair: after any prefix of the log, the queue of the key is the sequence of the requests
  to lock it, in log order, without as many of the first ones as there were requests to unlock it.
\<close>

theorem lock_queue_fair:
  assumes "lock_replay rs (lock_service_init cid n) = Inr s" and "key < n"
  shows "num_unlocks key rs \<le> length (lock_requests key rs) \<and>
    ls_queue s ! key = drop (num_unlocks key rs) (lock_requests key rs)"
  using lock_replay_queues [OF assms(1)] assms(2) by blast

definition example_lock :: "lock_action \<Rightarrow> u64 \<Rightarrow> lock_request" where
  "example_lock a c = \<lparr>lr_action = a, lr_client = c, lr_lock_key = 0, lr_done = 100 + c\<rparr>"

lemmas example_lock_simps = lock_callback_def notify_def lock_service_init_def example_lock_def Let_def

theorem lock_queue_fair_witness:
  "\<exists>s. lock_replay [example_lock Lock 1, example_lock Lock 2, example_lock Unlock 1] (lock_service_init 2 1) = Inr s \<and>
     ls_queue s ! 0 = [example_lock Lock 2]"
proof -
  obtain s where s: "lock_replay [example_lock Lock 1, example_lock Lock 2, example_lock Unlock 1] (lock_service_init 2 1) = Inr s"
    by (simp add: example_lock_simps)
  from lock_queue_fair [OF s, of 0] s show ?thesis
    by (simp add: num_unlocks_def lock_requests_def example_lock_def)
qed

text \<open>
  C11. A thread that waits to acquire a lock is released exactly when its request has been delivered and is at the head of
  the queue of the key, and then its client holds the lock. This is for every process whose threads acquire and release
  locks in any order while the log brings its own requests to lock, once each, and any requests of others. The address of a flag
  must not be that of another call under way, and the address of the acquisition of a lock that is held is used again for
  the release of this lock only, as the worker does, whose flags are all at the same place of its stack.
\<close>

theorem acquired_means_held:
  assumes "lock_run p" and "lp_calls p a = Some r" and "lr_action r = Lock"
  shows "(a \<in> lp_sent p \<longrightarrow> \<not> request_done a (lp_service p)) \<and>
    (\<forall>key i. own_at (lp_service p) key i \<and> address_at (lp_service p) key i = a \<longrightarrow>
       (request_done a (lp_service p) \<longleftrightarrow> i = 0) \<and>
       (request_done a (lp_service p) \<longrightarrow> holder key (lp_service p) = Some (ls_cid (lp_service p))))"
proof -
  note inv = process_invD [OF lock_run_inv [OF assms(1)]]
  have l: "locking p a"
    using assms(2,3) by (simp add: locking_def)
  have "(request_done a (lp_service p) \<longleftrightarrow> i = 0) \<and>
       (request_done a (lp_service p) \<longrightarrow> holder key (lp_service p) = Some (ls_cid (lp_service p)))"
    if "own_at (lp_service p) key i" "address_at (lp_service p) key i = a" for key i
    using that inv(2,3) [of key] l head_holds unfolding request_done_def by (cases i) auto
  with inv(4) [of a] show ?thesis
    by (auto simp: request_done_def)
qed

text \<open>A client to insert with, and the start of a call with it.\<close>

definition example_lock_client :: client where
  "example_lock_client = client_init 0 0 0 False \<lparr>pid_target = 0, pid_proportional = 0, pid_integral = 0, pid_detivative = 0\<rparr>"

lemma example_issue:
  assumes "lock_run p" and "ls_cid (lp_service p) = c" and "address_free p action 0 (100 + c)"
  shows "\<exists>p'. lock_run p' \<and> ls_queue (lp_service p') = ls_queue (lp_service p) \<and> ls_cid (lp_service p') = c \<and>
    lp_calls p' = (lp_calls p)(100 + c \<mapsto> example_lock action c) \<and> (action = Lock \<longrightarrow> 100 + c \<in> lp_sent p')"
proof -
  have "\<exists>s' c'. lock_request_start (ls_cid (lp_service p)) 0 action (100 + c) 50 [0, 0, 0, 0] (lp_service p, example_lock_client) = Inr (s', c')
      \<and> ls_queue s' = ls_queue (lp_service p) \<and> ls_cid s' = c"
    using assms(2)
    by (simp add: lock_request_start_def client_insert_def example_lock_client_def client_init_def length_request_bytes MAX_PAYLOAD_value)
  then obtain s' c' where s': "lock_request_start (ls_cid (lp_service p)) 0 action (100 + c) 50 [0, 0, 0, 0] (lp_service p, example_lock_client) = Inr (s', c')"
    "ls_queue s' = ls_queue (lp_service p)" "ls_cid s' = c" by blast
  from lock_issue [OF assms(1,3) s'(1)] s'(2,3) assms(2) show ?thesis
    by (fastforce simp: example_lock_def)
qed

lemma example_acquire:
  assumes "lock_run p" and "ls_cid (lp_service p) = 2" and "ls_queue (lp_service p) = [[]]" and "lp_calls p 102 = None"
  shows "\<exists>p'. lock_run p' \<and> ls_cid (lp_service p') = 2 \<and> ls_queue (lp_service p') = [[example_lock Lock 2]] \<and>
    lp_calls p' 102 = Some (example_lock Lock 2)"
proof -
  have "address_free p Lock 0 (100 + 2)"
    using assms by (auto simp: address_free_def own_at_def)
  from example_issue [OF assms(1,2) this] assms(3) obtain p1 where p1: "lock_run p1" "ls_queue (lp_service p1) = [[]]" "ls_cid (lp_service p1) = 2"
    "lp_calls p1 102 = Some (example_lock Lock 2)" "102 \<in> lp_sent p1" by auto
  obtain s' where s': "lock_callback (example_lock Lock 2) (lp_service p1) = Inr s'" "ls_queue s' = [[example_lock Lock 2]]" "ls_cid s' = 2"
    using p1 by (simp add: example_lock_simps)
  have "own_lock p1 (example_lock Lock 2) \<Longrightarrow>
      lr_done (example_lock Lock 2) \<in> lp_sent p1 \<and> lp_calls p1 (lr_done (example_lock Lock 2)) = Some (example_lock Lock 2)"
    using p1 by (simp add: example_lock_def)
  from lock_deliver [OF p1(1) this s'(1)] s'(2,3) p1(4) show ?thesis
    by fastforce
qed

lemma example_returns:
  assumes "lock_run p" and "ls_cid (lp_service p) = 2" and "ls_queue (lp_service p) = [[example_lock Lock 2]]"
    and "lp_calls p 102 = Some (example_lock Lock 2)" and "request_done 102 (lp_service p)"
  shows "\<exists>p'. lock_run p' \<and> ls_cid (lp_service p') = 2 \<and> ls_queue (lp_service p') = [[]] \<and> lp_calls p' 102 = None"
proof -
  define p1 where "p1 = p\<lparr>lp_calls := (lp_calls p)(102 := None)\<rparr>"
  have p1: "lock_run p1" "ls_cid (lp_service p1) = 2" "address_free p1 Unlock 0 (100 + 2)"
    using lock_return [OF assms(1,4,5)] assms(2,3)
    by (auto simp: p1_def address_free_def own_at_def less_Suc_eq)
  from example_issue [OF p1] assms(3) obtain p2 where p2: "lock_run p2" "ls_queue (lp_service p2) = [[example_lock Lock 2]]"
    "ls_cid (lp_service p2) = 2" "lp_calls p2 102 = Some (example_lock Unlock 2)" by (auto simp: p1_def)
  obtain s' where s': "lock_callback (example_lock Unlock 2) (lp_service p2) = Inr s'" "ls_queue s' = [[]]" "ls_cid s' = 2" "request_done 102 s'"
    using p2 by (simp add: example_lock_simps request_done_def)
  have "\<not> own_lock p2 (example_lock Unlock 2)"
    by (simp add: own_lock_def example_lock_def)
  with lock_deliver [OF p2(1) _ s'(1)] have p3: "lock_run (p2\<lparr>lp_service := s'\<rparr>)"
    by simp
  from lock_return [OF p3, of 102 "example_lock Unlock 2"] p2(4) s' show ?thesis
    by fastforce
qed

text \<open>A process whose worker acquires, releases and acquires again, its flags all at the same address.\<close>

theorem acquired_means_held_witness:
  "\<exists>p q. lock_run p \<and> request_done 102 (lp_service p) \<and> lock_run q \<and> ls_queue (lp_service q) = [[]] \<and>
     (\<exists>r. lock_run r \<and> lp_calls r 102 = Some (example_lock Lock 2) \<and> request_done 102 (lp_service r) \<and> holder 0 (lp_service r) = Some 2)"
proof -
  have held: "request_done 102 (lp_service p) \<and> holder 0 (lp_service p) = Some 2"
    if "lock_run p" "ls_cid (lp_service p) = 2" "ls_queue (lp_service p) = [[example_lock Lock 2]]"
      "lp_calls p 102 = Some (example_lock Lock 2)" for p
  proof -
    have "own_at (lp_service p) 0 0" "address_at (lp_service p) 0 0 = 102" "lr_action (example_lock Lock 2) = Lock"
      using that by (simp_all add: own_at_def address_at_def example_lock_def)
    with acquired_means_held [OF that(1,4)] that(2) show ?thesis by simp
  qed
  have "ls_cid (lp_service (process_init 2 1)) = 2" "ls_queue (lp_service (process_init 2 1)) = [[]]" "lp_calls (process_init 2 1) 102 = None"
    by (simp_all add: process_init_def lock_service_init_def)
  from example_acquire [OF lock_start this] obtain p where p: "lock_run p" "ls_cid (lp_service p) = 2"
    "ls_queue (lp_service p) = [[example_lock Lock 2]]" "lp_calls p 102 = Some (example_lock Lock 2)" by blast
  from example_returns [OF p] held [OF p] obtain q where q: "lock_run q" "ls_cid (lp_service q) = 2"
    "ls_queue (lp_service q) = [[]]" "lp_calls q 102 = None" by blast
  from example_acquire [OF q] obtain r where r: "lock_run r" "ls_cid (lp_service r) = 2"
    "ls_queue (lp_service r) = [[example_lock Lock 2]]" "lp_calls r 102 = Some (example_lock Lock 2)" by blast
  from held [OF p] held [OF r] p(1) q(1,3) r(1,4) show ?thesis by blast
qed

text \<open>
  C26. Mutual exclusion: the client that holds a lock keeps it, whatever the log brings, until the log has a request
  of this client to unlock the key; a request of another client to unlock it fails an assertion instead.
\<close>

theorem holder_keeps_lock:
  assumes "lock_replay rs s = Inr s'" and "holder key s = Some c" and "key < length (ls_queue s)"
    and "\<forall>r \<in> set rs. \<not> (lr_action r = Unlock \<and> lr_lock_key r = key \<and> lr_client r = c)"
  shows "holder key s' = Some c"
  by (rule holder_until_unlock [OF assms])

theorem holder_keeps_lock_witness:
  "\<exists>s s'. lock_callback (example_lock Lock 1) (lock_service_init 2 1) = Inr s \<and>
     lock_replay [example_lock Lock 2] s = Inr s' \<and> holder 0 s' = Some 1"
proof -
  obtain s where s: "lock_callback (example_lock Lock 1) (lock_service_init 2 1) = Inr s"
    by (simp add: example_lock_simps)
  then have "holder 0 s = Some 1" "length (ls_queue s) = 1"
    by (auto simp: holder_def example_lock_simps)
  moreover obtain s' where "lock_replay [example_lock Lock 2] s = Inr s'"
    using s by (auto simp: example_lock_simps)
  ultimately show ?thesis
    using holder_keeps_lock [of "[example_lock Lock 2]" s s' 0 1] s by (auto simp: example_lock_def)
qed

text \<open>
  All processes that replay the same log, whichever their own clients are, agree on every queue, and they fail
  together on a bad request.
\<close>

theorem lock_processes_agree:
  "lock_view (lock_replay rs (lock_service_init cid n)) = lock_view (lock_replay rs (lock_service_init cid' n))"
  by (rule lock_replay_view) (simp add: lock_service_init_def)

end
