(* ===== verification/Benchmark.thy ===== *)
theory Benchmark
  imports Client Zip_Bytes
begin

text \<open>
  The programs that drive the system, \<open>src/client/main.cpp\<close> and \<open>src/subscriber/main.cpp\<close>: the loop that keeps a
  burst of requests in flight, and the statistics of the delivered entries.

  The library passes buffers by reference: a request lies in its buffer until the client's thread sends it. The
  models of client and lock service hand over the payload itself, so it matters that a program does not write into
  the buffer of a request that is still under way.

  Whether a histogram records a value is an argument, \<open>recorded\<close>: the library rejects values beyond its range.
\<close>

subsection \<open>The client program\<close>

text \<open>
  The variables of \<open>run_test\<close>: request \<open>i\<close> of the burst has its response at address \<open>i\<close>; \<open>bn_memory\<close> holds the
  payloads of the buffers.
\<close>

record bench =
  bn_client :: client
  bn_iterator :: wraparound_iterator
  bn_memory :: "nat \<Rightarrow> byte list"
  bn_begin :: "nat \<Rightarrow> time_point"
  bn_total :: u64
  bn_latencies :: "u64 list"

definition bench_init :: "(nat \<Rightarrow> byte list) \<Rightarrow> client \<Rightarrow> bench" where
  "bench_init memory c =
     \<lparr>bn_client = c, bn_iterator = wraparound_init (MAX_OUTSTANDING_REQUESTS + 1), bn_memory = memory,
      bn_begin = (\<lambda>_. 0), bn_total = 0, bn_latencies = []\<rparr>"

definition sizeof_time_point :: nat where "sizeof_time_point = 8"

definition stamp :: "nat \<Rightarrow> time_point \<Rightarrow> byte list \<Rightarrow> byte list" where
  "stamp len now bytes =
     (if len \<ge> sizeof_time_point
      then le_bytes sizeof_time_point (nat (now mod 2 ^ 64)) @ drop sizeof_time_point bytes else bytes)"

text \<open>\<open>generate_and_send\<close>; the buffer it takes is part of the result.\<close>

definition generate_and_send :: "nat \<Rightarrow> nat \<Rightarrow> time_point \<Rightarrow> bench \<Rightarrow> (nat \<times> bench) res" where
  "generate_and_send len i now b =
     (let (buffer, it) = get_and_increment (bn_iterator b); bytes = stamp len now (bn_memory b buffer)
      in rbind (client_insert (take len bytes) i (bn_client b)) (\<lambda>c.
           Inr (buffer, b\<lparr>bn_client := c, bn_iterator := it, bn_memory := (bn_memory b)(buffer := bytes),
                          bn_begin := (bn_begin b)(i := now)\<rparr>)))"

fun first_burst :: "nat \<Rightarrow> nat \<Rightarrow> time_point list \<Rightarrow> bench \<Rightarrow> (nat list \<times> bench) res" where
  "first_burst len i [] b = Inr ([], b)"
| "first_burst len i (now # nows) b =
     rbind (generate_and_send len i now b) (\<lambda>(x, b').
     rbind (first_burst len (Suc i) nows b') (\<lambda>(xs, b''). Inr (x # xs, b'')))"

text \<open>The clock is read once for every request of the first burst.\<close>

definition run_test_start :: "nat \<Rightarrow> nat \<Rightarrow> time_point list \<Rightarrow> bench \<Rightarrow> (nat list \<times> bench) res" where
  "run_test_start burst sz nows b =
     (if \<not> (burst > 0 \<and> burst \<le> MAX_OUTSTANDING_REQUESTS) then Inl (Assert_failed ''invalid value of burst'')
      else first_burst (min sz MAX_PAYLOAD) 0 (take burst nows) b)"

datatype test_end = Running | Finished | Crashed

definition run_test_step ::
  "nat \<Rightarrow> nat \<Rightarrow> time_point \<Rightarrow> time_point \<Rightarrow> bool \<Rightarrow> bench \<Rightarrow> (test_end \<times> nat list \<times> bench) res" where
  "run_test_step burst sz finish now force_stop b =
     (if now > finish then Inr (Finished, [], b)
      else if force_stop then Inr (Crashed, [], b)
      else
        (let i = bn_total b mod burst
         in if cl_responses (bn_client b) i \<noteq> UINT64_MAX
            then rbind (generate_and_send (min sz MAX_PAYLOAD) i now b) (\<lambda>(x, b').
                   Inr (Running, [x], b'\<lparr>bn_latencies := bn_latencies b @ [time_in_us (now - bn_begin b i)],
                                         bn_total := u64_add (bn_total b) 1\<rparr>))
            else Inr (Running, [], b)))"

text \<open>The throughput that is printed at the end, in requests per second.\<close>

definition client_throughput :: "int \<Rightarrow> bench \<Rightarrow> u64 res" where
  "client_throughput duration b =
     (if time_in_us duration = 0 then Inl Div_by_zero
      else Inr (u64_mul (bn_total b) 1000000 div time_in_us duration))"

subsection \<open>The subscriber program\<close>

text \<open>The statistics of one application thread; \<open>ts_recorded\<close> is the count of the histogram.\<close>

record thread_stats =
  ts_start :: time_point
  ts_end :: time_point
  ts_num_entries :: u64
  ts_recorded :: u64

definition stats_init :: thread_stats where
  "stats_init = \<lparr>ts_start = 0, ts_end = 0, ts_num_entries = 0, ts_recorded = 0\<rparr>"

definition signed64 :: "nat \<Rightarrow> int" where
  "signed64 n = s64 (int n)"

definition subscriber_callback :: "(u64 \<Rightarrow> bool) \<Rightarrow> time_point \<Rightarrow> log_entry_msg \<Rightarrow> thread_stats \<Rightarrow> thread_stats" where
  "subscriber_callback recorded now e t =
     (let latency = time_in_us (now - signed64 (field (le_data e) 0 8));
          t1 = (if length (le_data e) \<ge> sizeof_time_point \<and> recorded latency
                then t\<lparr>ts_recorded := u64_add (ts_recorded t) 1\<rparr> else t);
          t2 = (if ts_num_entries t1 = 0 then t1\<lparr>ts_start := now\<rparr> else t1)
      in t2\<lparr>ts_num_entries := u64_add (ts_num_entries t1) 1, ts_end := now\<rparr>)"

text \<open>The sum over the threads after \<open>stop\<close>.\<close>

fun subscriber_throughput :: "thread_stats list \<Rightarrow> u64 \<Rightarrow> u64 res" where
  "subscriber_throughput [] throughput = Inr throughput"
| "subscriber_throughput (t # ts) throughput =
     (if ts_num_entries t > 1
      then (if ts_recorded t \<noteq> ts_num_entries t then Inl (Assert_failed ''missed some histogram entries'')
            else if time_in_us (ts_end t - ts_start t) = 0 then Inl Div_by_zero
            else subscriber_throughput ts
                   (u64_add throughput (u64_mul (ts_num_entries t) 1000000 div time_in_us (ts_end t - ts_start t))))
      else subscriber_throughput ts throughput)"

text \<open>
  While the subscriber runs, the main thread looks at the statistics periodically: for each thread the number of entries and the time of the last
  one that it saw the time before.
\<close>

fun periodic_throughput :: "(thread_stats \<times> u64 \<times> time_point) list \<Rightarrow> u64 \<Rightarrow> u64 res" where
  "periodic_throughput [] throughput = Inr throughput"
| "periodic_throughput ((t, old_entries, old_end) # ts) throughput =
     (if old_entries \<noteq> 0 \<and> ts_end t \<noteq> old_end
      then (if time_in_us (ts_end t - old_end) = 0 then Inl Div_by_zero
            else periodic_throughput ts (u64_add throughput
                   (u64_mul (u64_sub (ts_num_entries t) old_entries) 1000000 div time_in_us (ts_end t - old_end))))
      else periodic_throughput ts throughput)"

definition periodic_look :: "thread_stats list \<Rightarrow> (u64 \<times> time_point) list \<Rightarrow> (u64 \<times> time_point) list res" where
  "periodic_look ts olds =
     rbind (periodic_throughput (zip ts olds) 0) (\<lambda>_. Inr (map (\<lambda>t. (ts_num_entries t, ts_end t)) ts))"

subsection \<open>Requests under way\<close>

text \<open>
  The requests of a client that wait to be sent and those that wait for their acknowledgements, by the addresses of their responses. An
  address is that of one such request at most, and holds no response yet.
\<close>

definition under_way :: "client \<Rightarrow> nat list" where
  "under_way c = map snd (queue_pending (cl_requests c)) @ List.map_filter out_response (cl_outstanding c)"

definition tracked :: "client \<Rightarrow> bool" where
  "tracked c \<longleftrightarrow> queue_inv (cl_requests c) \<and> distinct (under_way c) \<and> (\<forall>a \<in> set (under_way c). cl_responses c a = UINT64_MAX)"

definition advances :: "client \<Rightarrow> client \<Rightarrow> bool" where
  "advances c c' \<longleftrightarrow> tracked c' \<and> set (queue_pending (cl_requests c')) \<subseteq> set (queue_pending (cl_requests c)) \<and>
     set (under_way c') \<subseteq> set (under_way c)"

lemma map_filter_simps [simp]:
  "List.map_filter f [] = []" "List.map_filter f (x # xs) = (case f x of None \<Rightarrow> [] | Some y \<Rightarrow> [y]) @ List.map_filter f xs"
  "List.map_filter f (xs @ ys) = List.map_filter f xs @ List.map_filter f ys"
  by (simp_all add: List.map_filter_def split: option.split)

lemma advances_refl: "tracked c \<Longrightarrow> advances c c"
  by (simp add: advances_def)

lemma advances_trans: "advances a b \<Longrightarrow> advances b c \<Longrightarrow> advances a c"
  by (auto simp: advances_def)

lemma advances_frame:
  "tracked c \<Longrightarrow> cl_requests c' = cl_requests c \<Longrightarrow> cl_outstanding c' = cl_outstanding c \<Longrightarrow> cl_responses c' = cl_responses c \<Longrightarrow>
     advances c c'"
  by (simp add: advances_def tracked_def under_way_def)

lemma stop_advances: "tracked c \<Longrightarrow> advances c (fst (client_stop stop c))"
  by (rule advances_frame) (simp_all add: client_stop_def)

lemma switch_advances: "tracked c \<Longrightarrow> advances c (fst (client_switch_epoch rnd now c))"
  by (rule advances_frame) (auto simp: client_switch_epoch_def estimate_rate_def Let_def split: list.splits)

text \<open>A send takes the first request from the queue, or sends an empty one.\<close>

lemma send_advances:
  assumes "tracked c"
  shows "advances c (fst (client_send now c))"
proof (cases "send_allowed now c")
  case False
  with assms show ?thesis
    by (simp add: client_send_def advances_refl)
next
  case True
  have q: "queue_inv (cl_requests c)"
    using assms by (simp add: tracked_def)
  obtain r q' where d: "dequeue (cl_requests c) = (r, q')" by fastforce
  have q': "queue_inv q'"
    using sq.inv_get [OF q] d by simp
  show ?thesis
  proof (cases "queue_pending (cl_requests c)")
    case Nil
    then have "r = None" "queue_pending q' = []"
      using sq.get_empty [OF q] d by auto
    with True d q' assms Nil show ?thesis
      by (auto simp: client_send_def Let_def advances_def tracked_def under_way_def)
  next
    case (Cons x xs)
    then have "r = Some x" "queue_pending q' = xs"
      using sq.get_cons [OF q] d by auto
    with True d q' assms Cons show ?thesis
      by (cases x) (auto simp: client_send_def Let_def advances_def tracked_def under_way_def)
  qed
qed

lemma find_outstanding_split:
  "find_outstanding gsn xs = Some (ys, x, zs) \<Longrightarrow> xs = ys @ x # zs"
  by (induction xs arbitrary: ys) (auto split: if_splits)

lemma ack_advances:
  assumes "tracked c"
  shows "advances c (on_insert_ack gsn c)"
proof (cases "cl_latest_gsn c \<noteq> UINT64_MAX \<and> gsn \<le> cl_latest_gsn c")
  case True
  with assms show ?thesis
    by (simp add: on_insert_ack_def advances_refl)
next
  case False
  show ?thesis
  proof (cases "find_outstanding gsn (cl_outstanding c)")
    case None
    with False assms show ?thesis
      by (simp add: on_insert_ack_def advances_refl)
  next
    case (Some r)
    obtain ys x zs where r: "r = (ys, x, zs)" by (cases r)
    with Some have "cl_outstanding c = ys @ x # zs"
      using find_outstanding_split by blast
    with False assms Some r show ?thesis
      by (cases "out_response x") (auto simp: on_insert_ack_def Let_def advances_def tracked_def under_way_def)
  qed
qed

lemma storage_info_requests:
  "client_on_storage_info xs c = Inr c' \<Longrightarrow>
     cl_requests c' = cl_requests c \<and> cl_outstanding c' = cl_outstanding c \<and> cl_responses c' = cl_responses c"
proof (induction xs arbitrary: c)
  case (Cons x xs)
  then obtain c1 where c1: "client_add_server x c = Inr c1" "client_on_storage_info xs c1 = Inr c'"
    by (auto simp: rbind_eq_Inr)
  have "cl_requests c1 = cl_requests c \<and> cl_outstanding c1 = cl_outstanding c \<and> cl_responses c1 = cl_responses c"
    using c1(1) by (auto simp: client_add_server_def Let_def split: option.splits prod.splits message.splits if_splits)
  with Cons.IH c1(2) show ?case by simp
qed simp

lemma handler_requests:
  assumes run: "run_handler (loop_handlers connections) m len c = Inr (c', out)"
  shows "(\<exists>g. c' = on_insert_ack g c) \<or>
    cl_requests c' = cl_requests c \<and> cl_outstanding c' = cl_outstanding c \<and> cl_responses c' = cl_responses c"
  using run_handler_cases [OF run]
proof (elim disjE conjE exE)
  fix f assume "map_of (loop_handlers connections) (msg_type m) = Some f" and f: "f m c = Inr (c', out)"
  from map_of_SomeD [OF this(1)] have "f \<in> snd ` set (loop_handlers connections)"
    by force
  then consider
      "f = (\<lambda>m c. Inr (on_insert_ack (ack_gsn m) c, []))" | "f = (\<lambda>m c. Inr (on_new_epoch (ne_begin m) (ne_num_slots m) c, []))"
    | "f = (\<lambda>m c. Inr (client_on_storage_finished (sf_shard_id m) (sf_replica_id m) c))"
    | "f = (\<lambda>m c. Inr (c\<lparr>cl_end := True\<rparr>, []))"
    | "f = (\<lambda>m c. rbind (client_on_storage_info connections c) (\<lambda>c'. Inr (c', [])))" | "f = (\<lambda>m c. Inr (c, []))"
    unfolding loop_handlers_def by (simp only: list.set image_insert image_empty snd_conv) blast
  then show ?thesis
  proof cases
    case 1
    with f show ?thesis by auto
  next
    case 3
    with f show ?thesis
      by (auto simp: client_on_storage_finished_def Let_def split: if_splits)
  next
    case 5
    with f show ?thesis
      by (auto simp: rbind_eq_Inr dest: storage_info_requests)
  qed (use f in \<open>auto simp: on_new_epoch_def Let_def\<close>)
qed simp

lemma handler_advances:
  assumes "run_handler (loop_handlers connections) m len c = Inr (c', out)" and "tracked c"
  shows "advances c c'"
  using handler_requests [OF assms(1)]
proof (elim disjE exE conjE)
  fix g assume "c' = on_insert_ack g c"
  with ack_advances [OF assms(2)] show ?thesis by simp
qed (rule advances_frame [OF assms(2)])

lemma recv_packets_advances: "recv_packets ps c = Inr (c', out) \<Longrightarrow> tracked c \<Longrightarrow> advances c c'"
proof (induction ps arbitrary: c out)
  case (Cons p ps)
  obtain m len connections where p: "p = ((m, len), connections)" by (metis surj_pair)
  with Cons.prems(1) obtain c1 out1 out2 where one: "run_handler (loop_handlers connections) m len c = Inr (c1, out1)"
    and rest: "recv_packets ps c1 = Inr (c', out2)"
    by (auto simp: rbind_eq_Inr)
  note one = handler_advances [OF one Cons.prems(2)]
  then have "tracked c1"
    by (simp add: advances_def)
  from advances_trans [OF one Cons.IH [OF rest this]] show ?case .
qed (simp add: advances_refl)

lemma iteration_advances:
  assumes "client_iteration rnd stop now packets c = Inr (c', out)" and "tracked c"
  shows "advances c c'"
proof -
  define c1 where "c1 = fst (client_stop stop c)"
  define c2 where "c2 = fst (client_switch_epoch rnd now c1)"
  define c3 where "c3 = fst (client_send now c2)"
  have a1: "advances c c1"
    unfolding c1_def by (rule stop_advances [OF assms(2)])
  then have a2: "advances c1 c2"
    unfolding c2_def by (intro switch_advances) (simp add: advances_def)
  then have a3: "advances c2 c3"
    unfolding c3_def by (intro send_advances) (simp add: advances_def)
  moreover obtain out4 where "recv_packets packets c3 = Inr (c', out4)"
    using assms(1) by (auto simp: client_iteration_def c1_def c2_def c3_def rbind_eq_Inr split: prod.splits)
  ultimately have "advances c3 c'"
    using recv_packets_advances by (auto simp: advances_def)
  with a1 a2 a3 show ?thesis
    by (blast intro: advances_trans)
qed

subsection \<open>Executions of the client program\<close>

text \<open>
  The program with a client that has no request under way: the first burst, one request after the other, the steps of the loop behind
  it, and iterations of the client's thread between any two of them. The second component is the list of the buffers that were
  written, one per request.
\<close>

definition idle :: "client \<Rightarrow> bool" where
  "idle c \<longleftrightarrow> queue_inv (cl_requests c) \<and> under_way c = []"

inductive bench_run :: "nat \<Rightarrow> nat \<Rightarrow> bench \<Rightarrow> nat list \<Rightarrow> bool" for burst sz where
  bench_start: "0 < burst \<Longrightarrow> burst \<le> MAX_OUTSTANDING_REQUESTS \<Longrightarrow> idle c \<Longrightarrow> bench_run burst sz (bench_init memory c) []"
| bench_first: "bench_run burst sz b sent \<Longrightarrow> length sent < burst \<Longrightarrow>
    generate_and_send (min sz MAX_PAYLOAD) (length sent) now b = Inr (x, b') \<Longrightarrow> bench_run burst sz b' (sent @ [x])"
| bench_client: "bench_run burst sz b sent \<Longrightarrow> client_iteration rnd stop now packets (bn_client b) = Inr (c, out) \<Longrightarrow>
    bench_run burst sz (b\<lparr>bn_client := c\<rparr>) sent"
| bench_step: "bench_run burst sz b sent \<Longrightarrow> burst \<le> length sent \<Longrightarrow>
    run_test_step burst sz finish now force_stop b = Inr (r, xs, b') \<Longrightarrow> bn_total b + 1 < 2 ^ 64 \<Longrightarrow>
    bench_run burst sz b' (sent @ xs)"

text \<open>The burst without iterations of the client's thread in between is \<open>run_test_start\<close>.\<close>

lemma first_burst_run:
  assumes "bench_run burst sz b sent" and "first_burst (min sz MAX_PAYLOAD) (length sent) nows b = Inr (xs, b')"
    and "length sent + length nows \<le> burst"
  shows "bench_run burst sz b' (sent @ xs)"
  using assms
proof (induction nows arbitrary: b sent xs)
  case (Cons now nows)
  then obtain x b1 ys where one: "generate_and_send (min sz MAX_PAYLOAD) (length sent) now b = Inr (x, b1)"
    and rest: "first_burst (min sz MAX_PAYLOAD) (length (sent @ [x])) nows b1 = Inr (ys, b')" and xs: "xs = x # ys"
    by (auto simp: rbind_eq_Inr)
  have "bench_run burst sz b1 (sent @ [x])"
    using bench_first [OF Cons.prems(1) _ one] Cons.prems(3) by simp
  from Cons.IH [OF this rest] Cons.prems(3) show ?case
    by (simp add: xs)
qed simp

lemma run_test_start_run:
  assumes "run_test_start burst sz nows (bench_init memory c) = Inr (sent, b)" and "idle c"
  shows "bench_run burst sz b sent"
proof -
  have burst: "0 < burst" "burst \<le> MAX_OUTSTANDING_REQUESTS"
    and run: "first_burst (min sz MAX_PAYLOAD) 0 (take burst nows) (bench_init memory c) = Inr (sent, b)"
    using assms(1) by (auto simp: run_test_start_def split: if_splits)
  from first_burst_run [OF bench_start [OF burst assms(2)], where nows = "take burst nows" and xs = sent and b' = b] run show ?thesis
    by simp
qed

text \<open>
  The \<open>k\<close>-th request is in buffer \<open>k\<close> modulo the number of buffers. The requests under way belong to the last \<open>burst\<close> ones, and the payload of one that
  waits to be sent is still what its buffer holds.
\<close>

definition in_flight :: "nat \<Rightarrow> bench \<Rightarrow> nat list \<Rightarrow> nat \<Rightarrow> nat \<Rightarrow> bool" where
  "in_flight burst b sent a k \<longleftrightarrow> bn_total b \<le> k \<and> k < length sent \<and> k mod burst = a"

lemma in_flight_client: "in_flight burst (b\<lparr>bn_client := c\<rparr>) = in_flight burst b"
  by (simp add: in_flight_def fun_eq_iff)

definition bench_inv :: "nat \<Rightarrow> nat \<Rightarrow> bench \<Rightarrow> nat list \<Rightarrow> bool" where
  "bench_inv burst sz b sent \<longleftrightarrow> 0 < burst \<and> burst \<le> MAX_OUTSTANDING_REQUESTS \<and>
     sent = map (\<lambda>k. k mod (MAX_OUTSTANDING_REQUESTS + 1)) [0..<length sent] \<and> bn_total b = length sent - burst \<and>
     wi_size (bn_iterator b) = MAX_OUTSTANDING_REQUESTS + 1 \<and> wi_index (bn_iterator b) \<le> MAX_OUTSTANDING_REQUESTS + 1 \<and>
     wi_index (bn_iterator b) mod (MAX_OUTSTANDING_REQUESTS + 1) = length sent mod (MAX_OUTSTANDING_REQUESTS + 1) \<and>
     tracked (bn_client b) \<and> (\<forall>a \<in> set (under_way (bn_client b)). \<exists>k. in_flight burst b sent a k) \<and>
     (\<forall>(data, a) \<in> set (queue_pending (cl_requests (bn_client b))).
        \<exists>k. in_flight burst b sent a k \<and> data = take (min sz MAX_PAYLOAD) (bn_memory b (sent ! k)))"

lemma next_buffer:
  assumes "wi_size w = n" and "wi_index w \<le> n" and "wi_index w mod n = k mod n" and "0 < n"
  shows "\<exists>w'. get_and_increment w = (k mod n, w') \<and> wi_size w' = n \<and> wi_index w' \<le> n \<and> wi_index w' mod n = Suc k mod n"
proof -
  have i: "(if wi_index w = wi_size w then 0 else wi_index w) = k mod n"
    using assms by (auto simp: le_less)
  moreover have "Suc (k mod n) \<le> n" "Suc (k mod n) mod n = Suc k mod n"
    using assms(4) by (simp_all add: Suc_leI mod_Suc_eq)
  ultimately show ?thesis
    using assms(1) by (simp add: get_and_increment_def Let_def)
qed

text \<open>What one request does: the next buffer is written, and the client gets its payload.\<close>

lemma generate_and_send_Inr:
  assumes inv: "bench_inv burst sz b sent" and run: "generate_and_send len i now b = Inr (x, b')"
  obtains bytes where "x = length sent mod (MAX_OUTSTANDING_REQUESTS + 1)" "bn_memory b' = (bn_memory b)(x := bytes)" "bn_total b' = bn_total b"
    "client_insert (take len bytes) i (bn_client b) = Inr (bn_client b')"
    "wi_size (bn_iterator b') = MAX_OUTSTANDING_REQUESTS + 1" "wi_index (bn_iterator b') \<le> MAX_OUTSTANDING_REQUESTS + 1"
    "wi_index (bn_iterator b') mod (MAX_OUTSTANDING_REQUESTS + 1) = Suc (length sent) mod (MAX_OUTSTANDING_REQUESTS + 1)"
proof -
  obtain w where "get_and_increment (bn_iterator b) = (length sent mod (MAX_OUTSTANDING_REQUESTS + 1), w)"
    "wi_size w = MAX_OUTSTANDING_REQUESTS + 1" "wi_index w \<le> MAX_OUTSTANDING_REQUESTS + 1"
    "wi_index w mod (MAX_OUTSTANDING_REQUESTS + 1) = Suc (length sent) mod (MAX_OUTSTANDING_REQUESTS + 1)"
    using next_buffer [of "bn_iterator b" "MAX_OUTSTANDING_REQUESTS + 1" "length sent"] inv by (auto simp: bench_inv_def)
  with run that [of "stamp len now (bn_memory b x)"] show thesis
    by (auto simp: generate_and_send_def Let_def rbind_eq_Inr)
qed

lemma insert_tracked:
  assumes "client_insert data i c = Inr c'" and "tracked c" and "i \<notin> set (under_way c)"
  shows "tracked c' \<and> queue_pending (cl_requests c') = queue_pending (cl_requests c) @ [(data, i)] \<and>
    set (under_way c') = insert i (set (under_way c))"
proof -
  have q: "queue_inv (cl_requests c)"
    using assms(2) by (simp add: tracked_def)
  have c': "c' = c\<lparr>cl_responses := (cl_responses c)(i := UINT64_MAX), cl_requests := enqueue (data, i) (cl_requests c)\<rparr>"
    using assms(1) by (auto simp: client_insert_def split: if_splits)
  show ?thesis
    using assms(2,3) sq.inv_put [OF q] sq.pending_put [OF q] by (auto simp: c' tracked_def under_way_def)
qed

lemma different_buffers:
  fixes j k n :: nat
  assumes "j < k" and "k - j < n"
  shows "j mod n \<noteq> k mod n"
  using add_mod_inj [of j "k - j" n 0] assms by auto

lemma bench_send:
  assumes inv: "bench_inv burst sz b sent" and run: "generate_and_send (min sz MAX_PAYLOAD) i now b = Inr (x, b1)"
    and i: "i = length sent mod burst" and free: "i \<notin> set (under_way (bn_client b))"
    and b': "bn_client b' = bn_client b1" "bn_memory b' = bn_memory b1" "bn_iterator b' = bn_iterator b1"
      "bn_total b' = Suc (length sent) - burst"
  shows "bench_inv burst sz b' (sent @ [x])"
proof -
  let ?N = "MAX_OUTSTANDING_REQUESTS + 1" and ?len = "min sz MAX_PAYLOAD"
  obtain bytes where x: "x = length sent mod ?N" "bn_memory b1 = (bn_memory b)(x := bytes)"
    and ins: "client_insert (take ?len bytes) i (bn_client b) = Inr (bn_client b1)"
    and it: "wi_size (bn_iterator b1) = ?N" "wi_index (bn_iterator b1) \<le> ?N" "wi_index (bn_iterator b1) mod ?N = Suc (length sent) mod ?N"
    using generate_and_send_Inr [OF inv run] by metis
  have burst: "0 < burst" "burst \<le> MAX_OUTSTANDING_REQUESTS" and total: "bn_total b = length sent - burst"
    and sent: "sent = map (\<lambda>k. k mod ?N) [0..<length sent]" and tr: "tracked (bn_client b)"
    using inv by (simp_all only: bench_inv_def)
  note c = insert_tracked [OF ins tr free]
  have sent_at: "sent ! k = k mod ?N" if "k < length sent" for k
    using that arg_cong [OF sent, of "\<lambda>xs. xs ! k"] by simp
  have old: "in_flight burst b' (sent @ [x]) a k \<and> (sent @ [x]) ! k = sent ! k \<and> sent ! k \<noteq> x"
    if "in_flight burst b sent a k" "a \<noteq> i" for a k
  proof -
    have k: "length sent - burst \<le> k" "k < length sent" "k mod burst = a"
      using that(1) by (simp_all add: in_flight_def total)
    have "k \<noteq> length sent - burst" if "burst \<le> length sent"
      using k(3) \<open>a \<noteq> i\<close> i le_mod_geq [OF that] by auto
    with k have "Suc (length sent) - burst \<le> k" by linarith
    moreover have "sent ! k \<noteq> x"
      using different_buffers [of k "length sent" ?N] k burst by (simp add: x(1) sent_at)
    ultimately show ?thesis
      using k by (simp add: in_flight_def b' nth_append)
  qed
  have new: "in_flight burst b' (sent @ [x]) i (length sent)"
    using burst by (simp add: in_flight_def b' i)
  show ?thesis
    unfolding bench_inv_def
  proof (intro conjI ballI)
    show "0 < burst" "burst \<le> MAX_OUTSTANDING_REQUESTS" "bn_total b' = length (sent @ [x]) - burst" "wi_size (bn_iterator b') = ?N"
      "wi_index (bn_iterator b') \<le> ?N" "wi_index (bn_iterator b') mod ?N = length (sent @ [x]) mod ?N" "tracked (bn_client b')"
      using burst it c by (simp_all add: b')
    show "sent @ [x] = map (\<lambda>k. k mod ?N) [0..<length (sent @ [x])]"
      using sent x(1) by simp
    show "\<exists>k. in_flight burst b' (sent @ [x]) a k" if "a \<in> set (under_way (bn_client b'))" for a
    proof (cases "a = i")
      case False
      with that c have "a \<in> set (under_way (bn_client b))"
        by (simp add: b')
      then obtain k where "in_flight burst b sent a k"
        using inv unfolding bench_inv_def by blast
      from old [OF this False] show ?thesis by blast
    qed (use new in blast)
    fix d assume d: "d \<in> set (queue_pending (cl_requests (bn_client b')))"
    obtain data a where da: "d = (data, a)" by (cases d)
    have "\<exists>k. in_flight burst b' (sent @ [x]) a k \<and> data = take ?len (bn_memory b' ((sent @ [x]) ! k))"
    proof (cases "d \<in> set (queue_pending (cl_requests (bn_client b)))")
      case True
      then have "a \<noteq> i"
        using free by (force simp: da under_way_def)
      moreover obtain k where "in_flight burst b sent a k" "data = take ?len (bn_memory b (sent ! k))"
        using inv True by (auto simp: bench_inv_def da)
      ultimately show ?thesis
        using old [of a k] by (auto simp: b' x(2))
    next
      case False
      with d c have "data = take ?len bytes" "a = i"
        by (simp_all add: b' da)
      with new show ?thesis
        by (auto simp: b' x(2))
    qed
    then show "case d of (data, a) \<Rightarrow> \<exists>k. in_flight burst b' (sent @ [x]) a k \<and> data = take ?len (bn_memory b' ((sent @ [x]) ! k))"
      by (simp add: da)
  qed
qed

lemma bench_run_inv: "bench_run burst sz b sent \<Longrightarrow> bench_inv burst sz b sent"
proof (induction rule: bench_run.induct)
  case (bench_start c memory)
  then have "queue_pending (cl_requests c) = []" "under_way c = []" "queue_inv (cl_requests c)"
    by (auto simp: idle_def under_way_def)
  with bench_start show ?case
    by (simp add: bench_inv_def bench_init_def wraparound_init_def tracked_def)
next
  case (bench_first b sent now x b')
  have "length sent \<notin> set (under_way (bn_client b))"
    using bench_first.IH bench_first.hyps(2) by (auto simp: bench_inv_def in_flight_def)
  moreover have "bn_total b' = Suc (length sent) - burst"
    using generate_and_send_Inr [OF bench_first.IH bench_first.hyps(3)] bench_first.IH bench_first.hyps(2)
    by (auto simp: bench_inv_def)
  ultimately show ?case
    using bench_send [OF bench_first.IH bench_first.hyps(3), of b'] bench_first.hyps(2) by simp
next
  case (bench_client b sent rnd stop now packets c out)
  then have "advances (bn_client b) c"
    by (intro iteration_advances [OF bench_client.hyps(2)]) (simp add: bench_inv_def)
  with bench_client.IH show ?case
    by (simp add: bench_inv_def advances_def in_flight_client) blast
next
  case (bench_step b sent finish now force_stop r xs b')
  have total: "bn_total b = length sent - burst" and "0 < burst"
    using bench_step.IH by (simp_all add: bench_inv_def)
  show ?case
  proof (cases "now > finish \<or> force_stop \<or> cl_responses (bn_client b) (bn_total b mod burst) = UINT64_MAX")
    case True
    with bench_step show ?thesis
      by (auto simp: run_test_step_def Let_def split: if_splits)
  next
    case False
    with bench_step.hyps(3) obtain x b1 where one: "generate_and_send (min sz MAX_PAYLOAD) (bn_total b mod burst) now b = Inr (x, b1)"
      and res: "xs = [x]" "b' = b1\<lparr>bn_latencies := bn_latencies b @ [time_in_us (now - bn_begin b (bn_total b mod burst))],
          bn_total := u64_add (bn_total b) 1\<rparr>"
      by (auto simp: run_test_step_def Let_def rbind_eq_Inr)
    have "bn_total b mod burst \<notin> set (under_way (bn_client b))"
      using bench_step.IH False by (auto simp: bench_inv_def tracked_def)
    moreover have "bn_total b mod burst = length sent mod burst"
      using le_mod_geq [OF bench_step.hyps(2)] by (simp add: total)
    moreover have "bn_total b' = Suc (length sent) - burst"
      using bench_step.hyps(2,4) by (simp add: res(2) total u64_add_small Suc_diff_le)
    ultimately show ?thesis
      using bench_send [OF bench_step.IH one, of b'] by (simp add: res)
  qed
qed

subsection \<open>The statistics of a subscriber\<close>

fun run_callbacks :: "(u64 \<Rightarrow> bool) \<Rightarrow> (time_point \<times> log_entry_msg) list \<Rightarrow> thread_stats \<Rightarrow> thread_stats" where
  "run_callbacks recorded [] t = t"
| "run_callbacks recorded ((now, e) # es) t = run_callbacks recorded es (subscriber_callback recorded now e t)"

lemma callbacks_count:
  assumes "ts_recorded t \<le> ts_num_entries t" and "ts_num_entries t + length es < 2 ^ 64"
  shows "ts_num_entries (run_callbacks recorded es t) = ts_num_entries t + length es \<and>
    ts_recorded (run_callbacks recorded es t) \<le> ts_recorded t + length (filter (\<lambda>(_, e). length (le_data e) \<ge> sizeof_time_point) es)"
  using assms
proof (induction es arbitrary: t)
  case (Cons x es)
  obtain now e where x: "x = (now, e)" by (cases x)
  let ?t = "subscriber_callback recorded now e t"
  have n: "ts_num_entries ?t = Suc (ts_num_entries t)"
    and r: "ts_recorded ?t \<le> ts_recorded t + (if length (le_data e) \<ge> sizeof_time_point then 1 else 0)"
    using Cons.prems by (simp_all add: subscriber_callback_def Let_def u64_add_small)
  have "ts_recorded ?t \<le> ts_num_entries ?t"
    using n r Cons.prems(1) by (auto split: if_splits)
  with Cons.IH [of ?t] n r Cons.prems(2) show ?case
    by (auto simp: x split: if_splits)
qed simp

text \<open>
  A subscriber that was delivered an entry too short for a time stamp ends in an assertion when it prints its
  statistics, unless it was the only entry of its thread.
\<close>

lemma short_entries_end_subscriber:
  assumes "1 < length es" and "length es < 2 ^ 64" and "(now, e) \<in> set es" and "length (le_data e) < sizeof_time_point"
  shows "subscriber_throughput (run_callbacks recorded es stats_init # ts) n = Inl (Assert_failed ''missed some histogram entries'')"
proof -
  have "length (filter (\<lambda>(_, e). length (le_data e) \<ge> sizeof_time_point) es) < length es"
    using assms(3,4) by (intro length_filter_less [of "(now, e)"]) simp_all
  with callbacks_count [of stats_init es recorded] assms(1,2) show ?thesis
    by (simp add: stats_init_def)
qed

text \<open>
  The look at the statistics divides by zero exactly when the entries that a thread got since the last look came within a microsecond of
  the ones before.
\<close>

lemma periodic_throughput_ok:
  "(\<exists>x. periodic_throughput ts n = Inr x) \<longleftrightarrow>
     (\<forall>(t, old_entries, old_end) \<in> set ts. old_entries = 0 \<or> ts_end t = old_end \<or> time_in_us (ts_end t - old_end) \<noteq> 0)"
  by (induction ts n rule: periodic_throughput.induct) auto

lemma periodic_look_ok:
  "(\<exists>olds'. periodic_look ts olds = Inr olds') \<longleftrightarrow>
     (\<forall>(t, old_entries, old_end) \<in> set (zip ts olds). old_entries = 0 \<or> ts_end t = old_end \<or> time_in_us (ts_end t - old_end) \<noteq> 0)"
  unfolding periodic_throughput_ok [of _ 0, symmetric] by (simp add: periodic_look_def rbind_eq_Inr)

subsection \<open>Properties\<close>

text \<open>
  C34. The client program never writes into the buffer of a request that is still under way. Of the requests that wait to be sent or for
  their acknowledgements, each has a response of its own, which is not set, and is one of the last \<open>burst\<close> requests; these
  lie in different buffers, the next request goes into none of them, and what waits to be sent is still in its buffer. This holds
  after any number of steps of the program, during the first burst and behind it, and of iterations of the client's thread in between, with
  a client that had no request before.
\<close>

theorem in_flight_buffers_distinct:
  assumes "bench_run burst sz b sent"
  shows "distinct (under_way (bn_client b)) \<and>
    (\<forall>a \<in> set (under_way (bn_client b)). cl_responses (bn_client b) a = UINT64_MAX \<and> (\<exists>k. in_flight burst b sent a k)) \<and>
    (\<forall>(data, a) \<in> set (queue_pending (cl_requests (bn_client b))).
       \<exists>k. in_flight burst b sent a k \<and> data = take (min sz MAX_PAYLOAD) (bn_memory b (sent ! k))) \<and>
    length sent \<le> burst + bn_total b \<and> distinct (drop (bn_total b) sent) \<and>
    (\<forall>len i now x b'. generate_and_send len i now b = Inr (x, b') \<longrightarrow>
       x \<le> MAX_OUTSTANDING_REQUESTS \<and> x \<notin> set (drop (bn_total b) sent))"
proof -
  let ?N = "MAX_OUTSTANDING_REQUESTS + 1"
  have inv: "bench_inv burst sz b sent"
    by (rule bench_run_inv [OF assms])
  then have burst: "burst < ?N" "bn_total b = length sent - burst" and sent: "sent = map (\<lambda>k. k mod ?N) [0..<length sent]"
    by (simp_all only: bench_inv_def) simp
  have flight: "drop (bn_total b) sent = map (\<lambda>k. k mod ?N) [bn_total b..<length sent]"
    by (subst sent) (simp add: drop_map)
  have "inj_on (\<lambda>k. k mod ?N) {bn_total b..<length sent}"
    using different_buffers [of _ _ ?N] burst by (intro linorder_inj_onI') (auto simp: less_diff_conv2)
  then have "distinct (drop (bn_total b) sent)"
    by (simp add: flight distinct_map)
  moreover have "x \<le> MAX_OUTSTANDING_REQUESTS \<and> x \<notin> set (drop (bn_total b) sent)" if "generate_and_send len i now b = Inr (x, b')" for len i now x b'
  proof -
    have x: "x = length sent mod ?N"
      using generate_and_send_Inr [OF inv that] by metis
    have "length sent mod ?N \<noteq> j mod ?N" if "j \<in> {bn_total b..<length sent}" for j
    proof -
      have "j < length sent" "length sent - j < ?N"
        using that burst by auto
      from different_buffers [OF this] show ?thesis by simp
    qed
    then have "x \<notin> set (drop (bn_total b) sent)"
      unfolding flight x set_map set_upt image_iff by blast
    moreover have "x < ?N"
      by (simp add: x)
    ultimately show ?thesis by simp
  qed
  moreover have "length sent \<le> burst + bn_total b"
    using burst by simp
  ultimately show ?thesis
    using inv by (simp add: bench_inv_def tracked_def)
qed

theorem in_flight_buffers_distinct_witness:
  "\<exists>b. bench_run 2 8 b [0, 1] \<and> under_way (bn_client b) = [0, 1] \<and> distinct (under_way (bn_client b)) \<and> distinct (drop (bn_total b) [0 :: nat, 1])"
proof -
  define c :: client where "c = client_init 0 0 0 False \<lparr>pid_target = 0, pid_proportional = 0, pid_integral = 0, pid_detivative = 0\<rparr>"
  have idle: "idle c"
    by (simp add: idle_def under_way_def c_def client_init_def queue_inv_def queue_init_def queue_pending_def)
  have "\<exists>b. run_test_start 2 8 [0, 0] (bench_init (\<lambda>_. []) c) = Inr ([0, 1], b) \<and> under_way (bn_client b) = [0, 1]"
    by (simp add: run_test_start_def bench_init_def generate_and_send_def wraparound_init_def get_and_increment_def c_def client_init_def
        queue_init_def enqueue_def queue_pending_def under_way_def
        client_insert_def stamp_def sizeof_time_point_def MAX_PAYLOAD_value MAX_OUTSTANDING_REQUESTS_def RECEIVE_BUFFER_SIZE_def SEND_BUFFER_SIZE_def Let_def)
  then obtain b where b: "run_test_start 2 8 [0, 0] (bench_init (\<lambda>_. []) c) = Inr ([0, 1], b)" "under_way (bn_client b) = [0, 1]" by blast
  have run: "bench_run 2 8 b [0, 1]"
    by (rule run_test_start_run [OF b(1) idle])
  from in_flight_buffers_distinct [OF run] b(2) run show ?thesis by blast
qed

end
