(* ===== verification/Lock_Program.thy ===== *)
theory Lock_Program
  imports Lock_Service Benchmark
begin

text \<open>
  The program of the lock service, \<open>src/lock_service/main.cpp\<close>: a worker that acquires and releases a lock and
  measures how long this takes, and the report at the end. The macro that would select the histogram library is defined nowhere:
  the latencies are collected in vectors.
\<close>

subsection \<open>The worker\<close>

text \<open>The latencies of acquires and of releases, a pair for every client.\<close>

type_synonym latencies = "(u64 list \<times> u64 list) list"

definition latencies_init :: "nat \<Rightarrow> latencies" where
  "latencies_init num_clients = replicate num_clients ([], [])"

text \<open>The identity of the client is passed as an \<open>int\<close>, from which number and key of the requests are computed.\<close>

definition int32 :: "nat \<Rightarrow> int" where
  "int32 n = (int n + 2 ^ 31) mod 2 ^ 32 - 2 ^ 31"

definition worker_id :: "u64 \<Rightarrow> u64" where
  "worker_id cid = nat (int32 cid mod 2 ^ 64)"

definition worker_key :: "u64 \<Rightarrow> u64 \<Rightarrow> u64 res" where
  "worker_key cid num_keys = (if num_keys = 0 then Inl Div_by_zero else Inr (worker_id cid mod num_keys))"

text \<open>
  \<open>request\<close> with its loop: while it waits, the subscriber's threads deliver entries of the log and the thread of the client
  has its turns. The result is \<open>None\<close> as long as the flag is not set.
\<close>

record request_world =
  rw_done :: nat
  rw_response :: nat
  rw_pad :: "byte list"
  rw_delivered :: "lock_request list"
  rw_turns :: "client \<Rightarrow> client"

definition await_request ::
  "u64 \<Rightarrow> u64 \<Rightarrow> lock_action \<Rightarrow> request_world \<Rightarrow> lock_service \<times> client \<Rightarrow> (lock_service \<times> client) option res" where
  "await_request cid key action w s =
     rbind (lock_request_start cid key action (rw_done w) (rw_response w) (rw_pad w) s) (\<lambda>(ls, c).
     rbind (lock_replay (rw_delivered w) ls) (\<lambda>ls'.
       Inr (if request_done (rw_done w) ls' then Some (ls', rw_turns w c) else None)))"

definition acquire_lock where "acquire_lock cid key = await_request cid key Lock"
definition release_lock where "release_lock cid key = await_request cid key Unlock"

text \<open>
  One round, with the times before the acquire, between the two requests and after the release; the flag says whether the worker goes on.
\<close>

record round_world =
  rd_stop :: bool
  rd_acquire :: request_world
  rd_release :: request_world
  rd_clock :: "time_point \<times> time_point \<times> time_point"

definition record_round :: "time_point \<times> time_point \<times> time_point \<Rightarrow> latencies \<Rightarrow> latencies res" where
  "record_round clock lats =
     (let (t1, t2, t3) = clock
      in case lats of
           [] \<Rightarrow> Inl Out_of_bounds
         | (acquires, releases) # rest \<Rightarrow>
             Inr ((acquires @ [time_in_us (t2 - t1)], releases @ [time_in_us (t3 - t2)]) # rest))"

definition worker_over :: "time_point \<Rightarrow> u64 \<Rightarrow> time_point \<times> time_point \<times> time_point \<Rightarrow> bool" where
  "worker_over start seconds clock \<longleftrightarrow> (let (t1, t2, t3) = clock in time_in_us (t3 - start) > u64_mul seconds 1000000)"

type_synonym worker_state = "(lock_service \<times> client) \<times> latencies"

text \<open>The loop, \<open>None\<close> as long as it runs.\<close>

fun worker ::
  "u64 \<Rightarrow> u64 \<Rightarrow> time_point \<Rightarrow> u64 \<Rightarrow> round_world list \<Rightarrow> worker_state \<Rightarrow> worker_state option res" where
  "worker cid num_keys start seconds [] s = Inr None"
| "worker cid num_keys start seconds (w # ws) (s, lats) =
     (if rd_stop w then Inr (Some (s, lats))
      else rbind (worker_key cid num_keys) (\<lambda>key.
           rbind (acquire_lock (worker_id cid) key (rd_acquire w) s) (\<lambda>a. case a of None \<Rightarrow> Inr None | Some s1 \<Rightarrow>
           rbind (release_lock (worker_id cid) key (rd_release w) s1) (\<lambda>r. case r of None \<Rightarrow> Inr None | Some s2 \<Rightarrow>
           rbind (record_round (rd_clock w) lats) (\<lambda>lats'.
             if worker_over start seconds (rd_clock w) then Inr (Some (s2, lats'))
             else worker cid num_keys start seconds ws (s2, lats'))))))"

subsection \<open>The report\<close>

definition merge_latencies :: "latencies \<Rightarrow> u64 list \<times> u64 list" where
  "merge_latencies lats = (concat (map fst lats), concat (map snd lats))"

text \<open>
  The product of a double and a length, rounded by \<open>rnd\<close> and converted to an \<open>int\<close>; the vectors are taken to have fewer
  than \<open>2 ^ 31\<close> elements, so that the conversion is defined.
\<close>

definition percentile :: "(rat \<Rightarrow> rat) \<Rightarrow> rat \<Rightarrow> u64 list \<Rightarrow> u64 res" where
  "percentile rnd q xs =
     (let i = nat \<lfloor>rnd (rnd q * of_nat (length xs))\<rfloor> in if i < length xs then Inr (xs ! i) else Inl Out_of_bounds)"

definition report :: "(rat \<Rightarrow> rat) \<Rightarrow> u64 list \<Rightarrow> (u64 \<times> u64 \<times> u64) res" where
  "report rnd lats =
     (let xs = sort lats
      in rbind (percentile rnd (1 / 2) xs) (\<lambda>lat_50. rbind (percentile rnd (99 / 100) xs) (\<lambda>lat_99.
         rbind (percentile rnd (999 / 1000) xs) (\<lambda>lat_999. Inr (lat_50, lat_99, lat_999)))))"

definition final_report :: "(rat \<Rightarrow> rat) \<Rightarrow> latencies \<Rightarrow> ((u64 \<times> u64 \<times> u64) \<times> (u64 \<times> u64 \<times> u64)) res" where
  "final_report rnd lats =
     (let (acquires, releases) = merge_latencies lats
      in rbind (report rnd acquires) (\<lambda>a. rbind (report rnd releases) (\<lambda>r. Inr (a, r))))"

subsection \<open>What the report shows\<close>

text \<open>The machine rounds monotonically and with a small relative error.\<close>

definition rounds_closely :: "(rat \<Rightarrow> rat) \<Rightarrow> bool" where
  "rounds_closely rnd \<longleftrightarrow> mono rnd \<and> (\<forall>x \<ge> 0. 0 \<le> rnd x \<and> rnd x \<le> x * (1 + 1 / 2 ^ 52))"

lemma percentile_index:
  assumes rnd: "rounds_closely rnd" and q: "0 \<le> q" "q \<le> 999 / 1000" and n: "0 < n"
  shows "nat \<lfloor>rnd (rnd q * of_nat n)\<rfloor> < n"
proof -
  have r: "0 \<le> rnd q" "rnd q \<le> q * (1 + 1 / 2 ^ 52)"
    using rnd q(1) by (simp_all add: rounds_closely_def)
  have "rnd (rnd q * of_nat n) \<le> rnd q * of_nat n * (1 + 1 / 2 ^ 52)"
    using rnd r(1) by (simp add: rounds_closely_def)
  also have "\<dots> \<le> (q * (1 + 1 / 2 ^ 52)) * of_nat n * (1 + 1 / 2 ^ 52)"
    using r(2) by (intro mult_right_mono) simp_all
  also have "\<dots> \<le> (999 / 1000 * (1 + 1 / 2 ^ 52)) * of_nat n * (1 + 1 / 2 ^ 52)"
    using q(2) by (intro mult_right_mono) simp_all
  also have "\<dots> < of_nat n"
    using n by (simp add: field_simps)
  finally have "\<lfloor>rnd (rnd q * of_nat n)\<rfloor> < int n"
    by (simp add: floor_less_iff)
  then show ?thesis
    using n by (simp add: nat_less_iff)
qed

lemma percentile_mono:
  assumes "rounds_closely rnd" and "p \<le> q" and "percentile rnd p (sort xs) = Inr a" and "percentile rnd q (sort xs) = Inr b"
  shows "a \<le> b"
proof -
  let ?i = "\<lambda>q. nat \<lfloor>rnd (rnd q * of_nat (length xs))\<rfloor>"
  have m: "mono rnd"
    using assms(1) by (simp add: rounds_closely_def)
  then have "rnd (rnd p * of_nat (length xs)) \<le> rnd (rnd q * of_nat (length xs))"
    using assms(2) by (intro monoD [OF m] mult_right_mono) (simp_all add: monoD)
  then have "?i p \<le> ?i q"
    by (intro nat_mono floor_mono)
  with assms(3,4) show ?thesis
    by (auto simp: percentile_def Let_def sorted_nth_mono split: if_splits)
qed

lemma report_ok:
  assumes "rounds_closely rnd" and "xs \<noteq> []"
  obtains a b c where "report rnd xs = Inr (a, b, c)" "{a, b, c} \<subseteq> set xs" "a \<le> b" "b \<le> c"
proof -
  have "\<exists>x \<in> set xs. percentile rnd q (sort xs) = Inr x" if "0 \<le> q" "q \<le> 999 / 1000" for q
  proof -
    have i: "nat \<lfloor>rnd (rnd q * of_nat (length xs))\<rfloor> < length (sort xs)"
      using percentile_index [OF assms(1) that, of "length xs"] assms(2) by simp
    from nth_mem [OF this] i show ?thesis
      by (auto simp: percentile_def)
  qed
  from this [of "1 / 2"] this [of "99 / 100"] this [of "999 / 1000"]
  obtain a b c where abc: "a \<in> set xs" "percentile rnd (1 / 2) (sort xs) = Inr a" "b \<in> set xs" "percentile rnd (99 / 100) (sort xs) = Inr b"
    "c \<in> set xs" "percentile rnd (999 / 1000) (sort xs) = Inr c" by auto
  moreover have "a \<le> b" "b \<le> c"
    using percentile_mono [OF assms(1) _ abc(2,4)] percentile_mono [OF assms(1) _ abc(4,6)] by simp_all
  ultimately show thesis
    using that [of a b c] by (simp add: report_def)
qed

text \<open>The latencies of the rounds a worker has completed.\<close>

lemma record_round_Inr:
  "record_round clock lats = Inr lats' \<Longrightarrow>
     lats \<noteq> [] \<and> tl lats' = tl lats \<and> lats' \<noteq> [] \<and> length (fst (hd lats')) = Suc (length (fst (hd lats))) \<and>
     length (snd (hd lats')) = Suc (length (snd (hd lats)))"
  by (cases clock; cases lats) (auto simp: record_round_def)

lemma worker_counts:
  assumes "worker cid num_keys start seconds ws (s, lats) = Inr (Some (s', lats'))" and "lats \<noteq> []"
  shows "\<exists>k. lats' \<noteq> [] \<and> tl lats' = tl lats \<and> length (fst (hd lats')) = length (fst (hd lats)) + k \<and>
    length (snd (hd lats')) = length (snd (hd lats)) + k \<and> (k = 0 \<longleftrightarrow> rd_stop (hd ws))"
  using assms
proof (induction ws arbitrary: s lats)
  case (Cons w ws)
  show ?case
  proof (cases "rd_stop w")
    case True
    with Cons.prems show ?thesis by simp
  next
    case False
    with Cons.prems(1) obtain lats2 where round: "record_round (rd_clock w) lats = Inr lats2" and
      rest: "lats2 = lats' \<or> (\<exists>s2. worker cid num_keys start seconds ws (s2, lats2) = Inr (Some (s', lats')))"
      by (auto simp: rbind_eq_Inr split: option.splits if_splits)
    note r = record_round_Inr [OF round]
    from rest show ?thesis
    proof (elim disjE exE)
      assume "lats2 = lats'"
      with r False show ?thesis
        by (intro exI [of _ 1]) simp
    next
      fix s2
      assume "worker cid num_keys start seconds ws (s2, lats2) = Inr (Some (s', lats'))"
      from Cons.IH [OF this] r obtain k where
        "lats' \<noteq> []" "tl lats' = tl lats2" "length (fst (hd lats')) = length (fst (hd lats2)) + k"
        "length (snd (hd lats')) = length (snd (hd lats2)) + k" by auto
      with r False show ?thesis
        by (intro exI [of _ "Suc k"]) simp
    qed
  qed
qed simp

lemma merge_latencies_single:
  assumes "lats \<noteq> []" and "\<forall>l \<in> set (tl lats). l = ([], [])"
  shows "merge_latencies lats = hd lats"
proof (cases lats)
  case (Cons l ls)
  with assms(2) have "set ls \<subseteq> {([], [])}" by auto
  then have "concat (map fst ls) = []" "concat (map snd ls) = []"
    by (auto simp: concat_eq_Nil_conv)
  with Cons show ?thesis by (simp only: merge_latencies_def list.map concat.simps append_Nil2 list.sel prod.collapse)
qed (use assms(1) in simp)

text \<open>
  The report after the work: it succeeds exactly if the worker has completed a round. If it was stopped before that, the report reads
  the first element of an empty vector.
\<close>

lemma final_report_iff:
  assumes rnd: "rounds_closely rnd" and n: "0 < num_clients"
    and run: "worker cid num_keys start seconds ws (s, latencies_init num_clients) = Inr (Some (s', lats))"
  shows "(\<exists>r. final_report rnd lats = Inr r) \<longleftrightarrow> \<not> rd_stop (hd ws)"
proof -
  have init: "latencies_init num_clients \<noteq> []" "hd (latencies_init num_clients) = ([], [])"
    "tl (latencies_init num_clients) = replicate (num_clients - 1) ([], [])"
    using n by (simp_all add: latencies_init_def)
  from worker_counts [OF run init(1)] obtain k where
    k: "lats \<noteq> []" "tl lats = replicate (num_clients - 1) ([], [])" "length (fst (hd lats)) = k" "length (snd (hd lats)) = k"
      "k = 0 \<longleftrightarrow> rd_stop (hd ws)"
    by (auto simp: init)
  have m: "merge_latencies lats = hd lats"
    using k(1,2) by (intro merge_latencies_single) auto
  obtain acquires releases where hd: "hd lats = (acquires, releases)"
    by (cases "hd lats")
  show ?thesis
  proof (cases "k = 0")
    case True
    with k(3,4) m hd have "final_report rnd lats = Inl Out_of_bounds"
      by (simp add: final_report_def report_def percentile_def)
    with True k(5) show ?thesis by auto
  next
    case False
    with k(3,4) hd have "acquires \<noteq> []" "releases \<noteq> []" by auto
    then obtain a r where "report rnd acquires = Inr a" "report rnd releases = Inr r"
      by (metis report_ok [OF rnd])
    with m hd have "final_report rnd lats = Inr (a, r)"
      by (simp add: final_report_def)
    with False k(5) show ?thesis by blast
  qed
qed

subsection \<open>A release returns through the flag of the acquire\<close>

text \<open>Delivering entries never resets a flag.\<close>

lemma callback_sets_only: "lock_callback r s = Inr s' \<Longrightarrow> ls_done s a \<Longrightarrow> ls_done s' a"
  by (auto simp: lock_callback_def Let_def split: if_splits lock_action.splits list.splits)

lemma replay_sets_only: "lock_replay rs s = Inr s' \<Longrightarrow> ls_done s a \<Longrightarrow> ls_done s' a"
  by (induction rs arbitrary: s) (auto simp: rbind_eq_Inr dest: callback_sets_only)

text \<open>The request at the head of a queue stays there until an unlock of the key, which sets the flag of that request.\<close>

lemma callback_head:
  assumes "lock_callback u s = Inr s'" and "ls_queue s ! key = r # rest" and "key < length (ls_queue s)" and "lr_client r = ls_cid s"
  shows "if lr_action u = Unlock \<and> lr_lock_key u = key then ls_done s' (lr_done r)
    else key < length (ls_queue s') \<and> ls_cid s' = ls_cid s \<and> (\<exists>rest'. ls_queue s' ! key = r # rest')"
  using assms
  by (auto simp: lock_callback_def Let_def nth_list_update split: if_splits lock_action.splits list.splits)

lemma replay_head_notified:
  assumes "lock_replay rs s = Inr s'" and "ls_queue s ! key = r # rest" and "key < length (ls_queue s)" and "lr_client r = ls_cid s"
    and "u \<in> set rs" and "lr_action u = Unlock" and "lr_lock_key u = key"
  shows "ls_done s' (lr_done r)"
  using assms
proof (induction rs arbitrary: s rest)
  case (Cons x rs)
  then obtain s1 where x: "lock_callback x s = Inr s1" and rs: "lock_replay rs s1 = Inr s'"
    by (auto simp: rbind_eq_Inr)
  note h = callback_head [OF x Cons.prems(2,3,4)]
  show ?case
  proof (cases "lr_action x = Unlock \<and> lr_lock_key x = key")
    case True
    with h replay_sets_only [OF rs] show ?thesis by simp
  next
    case False
    with h obtain rest' where "ls_queue s1 ! key = r # rest'" "key < length (ls_queue s1)" "lr_client r = ls_cid s1"
      using Cons.prems(4) by auto
    moreover have "u \<in> set rs"
      using False Cons.prems by auto
    ultimately show ?thesis
      using Cons.IH [OF rs] Cons.prems by blast
  qed
qed simp

lemma await_requestE:
  assumes "await_request cid key action w (ls, c) = Inr res"
  obtains ls1 ls2 c1 where "ls_queue ls1 = ls_queue ls" "ls_cid ls1 = ls_cid ls" "\<not> request_done (rw_done w) ls1"
    "lock_replay (rw_delivered w) ls1 = Inr ls2" "res = (if request_done (rw_done w) ls2 then Some (ls2, rw_turns w c1) else None)"
proof -
  from assms obtain ls1 ls2 c1 where
    start: "lock_request_start cid key action (rw_done w) (rw_response w) (rw_pad w) (ls, c) = Inr (ls1, c1)"
    and run: "lock_replay (rw_delivered w) ls1 = Inr ls2" "res = (if request_done (rw_done w) ls2 then Some (ls2, rw_turns w c1) else None)"
    by (auto simp: await_request_def rbind_eq_Inr)
  from start have "ls_queue ls1 = ls_queue ls" "ls_cid ls1 = ls_cid ls" "\<not> request_done (rw_done w) ls1"
    by (auto simp: lock_request_start_def request_done_def Let_def rbind_eq_Inr)
  from that [OF this run] show thesis .
qed

subsection \<open>Properties\<close>

text \<open>
  C38. A release waits for a flag that its own request never sets, but the lock request at the head of the queue. When the
  log has brought an unlock of the key, the release returns if its flag is at the address of that of the acquisition, which was destroyed
  when the acquisition returned; where no lock request names the address, it waits for ever, whatever the log brings.
\<close>

theorem release_needs_acquire_flag:
  assumes release: "release_lock cid key w (ls, c) = Inr res"
    and head: "key < length (ls_queue ls)" "ls_queue ls ! key = r # rest" "lr_client r = ls_cid ls"
    and unlock: "u \<in> set (rw_delivered w)" "lr_action u = Unlock" "lr_lock_key u = key"
  shows "(lr_done r = rw_done w \<longrightarrow> res \<noteq> None) \<and>
    ((\<forall>q \<in> set (ls_queue ls). \<forall>x \<in> set q. lr_done x \<noteq> rw_done w) \<and>
     (\<forall>x \<in> set (rw_delivered w). lr_action x = Lock \<longrightarrow> lr_done x \<noteq> rw_done w) \<longrightarrow> res = None)"
proof -
  from release obtain ls1 ls2 c1 where q: "ls_queue ls1 = ls_queue ls" "ls_cid ls1 = ls_cid ls"
    and new: "\<not> request_done (rw_done w) ls1" and replay: "lock_replay (rw_delivered w) ls1 = Inr ls2"
    and res: "res = (if request_done (rw_done w) ls2 then Some (ls2, rw_turns w c1) else None)"
    unfolding release_lock_def by (rule await_requestE)
  have "ls_done ls2 (lr_done r)"
    using replay_head_notified [OF replay _ _ _ unlock] head q by simp
  moreover have "ls_done ls2 (rw_done w) = ls_done ls1 (rw_done w)"
    if "\<forall>q \<in> set (ls_queue ls). \<forall>x \<in> set q. lr_done x \<noteq> rw_done w"
      "\<forall>x \<in> set (rw_delivered w). lr_action x = Lock \<longrightarrow> lr_done x \<noteq> rw_done w"
    using replay_other_flag [OF replay, of "rw_done w"] that q by simp
  ultimately show ?thesis
    using new res by (auto simp: request_done_def)
qed

definition example_release :: "nat \<Rightarrow> request_world" where
  "example_release a =
     \<lparr>rw_done = a, rw_response = 50, rw_pad = [0, 0, 0, 0], rw_delivered = [(example_lock Unlock 2)\<lparr>lr_done := a\<rparr>], rw_turns = id\<rparr>"

theorem release_needs_acquire_flag_witness:
  "\<exists>ls c. ls_queue ls = [[example_lock Lock 2]] \<and> (\<exists>s. release_lock 2 0 (example_release 102) (ls, c) = Inr (Some s)) \<and>
     release_lock 2 0 (example_release 7) (ls, c) = Inr None"
proof -
  define ls where "ls = (lock_service_init 2 1)\<lparr>ls_queue := [[example_lock Lock 2]]\<rparr>"
  define c :: client where "c = client_init 0 0 0 False \<lparr>pid_target = 0, pid_proportional = 0, pid_integral = 0, pid_detivative = 0\<rparr>"
  have ls: "0 < length (ls_queue ls)" "ls_queue ls ! 0 = [example_lock Lock 2]" "lr_client (example_lock Lock 2) = ls_cid ls"
    by (simp_all add: ls_def lock_service_init_def example_lock_def)
  have r: "\<exists>res. release_lock 2 0 (example_release a) (ls, c) = Inr res" for a
    by (simp add: release_lock_def await_request_def lock_request_start_def client_insert_def c_def client_init_def length_request_bytes example_release_def
        ls_def example_lock_simps MAX_PAYLOAD_value)
  obtain res1 res2 where res: "release_lock 2 0 (example_release 102) (ls, c) = Inr res1"
    "release_lock 2 0 (example_release 7) (ls, c) = Inr res2"
    using r by metis
  have u: "(example_lock Unlock 2)\<lparr>lr_done := a\<rparr> \<in> set (rw_delivered (example_release a))"
    "lr_action ((example_lock Unlock 2)\<lparr>lr_done := a\<rparr>) = Unlock" "lr_lock_key ((example_lock Unlock 2)\<lparr>lr_done := a\<rparr>) = 0" for a
    by (simp_all add: example_release_def example_lock_def)
  have "res1 \<noteq> None" "res2 = None"
    using release_needs_acquire_flag [OF res(1) ls u] release_needs_acquire_flag [OF res(2) ls u]
    by (simp_all add: example_release_def example_lock_def ls_def)
  with res show ?thesis
    by (intro exI [of _ ls] exI [of _ c]) (auto simp: ls_def)
qed

end
