(* ===== verification/Channels.thy ===== *)
theory Channels
  imports History Client_Facts Epoch
begin

text \<open>
  What the components send to each other, as far as the composition depends on it: the ordering service sends the
  same to all replicas of a shard, a client sends the same requests to all servers it is connected to and its
  farewell last, and a server says good-bye to a client only after the client's farewell.
\<close>

definition channel :: "dest \<Rightarrow> send list \<Rightarrow> message list" where
  "channel d out = map s_msg (filter (\<lambda>x. s_dest x = d) out)"

lemma channel_simps [simp]:
  "channel d [] = []" "channel d (xs @ ys) = channel d xs @ channel d ys"
  "channel d (x # xs) = (if s_dest x = d then s_msg x # channel d xs else channel d xs)"
  by (simp_all add: channel_def)

lemma channel_map_other: "(\<And>x. x \<in> set xs \<Longrightarrow> s_dest (f x) \<noteq> d) \<Longrightarrow> channel d (map f xs) = []"
  by (simp add: channel_def filter_empty_conv)

lemma in_channel: "m \<in> set (channel d out) \<longleftrightarrow> (\<exists>x \<in> set out. s_dest x = d \<and> s_msg x = m)"
  by (auto simp: channel_def)

subsection \<open>The ordering service\<close>

lemma channel_broadcast:
  "distinct rids \<Longrightarrow> channel (To_storage sid rid) (map (\<lambda>r. Send (To_storage sh r) m q sync) rids) =
     (if sh = sid \<and> rid \<in> set rids then [m] else [])"
  by (induction rids) auto

text \<open>What one event sends: the same to all replicas, to clients no good-bye of a server.\<close>

definition even_out :: "order_state \<Rightarrow> send list \<Rightarrow> bool" where
  "even_out s out \<longleftrightarrow>
     (\<forall>sid < NUM_SHARDS. \<forall>r \<in> set (os_queues s ! sid). \<forall>r' \<in> set (os_queues s ! sid).
        channel (To_storage sid r) out = channel (To_storage sid r') out) \<and>
     (\<forall>cid sid rid. Storage_finished sid rid \<notin> set (channel (To_client cid) out))"

lemma even_out_append: "even_out s xs \<Longrightarrow> even_out s ys \<Longrightarrow> even_out s (xs @ ys)"
  unfolding even_out_def by (metis Un_iff channel_simps(2) set_append)

lemma even_out_Nil [simp]: "even_out s []"
  by (simp add: even_out_def)

lemma even_out_concat: "(\<And>x. x \<in> set xs \<Longrightarrow> even_out s (f x)) \<Longrightarrow> even_out s (concat (map f xs))"
  by (induction xs) (auto intro: even_out_append)

lemma even_out_other:
  "(\<And>x. x \<in> set out \<Longrightarrow> (\<forall>sid rid. s_dest x \<noteq> To_storage sid rid \<and> s_msg x \<noteq> Storage_finished sid rid)) \<Longrightarrow> even_out s out"
  by (auto simp: even_out_def channel_def filter_empty_conv) (metis filter_False)

lemma even_out_replicas:
  assumes "shards_ok s"
  shows "even_out s (to_replicas s sh m sync)"
proof -
  have "distinct (os_queues s ! sid)" if "sid < NUM_SHARDS" for sid
    using assms that by (simp add: shards_ok_def)
  then have "channel (To_storage sid r) (to_replicas s sh m sync) = (if sh = sid then [m] else [])"
    if "sid < NUM_SHARDS" "r \<in> set (os_queues s ! sid)" for sid r
    using that channel_broadcast [of "os_queues s ! sid" sid r sid m 0 sync]
    by (cases "sh = sid") (auto simp: to_replicas_def intro: channel_map_other)
  then show ?thesis
    by (auto simp: even_out_def) (auto simp: to_replicas_def channel_def)
qed

lemma even_out_cong: "os_queues s' = os_queues s \<Longrightarrow> even_out s' out \<longleftrightarrow> even_out s out"
  by (simp add: even_out_def)

text \<open>A service that suspects no client and hears of no failure.\<close>

definition calm :: "order_state \<Rightarrow> bool" where
  "calm s \<longleftrightarrow> (\<forall>cid c. map_of (os_clients s) cid = Some c \<longrightarrow> \<not> oc_failed c)"

fun calm_event :: "order_event \<Rightarrow> bool" where
  "calm_event (Peer_failed _ _) \<longleftrightarrow> False"
| "calm_event (Received m _) \<longleftrightarrow> msg_type m \<noteq> ORDER_CLIENT_FREEZE"
| "calm_event _ \<longleftrightarrow> True"

text \<open>What such a service tells the servers: slots, and the end of a client that has said good-bye.\<close>

definition plain_out :: "order_event \<Rightarrow> send list \<Rightarrow> bool" where
  "plain_out ev out \<longleftrightarrow>
     (\<forall>sid rid. \<forall>m \<in> set (channel (To_storage sid rid) out).
        (\<exists>g asg now. m = Storage_slots g asg \<and> ev = Timer now) \<or>
        (\<exists>cid len. m = Storage_client_finalize cid \<and> ev = Received (Client_finished cid) len))"

lemma calm_update: "calm s \<Longrightarrow> \<not> oc_failed c \<Longrightarrow> calm (put_client cid c s)"
  by (auto simp: calm_def put_client_def update_conv')

lemma queues_mono_refl: "os_queues s' = os_queues s \<Longrightarrow> \<forall>sid < NUM_SHARDS. set (os_queues s ! sid) \<subseteq> set (os_queues s' ! sid)"
  by simp

lemma plain_out_other: "(\<And>x sid rid. x \<in> set out \<Longrightarrow> s_dest x \<noteq> To_storage sid rid) \<Longrightarrow> plain_out ev out"
  by (auto simp: plain_out_def in_channel)

lemma accepted_out:
  assumes run: "run_handler (order_accept_handlers addr) m len s = Inr (s', out)" and inv: "order_inv s" and calm: "calm s"
  shows "even_out s out \<and> plain_out ev out \<and> calm s' \<and> os_gsn_base s' = os_gsn_base s \<and>
    (\<forall>sid < NUM_SHARDS. set (os_queues s ! sid) \<subseteq> set (os_queues s' ! sid))"
proof -
  have len: "length (os_queues s) = NUM_SHARDS"
    using inv by (simp add: order_inv_def shards_ok_def)
  have "(\<forall>x \<in> set out. \<forall>sid rid. s_dest x \<noteq> To_storage sid rid \<and> s_msg x \<noteq> Storage_finished sid rid) \<and> calm s' \<and>
      os_gsn_base s' = os_gsn_base s \<and> (\<forall>sid < NUM_SHARDS. set (os_queues s ! sid) \<subseteq> set (os_queues s' ! sid))"
    using run_handler_cases [OF run] calm len unfolding order_accept_handlers_def
    by (cases m) (auto simp: order_add_client_def order_add_subscriber_def order_add_storage_def calm_def
        client_state_new_def nth_list_update split: if_splits option.splits)
  then show ?thesis
    by (auto intro: even_out_other plain_out_other)
qed

lemma epoch_out:
  assumes "shards_ok s"
  shows "even_out s (snd (start_epoch now s))" "plain_out (Timer t) (snd (start_epoch now s))"
proof -
  have "even_out s (map (\<lambda>(cid, c). Send (To_client cid) (Client_new_epoch (now + EPOCH_DURATION) (oc_num_slots c)) 0 False) (active_clients s))"
    by (rule even_out_other) auto
  moreover have "even_out s (concat (map (\<lambda>sid. to_replicas s sid
                     (Storage_slots (os_gsn_base s) (shard_assignments sid (epoch_slots s))) False) [0..<NUM_SHARDS]))"
    by (intro even_out_concat even_out_replicas assms)
  ultimately show "even_out s (snd (start_epoch now s))"
    unfolding start_epoch_def snd_conv by (rule even_out_append)
  show "plain_out (Timer t) (snd (start_epoch now s))"
    by (auto simp: plain_out_def in_channel start_epoch_def to_replicas_def)
qed

lemma timer_out:
  assumes inv: "order_inv s" and calm: "calm s" and run: "order_tick now s = (s', out)"
  shows "even_out s out \<and> plain_out (Timer now) out \<and> calm s' \<and> os_queues s' = os_queues s"
proof -
  have "shards_ok s"
    using inv by (simp add: order_inv_def)
  note e = epoch_out(1) [OF this, of now] epoch_out(2) [OF this, of now now]
  have "even_out s (snd (send_heartbeats now s))"
    by (rule even_out_other) (auto simp: send_heartbeats_def)
  moreover have "plain_out (Timer now) (snd (send_heartbeats now s))"
    by (rule plain_out_other) (auto simp: send_heartbeats_def)
  ultimately have "even_out s (snd (order_tick now s)) \<and> plain_out (Timer now) (snd (order_tick now s))"
    using e by (simp add: order_tick_def even_out_Nil plain_out_def)
  moreover have "calm (fst (order_tick now s)) \<and> os_queues (fst (order_tick now s)) = os_queues s"
    using calm by (auto simp: order_tick_def send_heartbeats_def start_epoch_def calm_def)
  ultimately show ?thesis
    by (simp add: run)
qed

lemma received_out:
  assumes run: "run_handler order_handlers m len s = Inr (s', out)" and inv: "order_inv s" and calm: "calm s"
    and m: "msg_type m \<noteq> ORDER_CLIENT_FREEZE"
  shows "even_out s out \<and> plain_out (Received m len) out \<and> calm s' \<and> os_queues s' = os_queues s \<and>
    os_gsn_base s' = os_gsn_base s"
proof -
  have ok: "shards_ok s" using inv by (simp add: order_inv_def)
  have c: "\<not> oc_failed c \<and> \<not> oc_requested c" if "map_of (os_clients s) cid = Some c" for cid c
    using that calm client_ok_of [OF inv that] by (auto simp: calm_def client_ok_def)
  consider "s' = s" "out = []" | f where "map_of order_handlers (msg_type m) = Some f" "f m s = Inr (s', out)"
    using run_handler_cases [OF run] by auto
  then show ?thesis
  proof cases
    case 1
    with calm show ?thesis by (simp add: plain_out_def)
  next
    case f: 2
    show ?thesis
  proof (cases m)
    case (Client_finished cid)
    show ?thesis
    proof (cases "map_of (os_clients s) cid")
      case (Some x)
      with f Client_finished c [OF Some] have out: "out = Send (To_client cid) Order_finished 0 True # to_replicas s (oc_shard_id x) (Storage_client_finalize cid) False"
        and s': "s' = s\<lparr>os_clients := AList.delete cid (os_clients s), os_suspicious := removeAll cid (os_suspicious s)\<rparr>"
        by (auto simp: order_handlers_def finalized_def)
      have "even_out s ([Send (To_client cid) Order_finished 0 True] @ to_replicas s (oc_shard_id x) (Storage_client_finalize cid) False)"
        by (intro even_out_append even_out_replicas ok even_out_other) auto
      moreover have "calm s'"
        using calm by (auto simp: calm_def s' delete_conv')
      moreover have "plain_out (Received m len) out"
        by (auto simp: plain_out_def out in_channel to_replicas_def Client_finished)
      ultimately show ?thesis
        by (simp add: out s')
    qed (use f Client_finished calm in \<open>auto simp: order_handlers_def plain_out_def\<close>)
  next
    case (Order_client_rate cid n)
    then show ?thesis
      using f calm c
      by (auto simp: order_handlers_def frame_simps plain_out_def intro!: calm_update split: option.splits)
  next
    case (Subscriber_finished sid)
    then show ?thesis
      using f calm
      by (auto simp: order_handlers_def calm_def intro!: even_out_other plain_out_other split: if_splits)
  qed (use m f calm c in \<open>auto simp: order_handlers_def plain_out_def split: option.splits\<close>)
  qed
qed

lemma order_handle_out:
  assumes run: "order_handle ev s = Inr (s', out)" and inv: "order_inv s" and calm: "calm s" "calm_event ev"
  shows "even_out s out \<and> plain_out ev out \<and> calm s' \<and> (\<forall>sid < NUM_SHARDS. set (os_queues s ! sid) \<subseteq> set (os_queues s' ! sid)) \<and>
    ((\<forall>now. ev \<noteq> Timer now) \<longrightarrow> os_gsn_base s' = os_gsn_base s)"
proof (cases ev)
  case (Accepted addr m len)
  with accepted_out [OF _ inv calm(1), of addr m len s' out ev] run show ?thesis by simp
next
  case (Received m len)
  with received_out [OF _ inv calm(1), of m len s' out] run calm(2) show ?thesis by simp
next
  case (Timer now)
  with timer_out [OF inv calm(1), of now s' out] run show ?thesis by simp
qed (use calm in simp)

subsection \<open>A client\<close>

lemma channel_to_servers:
  "distinct (cl_queues c) \<Longrightarrow> channel (To_storage sid rid) (to_servers c m) =
     (if sid = cl_shard_id c \<and> rid \<in> set (cl_queues c) then [m] else [])"
  by (auto simp: to_servers_def channel_broadcast)

text \<open>The servers that are left after packets: a server that has said good-bye is dropped.\<close>

fun after_packet :: "u64 \<Rightarrow> packet \<Rightarrow> u64 list \<Rightarrow> u64 list" where
  "after_packet shard ((Storage_finished sid rid, _), _) qs = (if sid = shard then removeAll rid qs else qs)"
| "after_packet shard _ qs = qs"

abbreviation batch_messages :: "packet list \<Rightarrow> message set" where
  "batch_messages ps \<equiv> (\<lambda>p. fst (fst p)) ` set ps"

definition after_packets :: "u64 \<Rightarrow> packet list \<Rightarrow> u64 list \<Rightarrow> u64 list" where
  "after_packets shard ps qs = foldl (\<lambda>qs p. after_packet shard p qs) qs ps"

lemma after_packets_simps [simp]:
  "after_packets shard [] qs = qs" "after_packets shard (p # ps) qs = after_packets shard ps (after_packet shard p qs)"
  by (simp_all add: after_packets_def)

lemma after_packets_dropped:
  "rid \<in> set qs \<Longrightarrow> rid \<notin> set (after_packets shard ps qs) \<Longrightarrow> Storage_finished shard rid \<in> batch_messages ps"
proof (induction ps arbitrary: qs)
  case (Cons p ps)
  show ?case
  proof (cases "rid \<in> set (after_packet shard p qs)")
    case True
    with Cons show ?thesis by auto
  next
    case False
    with Cons.prems(1) show ?thesis
      by (cases "(shard, p, qs)" rule: after_packet.cases) (auto split: if_splits)
  qed
qed simp

lemma after_packets_subset: "set (after_packets shard ps qs) \<subseteq> set qs"
proof (induction ps arbitrary: qs)
  case (Cons p ps)
  have "set (after_packet shard p qs) \<subseteq> set qs"
    by (cases "(shard, p, qs)" rule: after_packet.cases) auto
  with Cons [of "after_packet shard p qs"] show ?case by auto
qed simp

lemma insert_ack_ids:
  "cl_client_id (on_insert_ack g c) = cl_client_id c" "cl_shard_id (on_insert_ack g c) = cl_shard_id c"
  "cl_stopped (on_insert_ack g c) = cl_stopped c" "cl_queues (on_insert_ack g c) = cl_queues c"
  by (auto simp: on_insert_ack_def Let_def split: option.splits)

lemma client_packet:
  assumes "run_handler (loop_handlers connections) m len c = Inr (c', out)" and "msg_type m \<noteq> CLIENT_STORAGE_INFO"
  shows "cl_client_id c' = cl_client_id c \<and> cl_shard_id c' = cl_shard_id c \<and> cl_stopped c' = cl_stopped c \<and>
    cl_queues c' = after_packet (cl_shard_id c) ((m, len), connections) (cl_queues c) \<and>
    (out = [] \<or> out = [Send To_order (Client_finished (cl_client_id c)) 0 False] \<and> cl_queues c' = [] \<and>
       (\<exists>rid. m = Storage_finished (cl_shard_id c) rid))"
proof -
  have known: "msg_type m \<in> fst ` set (loop_handlers connections) \<Longrightarrow> len = msg_length m"
    using assms(1) apply_switch_length [of len m "loop_handlers connections"]
    by (cases "len = msg_length m") (simp_all add: run_handler_def)
  show ?thesis
  proof (cases "msg_type m \<in> fst ` set (loop_handlers connections)")
    case True
    with assms(1) known have "(case map_of (loop_handlers connections) (msg_type m) of None \<Rightarrow> Inr (c, []) | Some f \<Rightarrow> f m c) = Inr (c', out)"
      using run_handler_ok [of "loop_handlers connections" m c] by simp
    with assms(2) show ?thesis
      by (cases m) (auto simp: loop_handlers_def insert_ack_ids on_new_epoch_def Let_def
          client_on_storage_finished_def split: if_splits)
  next
    case False
    with assms(1) have "c' = c" "out = []"
      using apply_switch_none [OF False, of len] by (simp_all add: run_handler_def)
    moreover have "after_packet (cl_shard_id c) ((m, len), connections) (cl_queues c) = cl_queues c"
      using False by (cases m) (simp_all add: loop_handlers_def)
    ultimately show ?thesis by simp
  qed
qed

abbreviation no_storage_info :: "packet list \<Rightarrow> bool" where
  "no_storage_info ps \<equiv> \<forall>m \<in> batch_messages ps. msg_type m \<noteq> CLIENT_STORAGE_INFO"

text \<open>The farewell to the ordering service is in a batch at most once, after the good-bye of the last server.\<close>

lemma client_packets:
  assumes "recv_packets ps c = Inr (c', out)" and "no_storage_info ps"
  shows "cl_client_id c' = cl_client_id c \<and> cl_shard_id c' = cl_shard_id c \<and> cl_stopped c' = cl_stopped c \<and>
    cl_queues c' = after_packets (cl_shard_id c) ps (cl_queues c) \<and>
    (\<forall>x \<in> set out. x = Send To_order (Client_finished (cl_client_id c)) 0 False \<and> cl_queues c' = [] \<and>
       (\<exists>rid. Storage_finished (cl_shard_id c) rid \<in> batch_messages ps))"
  using assms
proof (induction ps arbitrary: c out)
  case (Cons p ps)
  obtain m len connections where p: "p = ((m, len), connections)" by (metis surj_pair)
  with Cons.prems(1) obtain c1 out1 out2 where
    one: "run_handler (loop_handlers connections) m len c = Inr (c1, out1)"
    and rest: "recv_packets ps c1 = Inr (c', out2)" "out = out1 @ out2"
    by (auto simp: rbind_eq_Inr)
  from client_packet [OF one] Cons.prems(2) p have c1: "cl_client_id c1 = cl_client_id c" "cl_shard_id c1 = cl_shard_id c"
      "cl_stopped c1 = cl_stopped c" "cl_queues c1 = after_packet (cl_shard_id c) p (cl_queues c)"
    and out1: "out1 = [] \<or> out1 = [Send To_order (Client_finished (cl_client_id c)) 0 False] \<and> cl_queues c1 = [] \<and>
       (\<exists>rid. m = Storage_finished (cl_shard_id c) rid)"
    by auto
  note IH = Cons.IH [OF rest(1)]
  have rest_ok: "no_storage_info ps"
    using Cons.prems(2) by simp
  note IH = IH [OF this, unfolded c1(1,2)]
  have empty: "cl_queues c' = []" if "cl_queues c1 = []"
    using IH that after_packets_subset [of "cl_shard_id c" ps "[]"] by simp
  have "x = Send To_order (Client_finished (cl_client_id c)) 0 False \<and> cl_queues c' = [] \<and>
      (\<exists>rid. Storage_finished (cl_shard_id c) rid \<in> batch_messages (p # ps))" if x: "x \<in> set out" for x
  proof (cases "x \<in> set out1")
    case True
    with out1 empty p show ?thesis by auto
  next
    case False
    with x rest(2) have "x \<in> set out2" by simp
    with IH obtain rid where "x = Send To_order (Client_finished (cl_client_id c)) 0 False" "cl_queues c' = []"
      "Storage_finished (cl_shard_id c) rid \<in> batch_messages ps" by blast
    then show ?thesis by auto
  qed
  with IH show ?case
    by (simp add: c1)
qed simp

lemma client_send_ids:
  "cl_client_id (fst (client_send now c)) = cl_client_id c" "cl_shard_id (fst (client_send now c)) = cl_shard_id c"
  "cl_stopped (fst (client_send now c)) = cl_stopped c"
  by (simp_all add: client_send_def Let_def split: option.splits prod.splits)

lemma u64_sub_less: "u64_sub a b < 2 ^ 64"
  by (simp add: u64_sub_def)

lemma client_send_out:
  "snd (client_send now c) = [] \<or>
     \<not> cl_stopped c \<and> (\<exists>n data. n < 2 ^ 64 \<and> snd (client_send now c) = to_servers c (Storage_insert (cl_client_id c) n data))"
  using u64_sub_less [of "ideal now (cl_current c)" "cl_consumed c"]
  by (auto simp: client_send_def Let_def send_allowed_def split: option.splits prod.splits)

lemma client_switch_ids:
  "cl_stopped (fst (client_switch_epoch rnd now c)) = cl_stopped c"
  "x \<in> set (snd (client_switch_epoch rnd now c)) \<Longrightarrow> \<exists>n. x = Send To_order (Order_client_rate (cl_client_id c) n) 0 False"
  by (auto simp: client_switch_epoch_def estimate_rate_def Let_def split: list.splits if_splits)

lemma client_switch_order:
  "m \<in> set (channel To_order (snd (client_switch_epoch rnd now c))) \<Longrightarrow> \<exists>n. m = Order_client_rate (cl_client_id c) n"
  by (auto simp: in_channel dest!: client_switch_ids(2))

text \<open>
  What an iteration sends to the servers: nothing, or one request, or, when it stops, its farewell, and the same to
  all servers that are connected; the ordering service hears the farewell when the last server has said good-bye.
\<close>

text \<open>The parts of an iteration, with what each sends.\<close>

lemma client_iteration_parts:
  assumes run: "client_iteration rnd stop now packets c = Inr (c', out)" and p: "no_storage_info packets"
  obtains out1 out2 out3 out4 where "out = out1 @ out2 @ out3 @ out4"
    and "out1 = (if \<not> cl_stopped c \<and> stop then to_servers c (Client_finished (cl_client_id c)) else [])"
    and "\<And>m. m \<in> set (channel To_order out2) \<Longrightarrow> \<exists>n. m = Order_client_rate (cl_client_id c) n" "\<And>sid rid. channel (To_storage sid rid) out2 = []"
    and "out3 = [] \<or> \<not> cl_stopped c \<and> \<not> stop \<and> (\<exists>n data. n < 2 ^ 64 \<and> out3 = to_servers c (Storage_insert (cl_client_id c) n data))"
    and "\<And>x. x \<in> set out4 \<Longrightarrow> x = Send To_order (Client_finished (cl_client_id c)) 0 False \<and> cl_queues c' = [] \<and>
         (\<exists>rid. Storage_finished (cl_shard_id c) rid \<in> batch_messages packets)"
    and "cl_client_id c' = cl_client_id c" "cl_shard_id c' = cl_shard_id c" "cl_stopped c' = (cl_stopped c \<or> stop)"
      "cl_queues c' = after_packets (cl_shard_id c) packets (cl_queues c)"
proof -
  define c1 where "c1 = fst (client_stop stop c)"
  define c2 where "c2 = fst (client_switch_epoch rnd now c1)"
  define c3 where "c3 = fst (client_send now c2)"
  obtain out4 where h: "recv_packets packets c3 = Inr (c', out4)"
    and out: "out = snd (client_stop stop c) @ snd (client_switch_epoch rnd now c1) @ snd (client_send now c2) @ out4"
    using run unfolding c3_def c2_def c1_def client_iteration_def Let_def case_prod_beta rbind_eq_Inr by force
  have c1: "cl_client_id c1 = cl_client_id c" "cl_shard_id c1 = cl_shard_id c" "cl_queues c1 = cl_queues c" "cl_stopped c1 = (cl_stopped c \<or> stop)"
    by (simp_all add: c1_def client_stop_def)
  have c2: "cl_client_id c2 = cl_client_id c" "cl_shard_id c2 = cl_shard_id c" "cl_queues c2 = cl_queues c" "cl_stopped c2 = (cl_stopped c \<or> stop)"
    "cl_destination c2 = cl_destination c"
    by (simp_all add: c2_def frame_simps c1 client_switch_ids) (simp add: c1_def frame_simps)
  have c3: "cl_client_id c3 = cl_client_id c" "cl_shard_id c3 = cl_shard_id c" "cl_queues c3 = cl_queues c" "cl_stopped c3 = (cl_stopped c \<or> stop)"
    by (simp_all add: c3_def client_send_ids client_send_queues c2)
  note client_packets [OF h p, unfolded c3]
  moreover have "snd (client_stop stop c) = (if \<not> cl_stopped c \<and> stop then to_servers c (Client_finished (cl_client_id c)) else [])"
    by (simp add: client_stop_def)
  moreover have "snd (client_send now c2) = [] \<or> \<not> cl_stopped c \<and> \<not> stop \<and>
      (\<exists>n data. n < 2 ^ 64 \<and> snd (client_send now c2) = to_servers c (Storage_insert (cl_client_id c) n data))"
    using client_send_out [of now c2] by (auto simp: c2 to_servers_def)
  moreover have "\<exists>n. m = Order_client_rate (cl_client_id c) n" if "m \<in> set (channel To_order (snd (client_switch_epoch rnd now c1)))" for m
    using client_switch_order [OF that] by (simp add: c1(1))
  moreover have "channel (To_storage sid rid) (snd (client_switch_epoch rnd now c1)) = []" for sid rid
    using client_switch_ids(2) [of _ rnd now c1] by (fastforce simp: channel_def filter_empty_conv)
  ultimately show thesis
    by (intro that [OF out]) blast+
qed

lemma client_iteration_out:
  assumes run: "client_iteration rnd stop now packets c = Inr (c', out)" and d: "distinct (cl_queues c)"
    and p: "no_storage_info packets"
  shows "cl_client_id c' = cl_client_id c \<and> cl_shard_id c' = cl_shard_id c \<and>
    cl_queues c' = after_packets (cl_shard_id c) packets (cl_queues c)"
    and "\<exists>ms. (\<forall>sid rid. channel (To_storage sid rid) out = (if sid = cl_shard_id c \<and> rid \<in> set (cl_queues c) then ms else [])) \<and>
      (ms = [] \<and> cl_stopped c' = cl_stopped c \<or>
       \<not> cl_stopped c \<and> \<not> cl_stopped c' \<and> (\<exists>n data. n < 2 ^ 64 \<and> ms = [Storage_insert (cl_client_id c) n data]) \<or>
       \<not> cl_stopped c \<and> cl_stopped c' \<and> ms = [Client_finished (cl_client_id c)])"
    and "m \<in> set (channel To_order out) \<Longrightarrow> (\<exists>n. m = Order_client_rate (cl_client_id c) n) \<or>
      m = Client_finished (cl_client_id c) \<and> cl_queues c' = [] \<and> (\<exists>rid. Storage_finished (cl_shard_id c) rid \<in> batch_messages packets)"
proof -
  obtain out1 out2 out3 out4 where out: "out = out1 @ out2 @ out3 @ out4"
    and st: "out1 = (if \<not> cl_stopped c \<and> stop then to_servers c (Client_finished (cl_client_id c)) else [])"
    and switch: "\<And>m. m \<in> set (channel To_order out2) \<Longrightarrow> \<exists>n. m = Order_client_rate (cl_client_id c) n"
    and rate: "\<And>sid rid. channel (To_storage sid rid) out2 = []"
    and send: "out3 = [] \<or> \<not> cl_stopped c \<and> \<not> stop \<and> (\<exists>n data. n < 2 ^ 64 \<and> out3 = to_servers c (Storage_insert (cl_client_id c) n data))"
    and bye: "\<And>x. x \<in> set out4 \<Longrightarrow> x = Send To_order (Client_finished (cl_client_id c)) 0 False \<and> cl_queues c' = [] \<and>
         (\<exists>rid. Storage_finished (cl_shard_id c) rid \<in> batch_messages packets)"
    and c': "cl_client_id c' = cl_client_id c" "cl_shard_id c' = cl_shard_id c" "cl_stopped c' = (cl_stopped c \<or> stop)"
      "cl_queues c' = after_packets (cl_shard_id c) packets (cl_queues c)"
    by (rule client_iteration_parts [OF run p]) (rule that)
  show "cl_client_id c' = cl_client_id c \<and> cl_shard_id c' = cl_shard_id c \<and> cl_queues c' = after_packets (cl_shard_id c) packets (cl_queues c)"
    by (simp add: c')
  have none: "channel To_order out1 = []" "channel To_order out3 = []"
    using send by (auto simp: st to_servers_def channel_map_other)
  show "m \<in> set (channel To_order out) \<Longrightarrow> (\<exists>n. m = Order_client_rate (cl_client_id c) n) \<or>
      m = Client_finished (cl_client_id c) \<and> cl_queues c' = [] \<and> (\<exists>rid. Storage_finished (cl_shard_id c) rid \<in> batch_messages packets)"
    using switch [of m] unfolding out channel_simps none set_append Un_iff in_channel [of m _ out4] by (auto dest!: bye)
  have last: "channel (To_storage sid rid) out4 = []" for sid rid
    using bye by (fastforce simp: channel_def filter_empty_conv)
  show "\<exists>ms. (\<forall>sid rid. channel (To_storage sid rid) out = (if sid = cl_shard_id c \<and> rid \<in> set (cl_queues c) then ms else [])) \<and>
      (ms = [] \<and> cl_stopped c' = cl_stopped c \<or>
       \<not> cl_stopped c \<and> \<not> cl_stopped c' \<and> (\<exists>n data. n < 2 ^ 64 \<and> ms = [Storage_insert (cl_client_id c) n data]) \<or>
       \<not> cl_stopped c \<and> cl_stopped c' \<and> ms = [Client_finished (cl_client_id c)])"
    using send
  proof (elim disjE conjE exE)
    assume no: "out3 = []"
    show ?thesis
      by (rule exI [of _ "if \<not> cl_stopped c \<and> stop then [Client_finished (cl_client_id c)] else []"])
        (simp add: out rate last st no c'(3) channel_to_servers [OF d])
  next
    fix n data
    assume go: "\<not> cl_stopped c" "\<not> stop" "n < 2 ^ 64" "out3 = to_servers c (Storage_insert (cl_client_id c) n data)"
    have stopped: "\<not> cl_stopped c'" using c'(3) go by blast
    show ?thesis
      unfolding out channel_simps rate last st
      by (rule exI [of _ "[Storage_insert (cl_client_id c) n data]"]) (use go(3) in \<open>simp add: go stopped channel_to_servers [OF d]\<close>)
  qed
qed

subsection \<open>A storage server\<close>

text \<open>The events of a server as long as no client fails.\<close>

fun quiet_event :: "storage_event \<Rightarrow> bool" where
  "quiet_event (St_accepted _ _ _) \<longleftrightarrow> True"
| "quiet_event (St_failure _ _) \<longleftrightarrow> False"
| "quiet_event (St_control m _) \<longleftrightarrow> msg_type m \<in> {STORAGE_SLOTS, STORAGE_CLIENT_FINALIZE, SUBSCRIBER_FINISHED}"
| "quiet_event (St_client m _) \<longleftrightarrow> msg_type m \<in> {STORAGE_INSERT, CLIENT_FINISHED}"

fun farewell :: "storage_event \<Rightarrow> u64 \<Rightarrow> bool" where
  "farewell (St_client (Client_finished cid) _) c \<longleftrightarrow> c = cid"
| "farewell _ c \<longleftrightarrow> False"

lemma client_of_more [simp]:
  "client_of (s\<lparr>st_subscribers := xs\<rparr>) = client_of s" "client_of (s\<lparr>st_changes := b\<rparr>) = client_of s"
  by (simp_all add: client_of_def fun_eq_iff)

lemma set_client_ids [simp]:
  "st_shard_id (set_client cid c s) = st_shard_id s" "st_replica_id (set_client cid c s) = st_replica_id s"
  "st_subscriber_threads (set_client cid c s) = st_subscriber_threads s"
  by (simp_all add: set_client_def)

lemma storage_handle_out:
  assumes run: "storage_handle ev s = Some (Inr (s', out))" and q: "quiet_event ev"
  shows "st_shard_id s' = st_shard_id s \<and> st_replica_id s' = st_replica_id s \<and>
    st_subscriber_threads s' = st_subscriber_threads s \<and>
    (\<forall>c. sc_disconnected (client_of s' c) \<longleftrightarrow> sc_disconnected (client_of s c) \<or> farewell ev c) \<and>
    channel To_order out = [] \<and>
    (\<forall>c sid rid. Storage_finished sid rid \<in> set (channel (To_client c) out) \<longrightarrow>
       sid = st_shard_id s \<and> rid = st_replica_id s \<and> farewell ev c)"
proof (cases ev)
  case (St_accepted n m len)
  from handler_result [of "storage_accept_handlers n" m len s "(s', out)"] run show ?thesis
    by (cases m) (auto simp: St_accepted storage_accept_handlers_def rbind_eq_Inr storage_add_client_def
        get_client_state_of storage_add_subscriber_def client_of_set_client split: if_splits)
next
  case (St_control m len)
  from handler_result [of control_handlers m len s "(s', out)"] run q show ?thesis
    by (cases m) (auto simp: St_control control_handlers_def rbind_eq_Inr with_client_of frame_simps
        client_of_set_client split: if_splits)
next
  case (St_client m len)
  from handler_result [of client_handlers m len s "(s', out)"] run q show ?thesis
    by (cases m) (auto simp: St_client client_handlers_def rbind_eq_Inr with_connected_of frame_simps
        client_of_set_client disconnect_def split: if_splits)
qed (use q in simp)

end
