(* ===== verification/Numbers.thy ===== *)
theory Numbers
  imports Channels
begin

text \<open>
  Sequence numbers over a whole run: the slots that the messages of the ordering service lay out in a shard carry
  increasing sequence numbers, all below the current base, and those of different shards are disjoint. What the
  servers expect of such a message, assignments in order and numbers that fit, holds as well.
\<close>

subsection \<open>Messages and operations\<close>

fun control_op :: "message \<Rightarrow> op list" where
  "control_op (Storage_slots g asg) = (if asg = [] then [] else [Op_slots g asg])"
| "control_op (Storage_client_finalize cid) = [Op_close cid]"
| "control_op _ = []"

definition control_ops :: "message list \<Rightarrow> op list" where
  "control_ops ms = concat (map control_op ms)"

lemma control_ops_simps [simp]:
  "control_ops [] = []" "control_ops (xs @ ys) = control_ops xs @ control_ops ys" "control_ops [m] = control_op m"
  by (simp_all add: control_ops_def)

lemma control_ops_control: "list_all is_control (control_ops ms)"
proof -
  have "list_all is_control (control_op m)" for m
    by (cases m) simp_all
  then show ?thesis
    by (simp add: control_ops_def list_all_iff)
qed

text \<open>The slots that operations lay out.\<close>

fun op_slots :: "op \<Rightarrow> (u64 \<times> u64) list" where
  "op_slots (Op_slots g asg) = laid_out g asg"
| "op_slots _ = []"

definition ops_slots :: "op list \<Rightarrow> (u64 \<times> u64) list" where
  "ops_slots ops = concat (map op_slots ops)"

lemma ops_slots_simps [simp]: "ops_slots [] = []" "ops_slots (xs @ ys) = ops_slots xs @ ops_slots ys" "ops_slots [op] = op_slots op"
  by (simp_all add: ops_slots_def)

lemma abs_op_slots: "al_slots (abs_op op a) = al_slots a @ op_slots op"
  by (cases op) (simp_all add: abs_op_defs)

lemma common_log_slots: "al_slots (common_log ctl ins) = ops_slots ctl"
  by (induction ctl rule: rev_induct) (simp_all add: abs_op_slots)

lemma abs_run_slots: "al_slots (abs_run ops) = ops_slots ops"
  by (induction ops rule: rev_induct) (simp_all add: abs_op_slots abs_empty_def)

lemma ops_slots_control: "ops_slots (filter is_control ops) = ops_slots ops"
proof -
  have "op_slots op = []" if "\<not> is_control op" for op
    using that by (cases op) simp_all
  then show ?thesis
    by (induction ops) (simp_all add: ops_slots_def)
qed

subsection \<open>An epoch\<close>

lemma laid_out_epoch:
  assumes ok: "epoch_ok s"
  shows "laid_out (os_gsn_base s) (shard_assignments sid (epoch_slots s)) = new_slots s sid"
proof -
  let ?asg = "shard_assignments sid (epoch_slots s)" and ?T = "sum_list (map fst (epoch_slots s))"
  let ?client = "\<lambda>k. as_client_id (?asg ! (epoch_plan ?asg ! k))"
  have owner: "?client k = (if fst (snd (epoch_owner s k)) \<noteq> sid then UINT64_MAX else snd (snd (epoch_owner s k)))"
    if "k < ?T" for k
    using shard_assignments_nth(2) [OF epoch_plan_index [OF ok that, of sid]] epoch_plan_shard [OF ok, of sid]
    by (simp add: epoch_owner_def)
  have "?client k \<noteq> UINT64_MAX \<longleftrightarrow> fst (snd (epoch_owner s k)) = sid" if "k < ?T" for k
    using owner [OF that] epoch_owner_ids(2) [OF ok that] MAX_CLIENTS_less_max by auto
  then have "filter (\<lambda>k. ?client k \<noteq> UINT64_MAX) [0..<?T] = filter (\<lambda>k. fst (snd (epoch_owner s k)) = sid) [0..<?T]"
    by (intro filter_cong) auto
  then show ?thesis
    by (auto simp: laid_out_def new_slots_def owner)
qed

lemma new_slots_numbers:
  assumes "slots_bounded s"
  shows "sorted_wrt (<) (map snd (new_slots s sid))"
    and "x \<in> set (new_slots s sid) \<Longrightarrow> os_gsn_base s \<le> snd x \<and> snd x < os_gsn_base s + epoch_total s"
    and "sid \<noteq> sid' \<Longrightarrow> snd ` set (new_slots s sid) \<inter> snd ` set (new_slots s sid') = {}"
proof -
  have "sorted_wrt (<) (filter P [0..<n])" for P and n :: nat
    using sorted_wrt_filter [OF sorted_wrt_upt] .
  then show "sorted_wrt (<) (map snd (new_slots s sid))"
    by (simp add: new_slots_def sorted_wrt_map comp_def)
qed (auto simp: new_slots_def epoch_total_eq [OF assms])

subsection \<open>All epochs\<close>

text \<open>\<open>chan p\<close> is what the ordering service has sent to server \<open>p\<close>, which is named by shard and replica number.\<close>

type_synonym server_id = "u64 \<times> u64"

definition numbered :: "server_id set \<Rightarrow> u64 \<Rightarrow> (server_id \<Rightarrow> message list) \<Rightarrow> bool" where
  "numbered P base chan \<longleftrightarrow>
     (\<forall>p \<in> P. sorted_wrt (<) (map snd (ops_slots (control_ops (chan p))))) \<and>
     (\<forall>p \<in> P. \<forall>x \<in> set (ops_slots (control_ops (chan p))). snd x < base) \<and>
     (\<forall>p \<in> P. \<forall>q \<in> P. fst p \<noteq> fst q \<longrightarrow>
        snd ` set (ops_slots (control_ops (chan p))) \<inter> snd ` set (ops_slots (control_ops (chan q))) = {}) \<and>
     (\<forall>p \<in> P. \<forall>g asg. Storage_slots g asg \<in> set (chan p) \<longrightarrow> asg \<noteq> [] \<longrightarrow>
        wf_assignments asg \<and> g + sum_list (map as_num_slots asg) \<le> 2 ^ 64)"

lemma numbered_init: "numbered P base (\<lambda>_. [])"
  by (simp add: numbered_def)

lemma sorted_below_length:
  assumes "sorted_wrt (<) xs" and "\<And>x. x \<in> set xs \<Longrightarrow> x < (n :: nat)"
  shows "length xs \<le> n"
proof -
  have "distinct xs"
    using assms(1) by (simp add: strict_sorted_iff)
  then have "length xs = card (set xs)"
    by (simp add: distinct_card)
  also have "\<dots> \<le> card {..<n}"
    using assms(2) by (intro card_mono) auto
  finally show ?thesis by simp
qed

lemma numbered_length: "numbered P base chan \<Longrightarrow> p \<in> P \<Longrightarrow> length (ops_slots (control_ops (chan p))) \<le> base"
  using sorted_below_length [of "map snd (ops_slots (control_ops (chan p)))" base] by (auto simp: numbered_def)

lemma numbered_other:
  assumes n: "numbered P base chan" and more: "\<And>p. p \<in> P \<Longrightarrow> chan' p = chan p @ ms p"
    and none: "\<And>p g asg. p \<in> P \<Longrightarrow> Storage_slots g asg \<notin> set (ms p)"
  shows "numbered P base chan'"
proof -
  have "op_slots op = []" if "op \<in> set (control_op m)" "\<forall>g asg. m \<noteq> Storage_slots g asg" for op m
    using that by (cases m) auto
  then have "ops_slots (control_ops (ms p)) = []" if "p \<in> P" for p
    using none [OF that] by (fastforce simp: ops_slots_def control_ops_def)
  then show ?thesis
    using n none by (auto simp: numbered_def more)
qed

lemma numbered_epoch:
  assumes n: "numbered P (os_gsn_base s) chan" and inv: "order_inv s" and b: "slots_bounded s"
    and room: "os_gsn_base s + epoch_total s < 2 ^ 64"
    and more: "\<And>p. p \<in> P \<Longrightarrow> chan' p = chan p @ [Storage_slots (os_gsn_base s) (shard_assignments (fst p) (epoch_slots s))]"
  shows "numbered P (os_gsn_base s + epoch_total s) chan'"
proof (cases "active_clients s = []")
  case True
  then have none: "epoch_slots s = []" "epoch_total s = 0"
    by (simp_all add: epoch_slots_def epoch_total_def)
  with n show ?thesis
    by (auto simp: numbered_def more shard_assignments_def)
next
  case False
  then have ok: "epoch_ok s"
    using inv b by (simp add: epoch_ok_def)
  have ne: "shard_assignments sid (epoch_slots s) \<noteq> []" for sid
    using epoch_ok_wf [OF ok, of sid] by (simp add: wf_assignments_def)
  have slots: "ops_slots (control_ops (chan' p)) = ops_slots (control_ops (chan p)) @ new_slots s (fst p)" if "p \<in> P" for p
    using laid_out_epoch [OF ok] ne by (simp add: more [OF that])
  have old: "snd x < os_gsn_base s" if "p \<in> P" "x \<in> set (ops_slots (control_ops (chan p)))" for p x
    using n that by (simp add: numbered_def)
  note new = new_slots_numbers [OF b]
  show ?thesis
    unfolding numbered_def
  proof (intro conjI ballI allI impI)
    fix p assume p: "p \<in> P"
    show "sorted_wrt (<) (map snd (ops_slots (control_ops (chan' p))))"
      using n p new(1) old [OF p] new(2) [of _ "fst p"]
      by (fastforce simp: slots sorted_wrt_append numbered_def)
    show "snd x < os_gsn_base s + epoch_total s" if "x \<in> set (ops_slots (control_ops (chan' p)))" for x
      using that old [OF p] new(2) [of x "fst p"] by (fastforce simp: slots [OF p])
    fix g asg assume "Storage_slots g asg \<in> set (chan' p)" "asg \<noteq> []"
    then show "wf_assignments asg" "g + sum_list (map as_num_slots asg) \<le> 2 ^ 64"
      using n p epoch_ok_wf [OF ok] room epoch_total_eq [OF b] by (auto simp: more numbered_def)
  next
    fix p q assume pq: "p \<in> P" "q \<in> P" "fst p \<noteq> fst q"
    have far: "snd ` set (ops_slots (control_ops (chan r))) \<inter> snd ` set (new_slots s sid) = {}" if "r \<in> P" for r sid
      using old [OF that] new(2) [of _ sid] by fastforce
    have "snd ` set (ops_slots (control_ops (chan p))) \<inter> snd ` set (ops_slots (control_ops (chan q))) = {}"
      using n pq by (simp add: numbered_def)
    then show "snd ` set (ops_slots (control_ops (chan' p))) \<inter> snd ` set (ops_slots (control_ops (chan' q))) = {}"
      using far [OF pq(1), of "fst q"] far [OF pq(2), of "fst p"] new(3) [OF pq(3)]
      by (simp add: slots [OF pq(1)] slots [OF pq(2)] image_Un) blast
  qed
qed

text \<open>A run of the service is looked at for as long as the sequence numbers last: at a billion a second, five centuries.\<close>

definition numbers_left :: "order_state \<Rightarrow> bool" where
  "numbers_left s \<longleftrightarrow> slots_bounded s \<and> os_gsn_base s + epoch_total s < 2 ^ 64"

lemma base_frames [simp]:
  "os_gsn_base (put_client cid c s) = os_gsn_base s" "os_gsn_base (fst (finalized cid c s)) = os_gsn_base s"
  "os_gsn_base (fst (failed cid c s)) = os_gsn_base s" "os_gsn_base (fst (requested cid c g s)) = os_gsn_base s"
  by (simp_all add: put_client_def finalized_def failed_def requested_def)

lemma finalized_base [dest]: "finalized cid c s = (s', out) \<Longrightarrow> os_gsn_base s' = os_gsn_base s"
  by (auto simp: finalized_def)

lemma order_handlers_base:
  "run_handler order_handlers m len s = Inr (s', out) \<Longrightarrow> os_gsn_base s' = os_gsn_base s"
  "run_handler order_failure_handlers m len s = Inr (s', out) \<Longrightarrow> os_gsn_base s' = os_gsn_base s"
  "run_handler (order_accept_handlers addr) m len s = Inr (s', out) \<Longrightarrow> os_gsn_base s' = os_gsn_base s"
  by (drule run_handler_cases; cases m;
      auto simp: order_handlers_def order_failure_handlers_def order_accept_handlers_def failed_def requested_def
        finalized_def order_add_client_def order_add_subscriber_def order_add_storage_def Let_def
        split: option.splits if_splits; fail)+

lemma u64_add_less: "u64_add a b < 2 ^ 64"
  by (simp add: u64_add_def)

lemma order_run_base: "order_run s out \<Longrightarrow> os_gsn_base s < 2 ^ 64"
proof (induction rule: order_run.induct)
  case (order_step s out ev s' out')
  then show ?case
    using u64_add_less order_handlers_base(1,2) [of _ _ s s' out'] order_handlers_base(3) [of _ _ _ s s' out']
    by (cases ev) (auto simp: order_tick_def send_heartbeats_def start_epoch_def split: if_splits)
qed (simp add: order_init_def)

lemma epoch_channel:
  assumes ok: "shards_ok s" and sid: "sid < NUM_SHARDS" and rid: "rid \<in> set (os_queues s ! sid)"
  shows "channel (To_storage sid rid) (snd (start_epoch now s)) =
    [Storage_slots (os_gsn_base s) (shard_assignments sid (epoch_slots s))]"
proof -
  let ?m = "\<lambda>i. Storage_slots (os_gsn_base s) (shard_assignments i (epoch_slots s))"
  have "distinct (os_queues s ! sid)"
    using ok sid by (simp add: shards_ok_def)
  then have one: "channel (To_storage sid rid) (to_replicas s i (?m i) False) = (if i = sid then [?m sid] else [])" for i
    using rid channel_broadcast [of "os_queues s ! sid" sid rid sid "?m sid" 0 False]
    by (cases "i = sid") (auto simp: to_replicas_def intro: channel_map_other)
  have "channel (To_storage sid rid) (concat (map (\<lambda>i. to_replicas s i (?m i) False) [0..<n])) = (if sid < n then [?m sid] else [])" for n
    by (induction n) (auto simp: one less_Suc_eq)
  moreover have "channel (To_storage sid rid) (map (\<lambda>(cid, c). Send (To_client cid) (Client_new_epoch (now + EPOCH_DURATION) (oc_num_slots c)) 0 False) (active_clients s)) = []"
    by (rule channel_map_other) auto
  ultimately show ?thesis
    using sid by (simp add: start_epoch_def)
qed

lemma order_numbers:
  assumes run: "order_handle ev s = Inr (s', out)" and inv: "order_inv s" and calm: "calm s" "calm_event ev" and left: "numbers_left s"
    and P: "\<And>p. p \<in> P \<Longrightarrow> fst p < NUM_SHARDS \<and> snd p \<in> set (os_queues s ! fst p)"
    and n: "numbered P (os_gsn_base s) chan" and b: "os_gsn_base s < 2 ^ 64"
  shows "numbered P (os_gsn_base s') (\<lambda>p. chan p @ channel (To_storage (fst p) (snd p)) out) \<and> os_gsn_base s' < 2 ^ 64"
proof (cases "\<exists>now. ev = Timer now \<and> (s', out) = start_epoch now s")
  case True
  then obtain now where now: "s' = fst (start_epoch now s)" "out = snd (start_epoch now s)"
    by (metis fst_conv snd_conv)
  have base: "os_gsn_base s' = os_gsn_base s + epoch_total s"
    using left by (simp add: now start_epoch_def u64_add_small numbers_left_def)
  have ok: "shards_ok s"
    using inv by (simp add: order_inv_def)
  have "numbered P (os_gsn_base s + epoch_total s) (\<lambda>p. chan p @ channel (To_storage (fst p) (snd p)) out)"
    using left P epoch_channel [OF ok]
    by (intro numbered_epoch [OF n inv]) (auto simp: numbers_left_def now)
  then show ?thesis
    using left by (simp add: base numbers_left_def)
next
  case False
  note step = order_handle_out [OF run inv calm]
  have "os_gsn_base s' = os_gsn_base s \<and> (\<forall>sid rid g asg. Storage_slots g asg \<notin> set (channel (To_storage sid rid) out))"
  proof (cases "\<exists>now. ev = Timer now")
    case True
    then obtain now where "ev = Timer now" by blast
    with run False show ?thesis
      by (auto simp: order_tick_def send_heartbeats_def in_channel split: if_splits)
  next
    case not_timer: False
    with step show ?thesis
      unfolding plain_out_def by blast
  qed
  then show ?thesis
    using b numbered_other [OF n, of "\<lambda>p. chan p @ channel (To_storage (fst p) (snd p)) out" "\<lambda>p. channel (To_storage (fst p) (snd p)) out"]
    by simp
qed

end
