(* ===== verification/Zip_System.thy ===== *)
theory Zip_System
  imports Numbers
begin

text \<open>
  The whole of ZipLog: the ordering service, clients, the storage servers and their subscriber threads, and the queues
  between them. A component takes a step of its own model; the messages of the ordering service and of a client
  to a server are taken in the order in which they were sent, the other messages at any time after they were sent.
  No peer is reported as failed.
\<close>

subsection \<open>Requests\<close>

fun request :: "message \<Rightarrow> (nat \<times> byte list) list" where
  "request (Storage_insert _ n data) = [(n, data)]"
| "request _ = []"

definition requests :: "message list \<Rightarrow> (nat \<times> byte list) list" where
  "requests ms = concat (map request ms)"

lemma requests_simps [simp]:
  "requests [] = []" "requests (xs @ ys) = requests xs @ requests ys" "requests [m] = request m"
  by (simp_all add: requests_def)

lemma take_Suc_snoc: "k < length xs \<Longrightarrow> take (Suc k) xs = take k xs @ [xs ! k]"
  by (rule take_Suc_conv_app_nth)

subsection \<open>The state and its steps\<close>

text \<open>
  Next to the components and what they have sent, the state
  has the number of messages that a server has taken from the ordering service and from each client, and the
  operations it has carried out.
\<close>

record system =
  sy_order :: order_state
  sy_order_out :: "send list"
  sy_client :: "u64 \<Rightarrow> client option"
  sy_client_out :: "u64 \<Rightarrow> send list"
  sy_server :: "server_id \<Rightarrow> storage_state"
  sy_server_out :: "server_id \<Rightarrow> send list"
  sy_history :: "server_id \<Rightarrow> op list"
  sy_control :: "server_id \<Rightarrow> nat"
  sy_taken :: "server_id \<Rightarrow> u64 \<Rightarrow> nat"
  sy_thread :: "server_id \<Rightarrow> nat \<Rightarrow> subscriber_thread"
  sy_thread_out :: "server_id \<Rightarrow> nat \<Rightarrow> send list"

abbreviation from_order :: "system \<Rightarrow> server_id \<Rightarrow> message list" where
  "from_order y p \<equiv> channel (To_storage (fst p) (snd p)) (sy_order_out y)"

abbreviation from_client :: "system \<Rightarrow> server_id \<Rightarrow> u64 \<Rightarrow> message list" where
  "from_client y p c \<equiv> channel (To_storage (fst p) (snd p)) (sy_client_out y c)"

text \<open>What the ordering service, and a client, can hear.\<close>

fun hears :: "system \<Rightarrow> server_id set \<Rightarrow> order_event \<Rightarrow> bool" where
  "hears y P (Received m _) \<longleftrightarrow>
     (\<exists>c. m \<in> set (channel To_order (sy_client_out y c))) \<or> (\<exists>p \<in> P. m \<in> set (channel To_order (sy_server_out y p))) \<or>
     (\<exists>sid. m = Subscriber_finished sid)"
| "hears y P (Peer_failed _ _) \<longleftrightarrow> False"
| "hears y P _ \<longleftrightarrow> True"

definition client_hears :: "system \<Rightarrow> server_id set \<Rightarrow> u64 \<Rightarrow> message \<Rightarrow> bool" where
  "client_hears y P c m \<longleftrightarrow>
     m \<in> set (channel (To_client c) (sy_order_out y)) \<or> (\<exists>p \<in> P. m \<in> set (channel (To_client c) (sy_server_out y p)))"

text \<open>A step of one client, which has sent \<open>out\<close>.\<close>

definition client_step :: "u64 \<Rightarrow> client \<Rightarrow> send list \<Rightarrow> system \<Rightarrow> system" where
  "client_step cid c' out y =
     y\<lparr>sy_client := (sy_client y)(cid \<mapsto> c'), sy_client_out := (sy_client_out y)(cid := sy_client_out y cid @ out)\<rparr>"

text \<open>The server carries out an event.\<close>

definition server_step :: "server_id \<Rightarrow> storage_event \<Rightarrow> storage_state \<Rightarrow> send list \<Rightarrow> system \<Rightarrow> system" where
  "server_step p ev s' out y =
     y\<lparr>sy_server := (sy_server y)(p := s'), sy_server_out := (sy_server_out y)(p := sy_server_out y p @ out),
       sy_history := (sy_history y)(p := sy_history y p @ effect ev (sy_server y p))\<rparr>"

text \<open>
  A run starts when all servers \<open>P\<close> have registered and no client has, with the subscribers that are connected then
  (\<open>subs\<close>); what the ordering service may have sent before that are epochs without slots, which change nothing. A client joins when it has connected to all servers of its shard.
\<close>

inductive sys_run :: "server_id set \<Rightarrow> (server_id \<Rightarrow> nat \<Rightarrow> (u64 \<times> nat) list) \<Rightarrow> system \<Rightarrow> bool" for P subs where
  sys_start: "order_run os out \<Longrightarrow> os_clients os = [] \<Longrightarrow>
    (\<forall>p \<in> P. control_ops (channel (To_storage (fst p) (snd p)) out) = []) \<Longrightarrow>
    (\<forall>(sid, rid) \<in> P. sid < NUM_SHARDS \<and> rid \<in> set (os_queues os ! sid)) \<Longrightarrow>
    (\<forall>p \<in> P. storage_history (srv p) [] \<and> st_shard_id (srv p) = fst p \<and> st_replica_id (srv p) = snd p \<and>
       (\<forall>c. \<not> sc_disconnected (client_of (srv p) c))) \<Longrightarrow>
    (\<forall>p \<in> P. \<forall>i < st_subscriber_threads (srv p). thread_at (srv p) (thr p i) 0 \<and> th_index (thr p i) = i \<and>
       th_subscribers (thr p i) = subs p i \<and> distinct (map fst (subs p i))) \<Longrightarrow>
    sys_run P subs \<lparr>sy_order = os, sy_order_out = [], sy_client = Map.empty, sy_client_out = \<lambda>_. [], sy_server = srv,
      sy_server_out = \<lambda>_. [], sy_history = \<lambda>_. [], sy_control = \<lambda>_. 0, sy_taken = \<lambda>_ _. 0,
      sy_thread = thr, sy_thread_out = \<lambda>_ _. []\<rparr>"
| sys_order: "sys_run P subs y \<Longrightarrow> hears y P ev \<Longrightarrow> numbers_left (sy_order y) \<Longrightarrow> order_handle ev (sy_order y) = Inr (os', out) \<Longrightarrow>
    sys_run P subs (y\<lparr>sy_order := os', sy_order_out := sy_order_out y @ out\<rparr>)"
| sys_join: "sys_run P subs y \<Longrightarrow> sy_client y cid = None \<Longrightarrow> cl_client_id c = cid \<Longrightarrow> \<not> cl_stopped c \<Longrightarrow> distinct (cl_queues c) \<Longrightarrow>
    (\<forall>(sid, rid) \<in> P. sid = cl_shard_id c \<longrightarrow> rid \<in> set (cl_queues c)) \<Longrightarrow>
    sys_run P subs (client_step cid c [] y)"
| sys_request: "sys_run P subs y \<Longrightarrow> sy_client y cid = Some c \<Longrightarrow> client_insert data response c = Inr c' \<Longrightarrow>
    sys_run P subs (client_step cid c' [] y)"
| sys_client: "sys_run P subs y \<Longrightarrow> sy_client y cid = Some c \<Longrightarrow>
    (\<forall>m \<in> batch_messages packets. client_hears y P cid m \<and> msg_type m \<noteq> CLIENT_STORAGE_INFO) \<Longrightarrow>
    client_iteration rnd stop now packets c = Inr (c', out) \<Longrightarrow>
    sys_run P subs (client_step cid c' out y)"
| sys_take_control: "sys_run P subs y \<Longrightarrow> p \<in> P \<Longrightarrow> sy_control y p < length (from_order y p) \<Longrightarrow>
    m = from_order y p ! sy_control y p \<Longrightarrow>
    storage_handle (St_control m len) (sy_server y p) = Some (Inr (s', out)) \<Longrightarrow>
    sys_run P subs ((server_step p (St_control m len) s' out y)\<lparr>sy_control := (sy_control y)(p := Suc (sy_control y p))\<rparr>)"
| sys_take_request: "sys_run P subs y \<Longrightarrow> p \<in> P \<Longrightarrow> sy_taken y p c < length (from_client y p c) \<Longrightarrow>
    m = from_client y p c ! sy_taken y p c \<Longrightarrow>
    storage_handle (St_client m len) (sy_server y p) = Some (Inr (s', out)) \<Longrightarrow>
    sys_run P subs ((server_step p (St_client m len) s' out y)
      \<lparr>sy_taken := (sy_taken y)(p := (sy_taken y p)(c := Suc (sy_taken y p c)))\<rparr>)"
| sys_server: "sys_run P subs y \<Longrightarrow> p \<in> P \<Longrightarrow>
    (\<exists>n m len. ev = St_accepted n m len \<and> msg_type m \<in> {CLIENT_INTRO, SUBSCRIBER_INTRO}) \<or>
    (\<exists>sid len. ev = St_control (Subscriber_finished sid) len) \<Longrightarrow>
    storage_handle ev (sy_server y p) = Some (Inr (s', out)) \<Longrightarrow> sys_run P subs (server_step p ev s' out y)"
| sys_thread: "sys_run P subs y \<Longrightarrow> p \<in> P \<Longrightarrow> i < st_subscriber_threads (sy_server y p) \<Longrightarrow>
    subscriber_iteration (sy_server y p) (sy_thread y p i) = Inr (t', out) \<Longrightarrow>
    sys_run P subs (y\<lparr>sy_thread := (sy_thread y)(p := (sy_thread y p)(i := t')),
      sy_thread_out := (sy_thread_out y)(p := (sy_thread_out y p)(i := sy_thread_out y p i @ out))\<rparr>)"

subsection \<open>The invariant\<close>

text \<open>A client has left when it has stopped and all servers of its shard have taken its farewell.\<close>

abbreviation gone :: "system \<Rightarrow> server_id \<Rightarrow> u64 \<Rightarrow> bool" where
  "gone y p c \<equiv> sc_disconnected (client_of (sy_server y p) c)"

definition left :: "server_id set \<Rightarrow> system \<Rightarrow> u64 \<Rightarrow> bool" where
  "left P y c \<longleftrightarrow> (\<exists>cl. sy_client y c = Some cl \<and> cl_stopped cl \<and> (\<forall>p \<in> P. fst p = cl_shard_id cl \<longrightarrow> gone y p c))"

definition order_part :: "server_id set \<Rightarrow> system \<Rightarrow> bool" where
  "order_part P y \<longleftrightarrow>
     order_inv (sy_order y) \<and> calm (sy_order y) \<and> os_gsn_base (sy_order y) < 2 ^ 64 \<and>
     numbered P (os_gsn_base (sy_order y)) (from_order y) \<and>
     (\<forall>p \<in> P. fst p < NUM_SHARDS \<and> snd p \<in> set (os_queues (sy_order y) ! fst p)) \<and>
     (\<forall>p \<in> P. \<forall>q \<in> P. fst p = fst q \<longrightarrow> from_order y p = from_order y q) \<and>
     (\<forall>p \<in> P. \<forall>m \<in> set (from_order y p).
        (\<exists>g asg. m = Storage_slots g asg) \<or> (\<exists>c. m = Storage_client_finalize c \<and> left P y c)) \<and>
     (\<forall>c sid rid. Storage_finished sid rid \<notin> set (channel (To_client c) (sy_order_out y)))"

definition client_side :: "server_id set \<Rightarrow> system \<Rightarrow> u64 \<Rightarrow> client \<Rightarrow> bool" where
  "client_side P y c cl \<longleftrightarrow>
     cl_client_id cl = c \<and> distinct (cl_queues cl) \<and>
     (\<exists>rs. (\<forall>(n, data) \<in> set rs. n < 2 ^ 64) \<and> (\<forall>p \<in> P. from_client y p c =
        (if fst p = cl_shard_id cl
         then map (\<lambda>(n, data). Storage_insert c n data) rs @ (if cl_stopped cl then [Client_finished c] else []) else []))) \<and>
     (\<forall>m \<in> set (channel To_order (sy_client_out y c)). (\<exists>n. m = Order_client_rate c n) \<or> m = Client_finished c \<and> left P y c) \<and>
     (\<forall>p \<in> P. fst p = cl_shard_id cl \<and> snd p \<notin> set (cl_queues cl) \<longrightarrow> gone y p c)"

definition client_part :: "server_id set \<Rightarrow> system \<Rightarrow> bool" where
  "client_part P y \<longleftrightarrow>
     (\<forall>c. sy_client y c = None \<longrightarrow> sy_client_out y c = []) \<and>
     (\<forall>c cl. sy_client y c = Some cl \<longrightarrow> client_side P y c cl)"

definition taken_ok :: "system \<Rightarrow> server_id \<Rightarrow> u64 \<Rightarrow> bool" where
  "taken_ok y p c \<longleftrightarrow>
     sy_taken y p c \<le> length (from_client y p c) \<and>
     requests_of c (sy_history y p) = requests (take (sy_taken y p c) (from_client y p c)) \<and>
     (gone y p c \<longrightarrow> sy_taken y p c = length (from_client y p c) \<and> (\<exists>cl. sy_client y c = Some cl \<and> cl_stopped cl))"

definition server_ok :: "system \<Rightarrow> server_id \<Rightarrow> bool" where
  "server_ok y p \<longleftrightarrow>
     storage_history (sy_server y p) (sy_history y p) \<and>
     st_shard_id (sy_server y p) = fst p \<and> st_replica_id (sy_server y p) = snd p \<and>
     sy_control y p \<le> length (from_order y p) \<and>
     filter is_control (sy_history y p) = control_ops (take (sy_control y p) (from_order y p)) \<and>
     (\<forall>c. taken_ok y p c) \<and>
     follows (control_ops (from_order y p)) (\<lambda>c. requests (from_client y p c)) (sy_history y p) \<and>
     channel To_order (sy_server_out y p) = [] \<and>
     (\<forall>c sid rid. Storage_finished sid rid \<in> set (channel (To_client c) (sy_server_out y p)) \<longrightarrow>
        (sid, rid) = p \<and> gone y p c)"

definition system_inv :: "server_id set \<Rightarrow> system \<Rightarrow> bool" where
  "system_inv P y \<longleftrightarrow> order_part P y \<and> client_part P y \<and> (\<forall>p \<in> P. server_ok y p)"

lemma follows_mono:
  assumes "follows ctl ins ops" and "prefix ctl ctl'" and "\<And>c. prefix (ins c) (ins' c)"
    and "\<And>c. Op_close c \<in> set ops \<Longrightarrow> ins' c = ins c"
  shows "follows ctl' ins' ops"
  using assms
proof (induction rule: follows.induct)
  case (follows_close ops c)
  then show ?case
    by (auto intro!: follows.follows_close intro: prefix_order.trans)
qed (auto intro!: follows.intros intro: prefix_order.trans)

lemma left_drained:
  assumes "system_inv P y" and "left P y c" and "p \<in> P"
  shows "sy_taken y p c = length (from_client y p c)"
proof -
  obtain cl where cl: "sy_client y c = Some cl" "\<forall>p \<in> P. fst p = cl_shard_id cl \<longrightarrow> gone y p c"
    using assms(2) by (auto simp: left_def)
  have t: "taken_ok y p c"
    using assms(1,3) by (simp add: system_inv_def server_ok_def)
  show ?thesis
  proof (cases "fst p = cl_shard_id cl")
    case True
    with cl(2) t assms(3) show ?thesis by (simp add: taken_ok_def)
  next
    case False
    have "client_side P y c cl"
      using assms(1) cl(1) by (simp add: system_inv_def client_part_def)
    with False assms(3) have "from_client y p c = []"
      by (auto simp: client_side_def)
    with t show ?thesis by (simp add: taken_ok_def)
  qed
qed

text \<open>A close that a server has carried out is of a client that has left.\<close>

lemma closed_left:
  assumes inv: "system_inv P y" and p: "p \<in> P" and c: "Op_close c \<in> set (sy_history y p)"
  shows "left P y c"
proof -
  have ok: "server_ok y p" and o: "order_part P y"
    using inv p by (simp_all add: system_inv_def)
  have "Op_close c \<in> set (filter is_control (sy_history y p))"
    using c by simp
  also have "filter is_control (sy_history y p) = control_ops (take (sy_control y p) (from_order y p))"
    using ok by (simp add: server_ok_def)
  finally obtain m where m: "m \<in> set (take (sy_control y p) (from_order y p))" "Op_close c \<in> set (control_op m)"
    by (auto simp: control_ops_def)
  then have "m \<in> set (from_order y p)"
    by (auto dest: in_set_takeD)
  with o p m(2) show ?thesis
    unfolding order_part_def by (fastforce split: if_splits)
qed

subsection \<open>Every step keeps it\<close>

text \<open>The parts of the ordering service and of the clients look at the servers only for who is gone, which stays so.\<close>

lemma left_stable:
  assumes "left P y c" and "\<And>cl. sy_client y c = Some cl \<Longrightarrow> cl_stopped cl \<Longrightarrow>
      \<exists>cl'. sy_client y' c = Some cl' \<and> cl_stopped cl' \<and> cl_shard_id cl' = cl_shard_id cl"
    and "\<And>p. p \<in> P \<Longrightarrow> gone y p c \<Longrightarrow> gone y' p c"
  shows "left P y' c"
  using assms unfolding left_def by metis

lemma order_part_stable:
  assumes "order_part P y" and "sy_order y' = sy_order y" and "sy_order_out y' = sy_order_out y"
    and "\<And>c. left P y c \<Longrightarrow> left P y' c"
  shows "order_part P y'"
  using assms(1,4) unfolding order_part_def assms(2,3) by blast

lemma client_side_stable:
  assumes "client_side P y c cl" and "sy_client_out y' c = sy_client_out y c"
    and "left P y c \<Longrightarrow> left P y' c" and "\<And>p. p \<in> P \<Longrightarrow> gone y p c \<Longrightarrow> gone y' p c"
  shows "client_side P y' c cl"
  using assms unfolding client_side_def by auto

lemma client_part_stable:
  assumes "client_part P y" and "sy_client_out y' = sy_client_out y" and "sy_client y' = sy_client y"
    and "\<And>c. left P y c \<Longrightarrow> left P y' c" and "\<And>p c. p \<in> P \<Longrightarrow> gone y p c \<Longrightarrow> gone y' p c"
  shows "client_part P y'"
  using assms client_side_stable [of P y _ _ y'] unfolding client_part_def by auto

lemma taken_ok_cong:
  "taken_ok y p c \<Longrightarrow> sy_taken y' p c = sy_taken y p c \<Longrightarrow> sy_client_out y' c = sy_client_out y c \<Longrightarrow>
     sy_history y' p = sy_history y p \<Longrightarrow> sy_server y' p = sy_server y p \<Longrightarrow> sy_client y' c = sy_client y c \<Longrightarrow> taken_ok y' p c"
  by (simp add: taken_ok_def)

lemma order_partD:
  assumes "order_part P y" and "p \<in> P"
  shows "fst p < NUM_SHARDS" and "snd p \<in> set (os_queues (sy_order y) ! fst p)"
    and "m \<in> set (from_order y p) \<Longrightarrow> (\<exists>g asg. m = Storage_slots g asg) \<or> (\<exists>c. m = Storage_client_finalize c \<and> left P y c)"
    and "q \<in> P \<Longrightarrow> fst p = fst q \<Longrightarrow> from_order y p = from_order y q"
    and "numbered P (os_gsn_base (sy_order y)) (from_order y)" and "os_gsn_base (sy_order y) < 2 ^ 64"
  using assms unfolding order_part_def by blast+

lemma slots_wire_ok:
  assumes "numbered P base chan" and "p \<in> P" and "Storage_slots g asg \<in> set (chan p)"
  shows "wire_ok (Storage_slots g asg) s"
  using assms unfolding numbered_def wire_ok_def by simp

lemma client_said:
  assumes c: "client_part P y" and m: "m \<in> set (channel To_order (sy_client_out y d))"
  shows "(\<exists>n. m = Order_client_rate d n) \<or> m = Client_finished d \<and> left P y d"
proof (cases "sy_client y d")
  case None
  with c have "sy_client_out y d = []" by (simp add: client_part_def)
  with m show ?thesis by simp
next
  case (Some cl)
  with c have "client_side P y d cl" by (simp add: client_part_def)
  with m show ?thesis by (simp add: client_side_def)
qed

lemma order_preserves:
  assumes inv: "system_inv P y" and h: "hears y P ev" and nums: "numbers_left (sy_order y)" and run: "order_handle ev (sy_order y) = Inr (os', out)"
  shows "system_inv P (y\<lparr>sy_order := os', sy_order_out := sy_order_out y @ out\<rparr>)" (is "system_inv P ?y")
proof -
  have o: "order_part P y" and c: "client_part P y" and s: "\<And>p. p \<in> P \<Longrightarrow> server_ok y p"
    using inv by (simp_all add: system_inv_def)
  note said = client_said [OF c]
  have quiet: "channel To_order (sy_server_out y p) = []" if "p \<in> P" for p
    using s [OF that] by (simp add: server_ok_def)
  have ev: "calm_event ev"
    using h said quiet by (cases ev) fastforce+
  have parts: "order_inv (sy_order y)" "calm (sy_order y)" "numbered P (os_gsn_base (sy_order y)) (from_order y)" "os_gsn_base (sy_order y) < 2 ^ 64"
    using o by (simp_all add: order_part_def)
  note numbers = order_numbers [OF run parts(1,2) ev nums _ parts(3,4)]
  from order_handle_out [OF run parts(1,2) ev] have step: "even_out (sy_order y) out" "plain_out ev out" "calm os'"
      "\<forall>sid < NUM_SHARDS. set (os_queues (sy_order y) ! sid) \<subseteq> set (os_queues os' ! sid)"
    by simp_all
  have fin: "left P y d" if "ev = Received (Client_finished d) len" for d len
    using h said [of "Client_finished d"] quiet that by fastforce
  have left': "left P ?y d = left P y d" for d
    by (simp add: left_def)
  have "order_part P ?y"
    unfolding order_part_def left'
  proof (intro conjI ballI allI impI)
    fix p q assume pq: "p \<in> P" "q \<in> P" "fst p = fst q"
    then have "channel (To_storage (fst p) (snd p)) out = channel (To_storage (fst q) (snd q)) out"
      using step(1) order_partD(1,2) [OF o pq(1)] order_partD(2) [OF o pq(2)] unfolding even_out_def by metis
    then show "from_order ?y p = from_order ?y q"
      using order_partD(4) [OF o pq] by simp
  next
    fix p m assume p: "p \<in> P" and "m \<in> set (from_order ?y p)"
    then consider "m \<in> set (from_order y p)" | "m \<in> set (channel (To_storage (fst p) (snd p)) out)" by auto
    then show "(\<exists>g asg. m = Storage_slots g asg) \<or> (\<exists>c. m = Storage_client_finalize c \<and> left P y c)"
      by cases (use order_partD(3) [OF o p] step(2) fin in \<open>unfold plain_out_def, blast+\<close>)
  next
    fix p assume "p \<in> P"
    with order_partD(1,2) [OF o this] step(4) show "fst p < NUM_SHARDS" "snd p \<in> set (os_queues (sy_order ?y) ! fst p)"
      by auto
  next
    fix c sid rid
    show "Storage_finished sid rid \<notin> set (channel (To_client c) (sy_order_out ?y))"
      using o step(1) by (simp add: order_part_def even_out_def)
  next
    show "order_inv (sy_order ?y)"
      using o order_handle_inv [OF _ run] by (simp add: order_part_def)
    show "numbered P (os_gsn_base (sy_order ?y)) (from_order ?y)" "os_gsn_base (sy_order ?y) < 2 ^ 64"
      using numbers order_partD(1,2) [OF o] by simp_all
  qed (use step in simp)
  moreover have "client_part P ?y"
    by (rule client_part_stable [OF c]) (simp_all add: left')
  moreover have "server_ok ?y p" if "p \<in> P" for p
    using s [OF that] follows_mono [of "control_ops (from_order y p)" "\<lambda>c. requests (from_client y p c)" "sy_history y p"
        "control_ops (from_order ?y p)"]
    by (auto simp: server_ok_def taken_ok_def)
  ultimately show ?thesis
    by (simp add: system_inv_def)
qed

lemma client_step_simps [simp]:
  "sy_client (client_step cid c' out y) = (sy_client y)(cid \<mapsto> c')"
  "sy_client_out (client_step cid c' out y) = (sy_client_out y)(cid := sy_client_out y cid @ out)"
  "sy_order (client_step cid c' out y) = sy_order y" "sy_order_out (client_step cid c' out y) = sy_order_out y"
  "sy_server (client_step cid c' out y) = sy_server y" "sy_server_out (client_step cid c' out y) = sy_server_out y"
  "sy_history (client_step cid c' out y) = sy_history y" "sy_control (client_step cid c' out y) = sy_control y"
  "sy_taken (client_step cid c' out y) = sy_taken y"
  by (simp_all add: client_step_def)

lemma server_okD:
  assumes "server_ok y p"
  shows "storage_history (sy_server y p) (sy_history y p)" and "taken_ok y p c" and "channel To_order (sy_server_out y p) = []"
    and "follows (control_ops (from_order y p)) (\<lambda>c. requests (from_client y p c)) (sy_history y p)"
    and "Storage_finished sid rid \<in> set (channel (To_client c) (sy_server_out y p)) \<Longrightarrow> (sid, rid) = p \<and> gone y p c"
  using assms unfolding server_ok_def by blast+

lemma gone_stopped: "system_inv P y \<Longrightarrow> p \<in> P \<Longrightarrow> gone y p c \<Longrightarrow> \<exists>cl. sy_client y c = Some cl \<and> cl_stopped cl"
  using server_okD(2) [of y p c] by (auto simp: system_inv_def taken_ok_def)

lemma client_step_preserves:
  assumes inv: "system_inv P y" and side: "client_side P (client_step cid c' out y) cid c'"
    and keep: "\<And>cl. sy_client y cid = Some cl \<Longrightarrow> cl_stopped cl \<Longrightarrow>
      cl_stopped c' \<and> cl_shard_id c' = cl_shard_id cl \<and> (\<forall>sid rid. channel (To_storage sid rid) out = [])"
  shows "system_inv P (client_step cid c' out y)" (is "system_inv P ?y")
proof -
  have left': "left P ?y c" if "left P y c" for c
    by (rule left_stable [OF that]) (use keep in auto)
  have "order_part P ?y"
    using inv by (intro order_part_stable [of P y ?y]) (auto simp: system_inv_def left')
  moreover have "client_side P ?y c cl" if "sy_client ?y c = Some cl" for c cl
  proof (cases "c = cid")
    case True
    with that side show ?thesis by simp
  next
    case False
    with that inv have "client_side P y c cl" by (simp add: system_inv_def client_part_def)
    then show ?thesis by (rule client_side_stable) (use False left' in auto)
  qed
  then have "client_part P ?y"
    using inv by (auto simp: system_inv_def client_part_def)
  moreover have "server_ok ?y p" if p: "p \<in> P" for p
  proof -
    have s: "server_ok y p" using inv p by (simp add: system_inv_def)
    have still: "channel (To_storage sid rid) out = [] \<and> cl_stopped c'" if "\<exists>cl. sy_client y cid = Some cl \<and> cl_stopped cl" for sid rid
      using that keep by blast
    have "taken_ok ?y p c" for c
      using server_okD(2) [OF s, of c] still by (cases "c = cid") (auto simp: taken_ok_def)
    moreover have "follows (control_ops (from_order ?y p)) (\<lambda>c. requests (from_client ?y p c)) (sy_history ?y p)"
    proof (rule follows_mono)
      show "follows (control_ops (from_order y p)) (\<lambda>c. requests (from_client y p c)) (sy_history ?y p)"
        using server_okD(4) [OF s] by simp
      show "requests (from_client ?y p c) = requests (from_client y p c)" if "Op_close c \<in> set (sy_history ?y p)" for c
        using closed_left [OF inv p, of c] that still by (auto simp: left_def)
    qed auto
    ultimately show ?thesis
      using s by (simp add: server_ok_def)
  qed
  ultimately show ?thesis
    by (simp add: system_inv_def)
qed

lemma join_preserves:
  assumes inv: "system_inv P y" and new: "sy_client y cid = None" and c: "cl_client_id c = cid" "\<not> cl_stopped c" "distinct (cl_queues c)"
    "\<forall>(sid, rid) \<in> P. sid = cl_shard_id c \<longrightarrow> rid \<in> set (cl_queues c)"
  shows "system_inv P (client_step cid c [] y)"
proof (rule client_step_preserves [OF inv])
  have out: "sy_client_out y cid = []"
    using inv new by (simp add: system_inv_def client_part_def)
  show "client_side P (client_step cid c [] y) cid c"
    unfolding client_side_def using c by (auto simp: out intro: exI [of _ "[]"])
qed (use new in simp)

lemma request_preserves:
  assumes inv: "system_inv P y" and old: "sy_client y cid = Some c" and run: "client_insert data response c = Inr c'"
  shows "system_inv P (client_step cid c' [] y)"
proof -
  have same: "cl_client_id c' = cl_client_id c" "cl_shard_id c' = cl_shard_id c" "cl_stopped c' = cl_stopped c" "cl_queues c' = cl_queues c"
    using run by (auto simp: client_insert_def split: if_splits)
  have "client_side P y cid c"
    using inv old by (simp add: system_inv_def client_part_def)
  then have "client_side P y cid c'"
    unfolding client_side_def same .
  then have "client_side P (client_step cid c' [] y) cid c'"
    by (rule client_side_stable) (use old same in \<open>auto elim!: left_stable\<close>)
  then show ?thesis
    by (rule client_step_preserves [OF inv]) (use old same in auto)
qed

lemma heard_goodbye:
  assumes "system_inv P y" and "client_hears y P c (Storage_finished sid rid)"
  shows "(sid, rid) \<in> P \<and> gone y (sid, rid) c"
proof -
  have "Storage_finished sid rid \<notin> set (channel (To_client c) (sy_order_out y))"
    using assms(1) by (simp add: system_inv_def order_part_def)
  then obtain p where p: "p \<in> P" "Storage_finished sid rid \<in> set (channel (To_client c) (sy_server_out y p))"
    using assms(2) by (auto simp: client_hears_def)
  have "server_ok y p"
    using assms(1) p(1) by (simp add: system_inv_def)
  from server_okD(5) [OF this p(2)] p(1) show ?thesis
    by auto
qed

lemma departed_gone:
  assumes inv: "system_inv P y" and packets: "\<forall>m \<in> batch_messages packets. client_hears y P cid m"
    and p: "p \<in> P" "fst p = sid" "snd p \<in> set queues" "snd p \<notin> set (after_packets sid packets queues)"
  shows "gone y p cid"
proof -
  have "Storage_finished sid (snd p) \<in> batch_messages packets"
    by (rule after_packets_dropped [OF p(3,4)])
  then show ?thesis
    using heard_goodbye [OF inv, of cid sid "snd p"] packets p(2) by (metis prod.collapse)
qed

text \<open>What a client has sent to the servers of its shard: inserts, and the farewell last.\<close>

definition sent_to_servers :: "server_id set \<Rightarrow> system \<Rightarrow> u64 \<Rightarrow> u64 \<Rightarrow> bool \<Rightarrow> (nat \<times> byte list) list \<Rightarrow> bool" where
  "sent_to_servers P y cid sid stopped rs \<longleftrightarrow> (\<forall>(n, data) \<in> set rs. n < 2 ^ 64) \<and>
     (\<forall>p \<in> P. from_client y p cid =
       (if fst p = sid then map (\<lambda>(n, data). Storage_insert cid n data) rs @ (if stopped then [Client_finished cid] else []) else []))"

lemma sent_to_servers_step:
  assumes sent: "sent_to_servers P y cid sid stopped rs"
    and here: "\<And>p. p \<in> P \<Longrightarrow> fst p = sid \<Longrightarrow> \<not> stopped \<Longrightarrow> snd p \<in> set queues"
    and ms: "\<And>s r. channel (To_storage s r) out = (if s = sid \<and> r \<in> set queues then ms else [])"
    and what: "ms = [] \<and> stopped' = stopped \<or>
       \<not> stopped \<and> \<not> stopped' \<and> (\<exists>n data. n < 2 ^ 64 \<and> ms = [Storage_insert cid n data]) \<or>
       \<not> stopped \<and> stopped' \<and> ms = [Client_finished cid]"
  shows "sent_to_servers P (client_step cid c' out y) cid sid stopped' (rs @ requests ms)"
proof -
  have "from_client (client_step cid c' out y) p cid = (if fst p = sid
      then map (\<lambda>(n, data). Storage_insert cid n data) (rs @ requests ms) @ (if stopped' then [Client_finished cid] else []) else [])"
    if "p \<in> P" for p
    using sent here [OF that] what that by (auto simp: sent_to_servers_def ms)
  then show ?thesis
    using sent what by (auto simp: sent_to_servers_def)
qed

lemma client_preserves:
  assumes inv: "system_inv P y" and old: "sy_client y cid = Some c"
    and packets: "\<forall>m \<in> batch_messages packets. client_hears y P cid m \<and> msg_type m \<noteq> CLIENT_STORAGE_INFO"
    and run: "client_iteration rnd stop now packets c = Inr (c', out)"
  shows "system_inv P (client_step cid c' out y)" (is "system_inv P ?y")
proof -
  have "client_side P y cid c"
    using inv old by (simp add: system_inv_def client_part_def)
  then obtain rs where c: "cl_client_id c = cid" "distinct (cl_queues c)"
    and sent: "sent_to_servers P y cid (cl_shard_id c) (cl_stopped c) rs"
    and away: "\<And>p. p \<in> P \<Longrightarrow> fst p = cl_shard_id c \<Longrightarrow> snd p \<notin> set (cl_queues c) \<Longrightarrow> gone y p cid"
    unfolding client_side_def sent_to_servers_def by blast
  have "no_storage_info packets" and heard: "\<forall>m \<in> batch_messages packets. client_hears y P cid m"
    using packets by blast+
  note it = client_iteration_out [OF run c(2) this(1)]
  have c': "cl_client_id c' = cid" "cl_shard_id c' = cl_shard_id c" "cl_queues c' = after_packets (cl_shard_id c) packets (cl_queues c)"
    using it(1) c(1) by auto
  obtain ms where ms: "\<And>sid rid. channel (To_storage sid rid) out = (if sid = cl_shard_id c \<and> rid \<in> set (cl_queues c) then ms else [])"
    and what: "ms = [] \<and> cl_stopped c' = cl_stopped c \<or>
       \<not> cl_stopped c \<and> \<not> cl_stopped c' \<and> (\<exists>n data. n < 2 ^ 64 \<and> ms = [Storage_insert cid n data]) \<or>
       \<not> cl_stopped c \<and> cl_stopped c' \<and> ms = [Client_finished cid]"
    using it(2) unfolding c(1) by metis
  have stay: "cl_stopped c' \<and> ms = []" if "cl_stopped c"
    using what that by blast
  have gone': "gone y p cid" if "p \<in> P" "fst p = cl_shard_id c" "snd p \<notin> set (cl_queues c')" for p
    using departed_gone [OF inv heard that(1,2)] away [OF that(1,2)] that(3) c'(3) by auto
  have here: "snd p \<in> set (cl_queues c)" if "p \<in> P" "fst p = cl_shard_id c" "\<not> cl_stopped c" for p
    using gone_stopped [OF inv that(1), of cid] away [OF that(1,2)] old that(3) by auto
  have left': "left P ?y cid" if "left P y cid"
    by (rule left_stable [OF that]) (use old stay c'(2) in auto)
  have order: "(\<exists>n. m = Order_client_rate cid n) \<or> m = Client_finished cid \<and> left P ?y cid"
    if m: "m \<in> set (channel To_order (sy_client_out ?y cid))" for m
  proof (cases "m \<in> set (channel To_order (sy_client_out y cid))")
    case True
    then show ?thesis
      using client_said [of P y m cid] inv left' by (auto simp: system_inv_def)
  next
    case False
    with m have "m \<in> set (channel To_order out)" by auto
    from it(3) [OF this] c(1) consider "\<exists>n. m = Order_client_rate cid n"
      | rid where "m = Client_finished cid" "cl_queues c' = []" "Storage_finished (cl_shard_id c) rid \<in> batch_messages packets" by blast
    then show ?thesis
    proof cases
      case 2
      with heard heard_goodbye [OF inv] gone_stopped [OF inv] old have "cl_stopped c"
        by fastforce
      with stay gone' 2(1,2) c'(2) show ?thesis
        by (simp add: left_def)
    qed blast
  qed
  have "\<exists>rs. sent_to_servers P ?y cid (cl_shard_id c) (cl_stopped c') rs"
    using sent_to_servers_step [OF sent here ms what] by blast
  then have "client_side P ?y cid c'"
    unfolding client_side_def c'(2) sent_to_servers_def
    using order c c' gone' it(1) client_iteration_queues [OF run] by auto
  then show ?thesis
    by (rule client_step_preserves [OF inv]) (use old stay c'(2) ms in auto)
qed

text \<open>A step of one server: the rest of the state follows from who is gone then.\<close>

lemma server_step_simps [simp]:
  "sy_client (server_step p ev s' out y) = sy_client y" "sy_client_out (server_step p ev s' out y) = sy_client_out y"
  "sy_order (server_step p ev s' out y) = sy_order y" "sy_order_out (server_step p ev s' out y) = sy_order_out y"
  "sy_server (server_step p ev s' out y) = (sy_server y)(p := s')"
  "sy_server_out (server_step p ev s' out y) = (sy_server_out y)(p := sy_server_out y p @ out)"
  "sy_history (server_step p ev s' out y) = (sy_history y)(p := sy_history y p @ effect ev (sy_server y p))"
  "sy_control (server_step p ev s' out y) = sy_control y" "sy_taken (server_step p ev s' out y) = sy_taken y"
  by (simp_all add: server_step_def)

lemma server_step_preserves:
  assumes inv: "system_inv P y" and p: "p \<in> P" and q: "quiet_event ev"
    and run: "storage_handle ev (sy_server y p) = Some (Inr (s', out))"
    and y': "y' = (server_step p ev s' out y)\<lparr>sy_control := (sy_control y)(p := k), sy_taken := (sy_taken y)(p := n)\<rparr>"
    and ok: "server_ok y' p"
  shows "system_inv P y'"
proof -
  have same: "sy_order y' = sy_order y" "sy_order_out y' = sy_order_out y" "sy_client_out y' = sy_client_out y" "sy_client y' = sy_client y"
    by (simp_all add: y')
  have gone': "gone y' r c" if "gone y r c" for r c
    using that storage_handle_out [OF run q] by (cases "r = p") (simp_all add: y')
  then have left': "left P y' c" if "left P y c" for c
    by (intro left_stable [OF that]) (simp_all add: y')
  have "order_part P y'"
    using inv by (intro order_part_stable [OF _ same(1,2) left']) (simp_all add: system_inv_def)
  moreover have "client_part P y'"
    using inv by (intro client_part_stable [OF _ same(3,4) left' gone']) (simp_all add: system_inv_def)
  moreover have "server_ok y' r" if "r \<in> P" for r
  proof (cases "r = p")
    case False
    then have "server_ok y' r = server_ok y r"
      by (simp add: server_ok_def taken_ok_def y')
    with inv that show ?thesis by (simp add: system_inv_def)
  qed (use ok in simp)
  ultimately show ?thesis
    by (simp add: system_inv_def)
qed

text \<open>What is left to show of the server itself.\<close>

lemma server_ok_step:
  assumes ok: "server_ok y p" and q: "quiet_event ev" "wire_ok (event_message ev) (sy_server y p)"
    and run: "storage_handle ev (sy_server y p) = Some (Inr (s', out))"
    and y': "y' = (server_step p ev s' out y)\<lparr>sy_control := (sy_control y)(p := k), sy_taken := (sy_taken y)(p := n)\<rparr>"
    and control: "k \<le> length (from_order y p)"
      "filter is_control (sy_history y p @ effect ev (sy_server y p)) = control_ops (take k (from_order y p))"
    and taken: "\<And>c. n c \<le> length (from_client y p c)"
      "\<And>c. requests_of c (sy_history y p @ effect ev (sy_server y p)) = requests (take (n c) (from_client y p c))"
      "\<And>c. gone y p c \<or> farewell ev c \<Longrightarrow> n c = length (from_client y p c) \<and> (\<exists>cl. sy_client y c = Some cl \<and> cl_stopped cl)"
    and f: "follows (control_ops (from_order y p)) (\<lambda>c. requests (from_client y p c)) (sy_history y p @ effect ev (sy_server y p))"
  shows "server_ok y' p"
proof -
  note out = storage_handle_out [OF run q(1)]
  have "storage_history s' (sy_history y p @ effect ev (sy_server y p))"
    by (rule history_step [OF server_okD(1) [OF ok] q(2) run])
  moreover have "taken_ok y' p c" for c
    using taken [of c] out by (simp add: taken_ok_def y')
  moreover have "(sid, rid) = p \<and> gone y' p c"
    if "Storage_finished sid rid \<in> set (channel (To_client c) (sy_server_out y' p))" for c sid rid
  proof -
    have ids: "(st_shard_id (sy_server y p), st_replica_id (sy_server y p)) = p"
      using ok by (simp add: server_ok_def)
    from that consider "Storage_finished sid rid \<in> set (channel (To_client c) (sy_server_out y p))"
      | "Storage_finished sid rid \<in> set (channel (To_client c) out)" by (auto simp: y')
    then show ?thesis
      by cases (use server_okD(5) [OF ok, of sid rid c] out ids in \<open>simp_all add: y'\<close>)
  qed
  ultimately show ?thesis
    using ok out control f by (simp add: server_ok_def y')
qed

lemma control_wire:
  assumes inv: "system_inv P y" and p: "p \<in> P" and m: "m \<in> set (from_order y p)"
  shows "wire_ok m s" and "quiet_event (St_control m len)"
proof -
  have o: "order_part P y" using inv by (simp add: system_inv_def)
  show "wire_ok m s" "quiet_event (St_control m len)"
    using order_partD(3) [OF o p m] slots_wire_ok [OF order_partD(5) [OF o p] p] m by (auto simp: wire_ok_def)
qed

lemma control_preserves:
  assumes inv: "system_inv P y" and p: "p \<in> P" and k: "sy_control y p < length (from_order y p)"
    and m: "m = from_order y p ! sy_control y p"
    and run: "storage_handle (St_control m len) (sy_server y p) = Some (Inr (s', out))"
  shows "system_inv P ((server_step p (St_control m len) s' out y)\<lparr>sy_control := (sy_control y)(p := Suc (sy_control y p))\<rparr>)" (is "system_inv P ?y")
proof -
  have ok: "server_ok y p" and o: "order_part P y" using inv p by (simp_all add: system_inv_def)
  have in_chan: "m \<in> set (from_order y p)" using k m by simp
  note what = order_partD(3) [OF o p this]
  note wire = control_wire(1) [OF inv p in_chan]
  have eff: "effect (St_control m len) (sy_server y p) = control_op m"
    using what by auto
  have next': "control_ops (take (Suc (sy_control y p)) (from_order y p)) = filter is_control (sy_history y p) @ control_op m"
    using ok k by (simp add: server_ok_def take_Suc_snoc m)
  have pre: "prefix (filter is_control (sy_history y p) @ control_op m) (control_ops (from_order y p))"
    unfolding next' [symmetric] by (metis append_take_drop_id control_ops_simps(2) prefixI)
  have y: "?y = (server_step p (St_control m len) s' out y)\<lparr>sy_control := (sy_control y)(p := Suc (sy_control y p)),
      sy_taken := (sy_taken y)(p := sy_taken y p)\<rparr>"
    by (simp add: server_step_def)
  have f: "follows (control_ops (from_order y p)) (\<lambda>c. requests (from_client y p c)) (sy_history y p @ control_op m)"
    using what server_okD(4) [OF ok] pre left_drained [OF inv _ p] server_okD(2) [OF ok]
    by (auto intro!: follows.intros simp: taken_ok_def)
  have t: "taken_ok y p c" for c using server_okD(2) [OF ok] .
  show ?thesis
  proof (rule server_step_preserves [OF inv p _ run y], goal_cases)
    case 2
    show ?case
      by (rule server_ok_step [OF ok _ _ run y]) (use what wire k next' t f eff in \<open>auto simp: taken_ok_def\<close>)
  qed (use what in auto)
qed

lemma server_log_length:
  assumes inv: "system_inv P y" and p: "p \<in> P"
  shows "length (cidx (st_log (sy_server y p)) c) < 2 ^ 64"
proof -
  have ok: "server_ok y p" and o: "order_part P y"
    using inv p by (simp_all add: system_inv_def)
  have "length (cidx (st_log (sy_server y p)) c) \<le> length (al_slots (abs_of (st_log (sy_server y p))))"
    using length_filter_le [of _ "[0..<l_current_entries (st_log (sy_server y p))]"] by (simp add: cidx_def abs_of_def)
  also have "\<dots> = length (ops_slots (filter is_control (sy_history y p)))"
    using history_abs [OF server_okD(1) [OF ok]] by (simp add: abs_run_slots ops_slots_control)
  also have "\<dots> \<le> length (ops_slots (control_ops (from_order y p)))"
    using ok by (simp add: server_ok_def) (metis append_take_drop_id control_ops_simps(2) le_add1 length_append ops_slots_simps(2))
  also have "\<dots> < 2 ^ 64"
    using numbered_length [OF order_partD(5) [OF o p] p] order_partD(6) [OF o p] by (rule le_less_trans)
  finally show ?thesis .
qed

lemma from_client_cases:
  assumes inv: "system_inv P y" and p: "p \<in> P" and n: "n < length (from_client y p c)"
  obtains m data where "from_client y p c ! n = Storage_insert c m data" "m < 2 ^ 64"
    | cl where "from_client y p c ! n = Client_finished c" "Suc n = length (from_client y p c)" "sy_client y c = Some cl" "cl_stopped cl"
proof -
  obtain cl where cl: "sy_client y c = Some cl"
    using inv n by (cases "sy_client y c") (auto simp: system_inv_def client_part_def)
  with inv have "client_side P y c cl"
    by (simp add: system_inv_def client_part_def)
  with p n obtain rs where rs: "from_client y p c =
      map (\<lambda>(n, data). Storage_insert c n data) rs @ (if cl_stopped cl then [Client_finished c] else [])"
      "\<forall>(n, data) \<in> set rs. n < 2 ^ 64"
    unfolding client_side_def by (metis list.size(3) not_less_zero)
  show thesis
  proof (cases "n < length rs")
    case True
    with that(1) rs(2) nth_mem [OF True] show ?thesis
      by (cases "rs ! n") (auto simp: rs(1) nth_append)
  next
    case False
    with n that(2) [OF _ _ cl] show ?thesis
      by (auto simp: rs(1) nth_append less_Suc_eq split: if_splits)
  qed
qed

lemma request_wire:
  assumes inv: "system_inv P y" and p: "p \<in> P" and n: "n < length (from_client y p c)"
  shows "wire_ok (from_client y p c ! n) (sy_server y p)" and "quiet_event (St_client (from_client y p c ! n) len)"
proof -
  have "wire_ok (from_client y p c ! n) (sy_server y p) \<and> quiet_event (St_client (from_client y p c ! n) len)"
    using from_client_cases [OF inv p n]
  proof cases
    case (1 m data)
    with server_log_length [OF inv p, of c] show ?thesis by (simp add: wire_ok_def)
  next
    case (2 cl)
    then show ?thesis by (simp add: wire_ok_def)
  qed
  then show "wire_ok (from_client y p c ! n) (sy_server y p)" "quiet_event (St_client (from_client y p c ! n) len)"
    by simp_all
qed

lemma request_taken_preserves:
  assumes inv: "system_inv P y" and p: "p \<in> P" and k: "sy_taken y p c < length (from_client y p c)"
    and m: "m = from_client y p c ! sy_taken y p c"
    and run: "storage_handle (St_client m len) (sy_server y p) = Some (Inr (s', out))"
  shows "system_inv P ((server_step p (St_client m len) s' out y)
      \<lparr>sy_taken := (sy_taken y)(p := (sy_taken y p)(c := Suc (sy_taken y p c)))\<rparr>)" (is "system_inv P ?y")
proof -
  have ok: "server_ok y p" using inv p by (simp add: system_inv_def)
  have t: "taken_ok y p d" for d using server_okD(2) [OF ok] .
  have here: "\<not> gone y p c" using t [of c] k by (auto simp: taken_ok_def)
  have next': "requests (take (Suc (sy_taken y p c)) (from_client y p c)) = requests_of c (sy_history y p) @ request m"
    using t [of c] k by (simp add: taken_ok_def take_Suc_snoc m)
  have pre: "prefix (requests_of c (sy_history y p) @ request m) (requests (from_client y p c))"
    unfolding next' [symmetric] by (metis append_take_drop_id requests_simps(2) prefixI)
  have y: "?y = (server_step p (St_client m len) s' out y)\<lparr>sy_control := (sy_control y)(p := sy_control y p),
      sy_taken := (sy_taken y)(p := (sy_taken y p)(c := Suc (sy_taken y p c)))\<rparr>"
    by (simp add: server_step_def)
  have ctl: "sy_control y p \<le> length (from_order y p)" "filter is_control (sy_history y p) = control_ops (take (sy_control y p) (from_order y p))"
    using ok by (simp_all add: server_ok_def)
  note f = server_okD(4) [OF ok]
  from from_client_cases [OF inv p k] have "server_ok ?y p \<and> quiet_event (St_client m len)"
  proof cases
    case (1 n data)
    then show ?thesis
      using here t next' pre f ctl k server_log_length [OF inv p]
      by (intro conjI server_ok_step [OF ok _ _ run y])
        (auto simp: m [symmetric] taken_ok_def wire_ok_def intro!: follows.intros)
  next
    case (2 cl)
    then show ?thesis
      using here t next' f ctl k
      by (intro conjI server_ok_step [OF ok _ _ run y]) (auto simp: m [symmetric] taken_ok_def wire_ok_def)
  qed
  then show ?thesis
    using server_step_preserves [OF inv p _ run y] by blast
qed

lemma other_preserves:
  assumes inv: "system_inv P y" and p: "p \<in> P"
    and ev: "(\<exists>n m len. ev = St_accepted n m len \<and> msg_type m \<in> {CLIENT_INTRO, SUBSCRIBER_INTRO}) \<or>
      (\<exists>sid len. ev = St_control (Subscriber_finished sid) len)"
    and run: "storage_handle ev (sy_server y p) = Some (Inr (s', out))"
  shows "system_inv P (server_step p ev s' out y)" (is "system_inv P ?y")
proof -
  have ok: "server_ok y p" using inv p by (simp add: system_inv_def)
  have t: "taken_ok y p d" for d using server_okD(2) [OF ok] .
  have q: "quiet_event ev" "wire_ok (event_message ev) (sy_server y p)"
      "effect ev (sy_server y p) = []" "\<not> farewell ev c" for c
    using ev by (auto simp: wire_ok_def) (case_tac m; simp)+
  have y: "?y = ?y\<lparr>sy_control := (sy_control y)(p := sy_control y p), sy_taken := (sy_taken y)(p := sy_taken y p)\<rparr>"
    by (simp add: server_step_def)
  have "server_ok ?y p"
    by (rule server_ok_step [OF ok q(1,2) run y]) (use q ok t in \<open>auto simp: server_ok_def taken_ok_def\<close>)
  then show ?thesis
    by (rule server_step_preserves [OF inv p q(1) run y])
qed

lemma system_inv_thread: "system_inv P (y\<lparr>sy_thread := t, sy_thread_out := out\<rparr>) = system_inv P y"
  by (simp add: system_inv_def order_part_def client_part_def client_side_def server_ok_def taken_ok_def left_def)

lemma sys_run_inv: "sys_run P subs y \<Longrightarrow> system_inv P y"
proof (induction rule: sys_run.induct)
  case (sys_start os out srv thr)
  then show ?case
    using order_run_base [of os out]
    by (auto simp: system_inv_def order_part_def client_part_def server_ok_def taken_ok_def calm_def
        intro: order_run_inv follows_start numbered_init)
next
  case (sys_thread y p i t' out)
  then show ?case
    by (simp add: system_inv_thread)
qed (auto intro: order_preserves join_preserves request_preserves client_preserves control_preserves
    request_taken_preserves other_preserves)

subsection \<open>The common log of a shard\<close>

text \<open>The log that the ordering service and the clients have asked the servers of a shard for.\<close>

definition shard_log :: "system \<Rightarrow> server_id \<Rightarrow> abs_log" where
  "shard_log y p = common_log (control_ops (from_order y p)) (\<lambda>c. requests (from_client y p c))"

lemma from_client_same:
  assumes inv: "system_inv P y" and p: "p \<in> P" "q \<in> P" "fst p = fst q"
  shows "from_client y p c = from_client y q c"
proof (cases "sy_client y c")
  case (Some cl)
  with inv have "client_side P y c cl"
    by (simp add: system_inv_def client_part_def)
  then show ?thesis
    using p unfolding client_side_def by (metis (no_types, lifting))
qed (use inv in \<open>simp add: system_inv_def client_part_def\<close>)

lemma shard_log_same: "system_inv P y \<Longrightarrow> p \<in> P \<Longrightarrow> q \<in> P \<Longrightarrow> fst p = fst q \<Longrightarrow> shard_log y p = shard_log y q"
  using from_client_same [of P y p q] order_partD(4) [of P y p q] by (simp add: shard_log_def system_inv_def)

lemma server_log:
  assumes run: "sys_run P subs y" and p: "p \<in> P" and i: "i < l_current_entries (st_log (sy_server y p))"
  shows "i < length (al_slots (shard_log y p))"
    and "al_slots (shard_log y p) ! i = (e_client_id (ent (st_log (sy_server y p)) i), e_gsn (ent (st_log (sy_server y p)) i))"
    and "e_set (ent (st_log (sy_server y p)) i) \<Longrightarrow> abs_filled (shard_log y p) i \<and>
           abs_content (shard_log y p) i = entry_payload (ent (st_log (sy_server y p)) i)"
proof -
  have ok: "server_ok y p"
    using sys_run_inv [OF run] p by (simp add: system_inv_def)
  note slot = history_slot [OF server_okD(1) [OF ok] server_okD(4) [OF ok] control_ops_control i]
  show "i < length (al_slots (shard_log y p))"
    and "al_slots (shard_log y p) ! i = (e_client_id (ent (st_log (sy_server y p)) i), e_gsn (ent (st_log (sy_server y p)) i))"
    and "e_set (ent (st_log (sy_server y p)) i) \<Longrightarrow> abs_filled (shard_log y p) i \<and>
           abs_content (shard_log y p) i = entry_payload (ent (st_log (sy_server y p)) i)"
    using slot by (simp_all add: shard_log_def)
qed

text \<open>A server that has taken all messages has the log of the shard.\<close>

lemma server_converged:
  assumes run: "sys_run P subs y" and p: "p \<in> P" and all: "sy_control y p = length (from_order y p)"
    "\<And>c. sy_taken y p c = length (from_client y p c)"
  shows "abs_of (st_log (sy_server y p)) = shard_log y p"
proof -
  have ok: "server_ok y p"
    using sys_run_inv [OF run] p by (simp add: system_inv_def)
  have "filter is_control (sy_history y p) = control_ops (from_order y p)"
    using ok all(1) by (simp add: server_ok_def)
  moreover have "requests_of c (sy_history y p) = requests (from_client y p c)" for c
    using server_okD(2) [OF ok, of c] all(2) [of c] by (simp add: taken_ok_def)
  ultimately show ?thesis
    using follows_all [OF server_okD(4) [OF ok]] history_abs [OF server_okD(1) [OF ok]] by (simp add: shard_log_def)
qed

end
