(* ===== verification/Feed.thy ===== *)
theory Feed
  imports Zip_System
begin

text \<open>
  What the subscriber threads of a storage server send to a subscriber that was connected from the start: the slots
  of the thread's residue class, from the first one on and in order, each with the content it has in the log
  of the server, until the subscriber leaves.
\<close>

subsection \<open>A thread\<close>

definition thread_slot :: "storage_state \<Rightarrow> nat \<Rightarrow> nat \<Rightarrow> nat" where
  "thread_slot s i k = i + k * st_subscriber_threads s"

definition slot_entry :: "storage_state \<Rightarrow> nat \<Rightarrow> nat \<Rightarrow> log_entry_msg" where
  "slot_entry s i k =
     (let e = ent (st_log s) (thread_slot s i k)
      in \<lparr>le_replica_id = st_replica_id s, le_shard_id = st_shard_id s, le_thread_id = i,
          le_client_id = e_client_id e, le_gsn = e_gsn e, le_data = entry_payload e\<rparr>)"

text \<open>The message with the \<open>k\<close>-th slot of thread \<open>i\<close>, to subscriber \<open>sid\<close> with \<open>nq\<close> receive queues.\<close>

definition entry_send :: "storage_state \<Rightarrow> nat \<Rightarrow> u64 \<Rightarrow> nat \<Rightarrow> nat \<Rightarrow> send" where
  "entry_send s i sid nq k =
     Send (To_subscriber sid) (Subscriber_log_entry (slot_entry s i k)) (1 + thread_slot s i k mod 2 ^ 64 mod nq) False"

definition sent_to :: "u64 \<Rightarrow> send list \<Rightarrow> send list" where
  "sent_to sid out = filter (\<lambda>x. s_dest x = To_subscriber sid) out"

lemma sent_to_simps [simp]:
  "sent_to sid [] = []" "sent_to sid (xs @ ys) = sent_to sid xs @ sent_to sid ys"
  "sent_to sid (x # xs) = (if s_dest x = To_subscriber sid then x # sent_to sid xs else sent_to sid xs)"
  by (simp_all add: sent_to_def)

definition fed_to :: "storage_state \<Rightarrow> subscriber_thread \<Rightarrow> send list \<Rightarrow> nat \<Rightarrow> u64 \<Rightarrow> nat \<Rightarrow> bool" where
  "fed_to s t out n sid nq \<longleftrightarrow>
     (sid, nq) \<in> set (th_subscribers t) \<and> sent_to sid out = map (entry_send s (th_index t) sid nq) [0..<n] \<or>
     (\<exists>k \<le> n. \<exists>rest. sent_to sid out = map (entry_send s (th_index t) sid nq) [0..<k] @
        Send (To_subscriber sid) (Storage_finished (st_shard_id s) (st_replica_id s)) 0 True # rest)"

definition fed :: "(u64 \<times> nat) list \<Rightarrow> storage_state \<Rightarrow> subscriber_thread \<Rightarrow> send list \<Rightarrow> nat \<Rightarrow> bool" where
  "fed subs s t out n \<longleftrightarrow>
     thread_at s t n \<and> distinct (map fst (th_subscribers t)) \<and>
     (\<forall>k < n. thread_slot s (th_index t) k < l_num_entries (st_log s) \<and> e_set (ent (st_log s) (thread_slot s (th_index t) k))) \<and>
     (\<forall>(sid, nq) \<in> set subs. fed_to s t out n sid nq)"

lemma fed_start:
  assumes "thread_at s t 0" and "distinct (map fst (th_subscribers t))" and "th_subscribers t = subs"
  shows "fed subs s t [] 0"
  using assms by (auto simp: fed_def fed_to_def)

text \<open>The other threads of the server do not disturb it.\<close>

lemma fed_grows:
  assumes f: "fed subs s t out n" and grows: "log_grows (st_log s) (st_log s')"
    and same: "st_subscriber_threads s' = st_subscriber_threads s" "st_shard_id s' = st_shard_id s" "st_replica_id s' = st_replica_id s"
  shows "fed subs s' t out n"
proof -
  have slot: "thread_slot s' i k = thread_slot s i k" for i k
    by (simp add: thread_slot_def same)
  have old: "thread_slot s (th_index t) k < l_num_entries (st_log s) \<and> e_set (ent (st_log s) (thread_slot s (th_index t) k))"
    if "k < n" for k
    using f that by (simp add: fed_def)
  have kept: "thread_slot s (th_index t) k < l_num_entries (st_log s') \<and> e_set (ent (st_log s') (thread_slot s (th_index t) k)) \<and>
      slot_entry s' (th_index t) k = slot_entry s (th_index t) k" if "k < n" for k
    using old [OF that] grows by (auto simp: log_grows_def slot_entry_def slot same slot_content_def Let_def)
  then have sends: "map (entry_send s' (th_index t) sid nq) [0..<k] = map (entry_send s (th_index t) sid nq) [0..<k]" if "k \<le> n" for k sid nq
    using that by (auto simp: entry_send_def slot)
  have "fed_to s' t out n sid nq" if "fed_to s t out n sid nq" for sid nq
    using that sends unfolding fed_to_def same by (metis order_refl)
  then show ?thesis
    using f kept thread_at_stable [OF grows same(1)] by (auto simp: fed_def slot)
qed

text \<open>Subscribers come and go.\<close>

lemma materialize_fed:
  assumes f: "fed subs s t out n" and run: "materialize s t = Inr (t', new)"
  shows "fed subs s t' (out @ new) n"
proof -
  have same: "th_log t' = th_log t" "th_index t' = th_index t" "th_num_sent t' = th_num_sent t"
    using materialize_frame [OF run] by auto
  have d: "distinct (map fst (th_subscribers t))"
    using f by (simp add: fed_def)
  consider (none) "th_subscribers t' = th_subscribers t" "new = []"
    | (join) sid nq where "sid \<notin> fst ` set (th_subscribers t)" "th_subscribers t' = th_subscribers t @ [(sid, nq)]" "new = []"
    | (leave) sid where "th_subscribers t' = AList.delete sid (th_subscribers t)"
        "new = [Send (To_subscriber sid) (Storage_finished (st_shard_id s) (st_replica_id s)) 0 True]"
    using run by (auto simp: materialize_def apply_change_def split: option.splits prod.splits change_t.splits if_splits)
  then have "distinct (map fst (th_subscribers t')) \<and> (\<forall>sid nq. fed_to s t out n sid nq \<longrightarrow> fed_to s t' (out @ new) n sid nq)"
  proof cases
    case (leave x)
    have "fed_to s t' (out @ new) n sid nq" if "fed_to s t out n sid nq" for sid nq
    proof (cases "sid = x")
      case True
      with that leave show ?thesis
        unfolding fed_to_def same by (auto intro: exI [of _ n])
    next
      case False
      with that leave show ?thesis
        unfolding fed_to_def same by (auto simp: AList.delete_eq)
    qed
    with leave d show ?thesis
      by (simp add: distinct_delete)
  qed (use d in \<open>auto simp: fed_to_def same\<close>)
  then show ?thesis
    using f by (auto simp: fed_def thread_at_def same)
qed

text \<open>The next slot, once it is there, goes to all subscribers, to each one once.\<close>

lemma sent_to_all:
  assumes "distinct (map fst subs)"
  shows "sent_to sid (map (\<lambda>(sid, nq). Send (To_subscriber sid) m (q nq) False) subs) =
    (case map_of subs sid of None \<Rightarrow> [] | Some nq \<Rightarrow> [Send (To_subscriber sid) m (q nq) False])"
  using assms by (induction subs) (auto split: option.splits simp: image_iff)

lemma stream_fed:
  assumes f: "fed subs s t out n" and run: "stream_entry s t = Inr (t', new)"
  shows "\<exists>n'. fed subs s t' (out @ new) n'"
proof -
  have same: "th_index t' = th_index t" "th_subscribers t' = th_subscribers t"
    using run by (auto simp: stream_entry_def split: prod.splits option.splits if_splits)
  have at: "thread_at s t n" and d: "distinct (map fst (th_subscribers t))"
    using f by (simp_all add: fed_def)
  let ?i = "thread_slot s (th_index t) n"
  note step = stream_entry_step [OF at run, folded thread_slot_def]
  show ?thesis
  proof (cases "?i < l_num_entries (st_log s) \<and> e_set (ent (st_log s) ?i)")
    case False
    with step have "thread_at s t' n" "new = []" by auto
    with f show ?thesis
      by (intro exI [of _ n]) (simp add: fed_def fed_to_def same)
  next
    case True
    with step have at': "thread_at s t' (Suc n)" and new: "new = map (\<lambda>(sid, nq). Send (To_subscriber sid)
        (entry_message s t (ent (st_log s) ?i)) (1 + ?i mod 2 ^ 64 mod nq) False) (th_subscribers t)"
      by auto
    have to: "sent_to sid new = (case map_of (th_subscribers t) sid of None \<Rightarrow> [] | Some nq \<Rightarrow> [entry_send s (th_index t) sid nq n])" for sid
      unfolding new sent_to_all [OF d]
      by (simp add: entry_send_def entry_message_def slot_entry_def Let_def split: option.split)
    have "fed_to s t' (out @ new) (Suc n) sid nq" if "fed_to s t out n sid nq" for sid nq
      using that unfolding fed_to_def same
    proof (elim disjE conjE exE)
      assume in_subs: "(sid, nq) \<in> set (th_subscribers t)"
        and sent: "sent_to sid out = map (entry_send s (th_index t) sid nq) [0..<n]"
      from in_subs d have "map_of (th_subscribers t) sid = Some nq" by simp
      with in_subs sent show "(sid, nq) \<in> set (th_subscribers t) \<and> sent_to sid (out @ new) = map (entry_send s (th_index t) sid nq) [0..<Suc n] \<or>
          (\<exists>k \<le> Suc n. \<exists>rest. sent_to sid (out @ new) = map (entry_send s (th_index t) sid nq) [0..<k] @
            Send (To_subscriber sid) (Storage_finished (st_shard_id s) (st_replica_id s)) 0 True # rest)"
        by (simp add: to)
    qed (auto intro: le_SucI)
    with f True at' d show ?thesis
      by (intro exI [of _ "Suc n"]) (auto simp: fed_def same less_Suc_eq)
  qed
qed

lemma iteration_fed:
  assumes "fed subs s t out n" and "subscriber_iteration s t = Inr (t', new)"
  shows "(\<exists>n'. fed subs s t' (out @ new) n') \<and> th_index t' = th_index t"
proof -
  obtain t1 o1 o2 where run: "materialize s t = Inr (t1, o1)" "stream_entry s t1 = Inr (t', o2)" "new = o1 @ o2"
    using assms(2) by (auto simp: subscriber_iteration_def rbind_eq_Inr)
  have "th_index t' = th_index t1"
    using run(2) by (auto simp: stream_entry_def split: prod.splits option.splits if_splits)
  with materialize_frame [OF run(1)] stream_fed [OF materialize_fed [OF assms(1) run(1)] run(2)] show ?thesis
    by (simp add: run(3))
qed

subsection \<open>The threads of the system\<close>

definition feeds :: "server_id set \<Rightarrow> (server_id \<Rightarrow> nat \<Rightarrow> (u64 \<times> nat) list) \<Rightarrow> system \<Rightarrow> bool" where
  "feeds P subs y \<longleftrightarrow>
     (\<forall>p \<in> P. \<forall>i < st_subscriber_threads (sy_server y p). th_index (sy_thread y p i) = i \<and>
        (\<exists>n. fed (subs p i) (sy_server y p) (sy_thread y p i) (sy_thread_out y p i) n))"

lemma feedsD:
  assumes "feeds P subs y" and "p \<in> P" and "i < st_subscriber_threads (sy_server y p)"
  shows "th_index (sy_thread y p i) = i" and "\<exists>n. fed (subs p i) (sy_server y p) (sy_thread y p i) (sy_thread_out y p i) n"
  using assms by (simp_all add: feeds_def)

lemma feeds_server:
  assumes f: "feeds P subs y" and inv: "storage_inv (sy_server y p)"
    and ev: "quiet_event ev" "wire_ok (event_message ev) (sy_server y p)"
    and run: "storage_handle ev (sy_server y p) = Some (Inr (s', out))"
  shows "feeds P subs (server_step p ev s' out y)"
proof -
  note grows = storage_handle_grows [OF inv ev(2) run]
  note ids = storage_handle_out [OF run ev(1)]
  show ?thesis
    unfolding feeds_def
  proof (intro ballI allI impI)
    fix q i assume q: "q \<in> P" "i < st_subscriber_threads (sy_server (server_step p ev s' out y) q)"
    show "th_index (sy_thread (server_step p ev s' out y) q i) = i \<and>
        (\<exists>n. fed (subs q i) (sy_server (server_step p ev s' out y) q) (sy_thread (server_step p ev s' out y) q i)
           (sy_thread_out (server_step p ev s' out y) q i) n)"
    proof (cases "q = p")
      case True
      with q ids have i: "p \<in> P" "i < st_subscriber_threads (sy_server y p)"
        by simp_all
      from feedsD(2) [OF f i] obtain n where "fed (subs p i) (sy_server y p) (sy_thread y p i) (sy_thread_out y p i) n" ..
      from fed_grows [OF this grows] feedsD(1) [OF f i] True ids show ?thesis
        by (auto simp: server_step_def)
    qed (use q f in \<open>simp add: feeds_def server_step_def\<close>)
  qed
qed

lemma feeds_cong:
  assumes "feeds P subs y" and "sy_server y' = sy_server y" and "sy_thread y' = sy_thread y" and "sy_thread_out y' = sy_thread_out y"
  shows "feeds P subs y'"
  using assms by (simp add: feeds_def)

lemma server_inv: "system_inv P y \<Longrightarrow> p \<in> P \<Longrightarrow> storage_inv (sy_server y p)"
  using history_abs [OF server_okD(1)] by (simp add: system_inv_def)

lemma sys_run_feeds: "sys_run P subs y \<Longrightarrow> feeds P subs y"
proof (induction rule: sys_run.induct)
  case (sys_start os out srv thr)
  then show ?case
    by (auto simp: feeds_def intro!: exI [of _ 0] fed_start)
next
  case (sys_take_control y p m len s' out)
  note inv = sys_run_inv [OF sys_take_control.hyps(1)] and p = sys_take_control.hyps(2)
  have m: "m \<in> set (from_order y p)" using sys_take_control.hyps by simp
  from feeds_server [OF sys_take_control.IH server_inv [OF inv p] _ _ sys_take_control.hyps(5)]
    control_wire [OF inv p m] have "feeds P subs (server_step p (St_control m len) s' out y)" by simp
  then show ?case
    by (rule feeds_cong) simp_all
next
  case (sys_take_request y p c m len s' out)
  note inv = sys_run_inv [OF sys_take_request.hyps(1)] and p = sys_take_request.hyps(2)
  from feeds_server [OF sys_take_request.IH server_inv [OF inv p] _ _ sys_take_request.hyps(5)]
    request_wire [OF inv p sys_take_request.hyps(3)] sys_take_request.hyps(4)
  have "feeds P subs (server_step p (St_client m len) s' out y)" by simp
  then show ?case
    by (rule feeds_cong) simp_all
next
  case (sys_server y p ev s' out)
  note inv = sys_run_inv [OF sys_server.hyps(1)]
  have "quiet_event ev" "wire_ok (event_message ev) (sy_server y p)"
    using sys_server.hyps(3) by (auto simp: wire_ok_def) (case_tac m; simp)+
  with feeds_server [OF sys_server.IH server_inv [OF inv sys_server.hyps(2)] _ _ sys_server.hyps(4)] show ?case
    by simp
next
  case (sys_thread y p i t' out)
  from feedsD(2) [OF sys_thread.IH sys_thread.hyps(2,3)] obtain n
    where "fed (subs p i) (sy_server y p) (sy_thread y p i) (sy_thread_out y p i) n" ..
  with iteration_fed [OF this sys_thread.hyps(4)] sys_thread.IH sys_thread.hyps(2,3) show ?case
    by (simp add: feeds_def)
qed (erule feeds_cong, simp_all add: client_step_def)+

end
