(* ===== verification/Subscriber.thy ===== *)
theory Subscriber
  imports Subscriber_Log_Facts Messaging Quorum
begin

text \<open>
  A subscriber, \<open>src/subscriber/subscriber.h\<close> and \<open>src/subscriber/subscriber.cpp\<close>: the control loop, the
  polling threads that collect acknowledgements from the replicas and insert an entry into the log once
  enough of them sent it, and the application threads that deliver the entries.
\<close>

subsection \<open>Polling threads\<close>

text \<open>
  The local variables of \<open>poll\<close>. A request in flight is the first copy of the entry; the member
  \<open>num_acks\<close> shares the place of \<open>replica_id\<close>. For each shard and thread, the latest delivered sequence
  number (\<open>UINT64_MAX\<close> at first) and the position in the log.
\<close>

record poll_state =
  ps_current :: "(u64 \<times> log_entry_msg) list"
  ps_info :: "((u64 \<times> u64) \<times> (u64 \<times> sub_position)) list"

definition poll_init :: poll_state where
  "poll_init = \<lparr>ps_current = [], ps_info = []\<rparr>"

abbreviation num_acks :: "log_entry_msg \<Rightarrow> u64" where
  "num_acks \<equiv> le_replica_id"

definition info_of :: "poll_state \<Rightarrow> u64 \<times> u64 \<Rightarrow> u64 \<times> sub_position" where
  "info_of ps key = (case map_of (ps_info ps) key of Some i \<Rightarrow> i | None \<Rightarrow> (UINT64_MAX, sub_position_init))"

definition same_entry :: "log_entry_msg \<Rightarrow> log_entry_msg \<Rightarrow> bool" where
  "same_entry x e \<longleftrightarrow>
     le_shard_id x = le_shard_id e \<and> le_client_id x = le_client_id e \<and>
     le_thread_id x = le_thread_id e \<and> length (le_data x) = length (le_data e)"

text \<open>The bookkeeping of the handler; the result is the entry to insert into the log, if any.\<close>

definition ack_entry :: "nat \<Rightarrow> log_entry_msg \<Rightarrow> poll_state \<Rightarrow> poll_state \<times> log_entry_msg option" where
  "ack_entry failures e ps =
     (let key = (le_shard_id e, le_thread_id e); (gsn, pos) = info_of ps key;
          ps1 = ps\<lparr>ps_info := AList.update key (gsn, pos) (ps_info ps)\<rparr>
      in if gsn \<noteq> UINT64_MAX \<and> le_gsn e \<le> gsn then (ps1, None)
         else
           (let x = (case map_of (ps_current ps) (le_gsn e) of None \<Rightarrow> e\<lparr>le_replica_id := 0\<rparr> | Some x \<Rightarrow> x)
            in if \<not> same_entry x e then (ps1, None)
               else
                 (let x' = x\<lparr>le_replica_id := u64_add (num_acks x) 1\<rparr>
                  in if num_acks x' > failures
                     then (ps1\<lparr>ps_info := AList.update key (le_gsn e, pos) (ps_info ps1),
                               ps_current := AList.delete (le_gsn e) (ps_current ps1)\<rparr>, Some x')
                     else (ps1\<lparr>ps_current := AList.update (le_gsn e) x' (ps_current ps1)\<rparr>, None))))"

text \<open>The whole handler: \<open>None\<close> while \<open>insert\<close> waits for a block.\<close>

definition poll_entry :: "nat \<Rightarrow> log_entry_msg \<Rightarrow> sub_log \<Rightarrow> poll_state \<Rightarrow> (sub_log \<times> poll_state) res option" where
  "poll_entry failures e l ps =
     (if le_shard_id e \<ge> NUM_SHARDS then Some (Inl Out_of_bounds)
      else
        (let key = (le_shard_id e, le_thread_id e); (ps', d) = ack_entry failures e ps
         in case d of
              None \<Rightarrow> Some (Inr (l, ps'))
            | Some x \<Rightarrow>
                map_option (\<lambda>r. rbind r (\<lambda>(l', pos'). Inr (l', ps'\<lparr>ps_info :=
                    AList.update key (le_gsn e, pos') (ps_info ps')\<rparr>)))
                  (sub_insert x l (snd (info_of ps' key)))))"

subsection \<open>Application threads\<close>

text \<open>
  The conditional expression has the type of its second operand: the sequential iterator is copied into
  an \<open>iterator\<close>, whose \<open>next_entry\<close> is not virtual.
\<close>

definition process_iterator :: "bool \<Rightarrow> nat \<Rightarrow> nat \<Rightarrow> nat \<Rightarrow> sub_iter" where
  "process_iterator sequential index application_threads current_blocks =
     (if sequential then sub_sequential_init index application_threads current_blocks
      else sub_iterator_init index application_threads current_blocks)"

text \<open>The application threads that the constructor starts, each with its iterator.\<close>

definition start_threads :: "bool \<Rightarrow> nat \<Rightarrow> nat \<Rightarrow> sub_iter list" where
  "start_threads sequential application_threads current_blocks =
     map (\<lambda>index. process_iterator sequential index application_threads current_blocks) [0..<application_threads]"

text \<open>
  What the flag amounts to: the first entry of a thread is that of its index, or \<open>0\<close> for every thread. From there a
  thread reads every \<open>application_threads\<close>-th entry.
\<close>

definition first_entry :: "bool \<Rightarrow> nat \<Rightarrow> nat" where
  "first_entry sequential i = (if sequential then 0 else i)"

lemma first_entry_simps [simp]: "first_entry True i = 0" "first_entry False i = i"
  by (simp_all add: first_entry_def)

lemma process_iterator_first: "process_iterator sequential i n b = sub_iterator_init (first_entry sequential i) n b"
  by (simp add: process_iterator_def first_entry_def sub_sequential_init_def sub_iterator_init_def)

lemma threads_start:
  assumes "b \<le> 2"
  shows "sys_inv n (sub_log_init n, start_threads sequential n b)"
    and "i < n \<Longrightarrow> sub_at (first_entry sequential i) i n (sub_log_init n, start_threads sequential n b) 0"
  unfolding start_threads_def
  by (rule threads_inv [OF process_iterator_first assms], rule threads_at [OF _ process_iterator_first assms])

text \<open>One iteration; the list holds the entry handed to the callback.\<close>

definition process_once :: "sub_log \<Rightarrow> sub_iter \<Rightarrow> (log_entry_msg list \<times> sub_log \<times> sub_iter) res" where
  "process_once l it =
     rbind (sub_next_entry l it) (\<lambda>(e, l', it').
       Inr (case e of None \<Rightarrow> [] | Some x \<Rightarrow> if length (le_data x) > 0 then [x] else [], l', it'))"

text \<open>
  The loop after the threads have been told to stop: it hands out what is left in the log, behind \<open>out\<close>, up to the
  first entry that is missing.
\<close>

partial_function (option) process_rest ::
  "log_entry_msg list \<Rightarrow> sub_log \<Rightarrow> sub_iter \<Rightarrow> (log_entry_msg list \<times> sub_log \<times> sub_iter) res option" where
  "process_rest out l it =
     (case sub_next_entry l it of
        Inl f \<Rightarrow> Some (Inl f)
      | Inr (e, l', it') \<Rightarrow>
          (case e of
             None \<Rightarrow> Some (Inr (out, l', it'))
           | Some x \<Rightarrow> process_rest (out @ (if length (le_data x) > 0 then [x] else [])) l' it'))"

subsection \<open>The control loop\<close>

text \<open>
  For each shard, the connected replicas with the number of their send queues, and the number of
  \<open>storage_finished\<close> messages received from each; \<open>ct_process\<close> is the flag of the other threads.
\<close>

record control_state =
  ct_storage_queues :: "(u64 \<times> nat) list list"
  ct_storage_finished :: "(u64 \<times> nat) list list"
  ct_order_finished :: bool
  ct_stopped :: bool
  ct_end :: bool
  ct_process :: bool

definition control_init :: control_state where
  "control_init =
     \<lparr>ct_storage_queues = replicate NUM_SHARDS [], ct_storage_finished = replicate NUM_SHARDS [],
      ct_order_finished = False, ct_stopped = False, ct_end = False, ct_process = True\<rparr>"

definition finished_message :: "u64 \<Rightarrow> message" where
  "finished_message subscriber_id = Subscriber_finished subscriber_id"

definition control_stop :: "u64 \<Rightarrow> bool \<Rightarrow> control_state \<Rightarrow> control_state \<times> send list" where
  "control_stop subscriber_id stop c =
     (if \<not> ct_stopped c \<and> stop
      then (c\<lparr>ct_stopped := True\<rparr>,
            Send To_order (finished_message subscriber_id) 0 True #
            concat (map (\<lambda>sid. map (\<lambda>(rid, _). Send (To_storage sid rid) (finished_message subscriber_id) 0 True)
                                (ct_storage_queues c ! sid)) [0..<NUM_SHARDS]))
      else (c, []))"

text \<open>The handshake of one storage server: the number of send queues, the first message and its length.\<close>

definition add_server :: "(nat \<times> message \<times> nat) option \<Rightarrow> control_state \<Rightarrow> control_state" where
  "add_server connection c =
     (case connection of
        Some (n, Storage_intro shard_id replica_id q p, len) \<Rightarrow>
          (if len \<noteq> msg_length (Storage_intro shard_id replica_id q p) \<or> shard_id \<ge> NUM_SHARDS
              \<or> replica_id \<in> fst ` set (ct_storage_queues c ! shard_id)
           then c
           else c\<lparr>ct_storage_queues := (ct_storage_queues c)[shard_id :=
                    AList.update replica_id n (ct_storage_queues c ! shard_id)]\<rparr>)
      | _ \<Rightarrow> c)"

definition on_storage_info :: "(nat \<times> message \<times> nat) option list \<Rightarrow> control_state \<Rightarrow> control_state" where
  "on_storage_info connections c = foldl (\<lambda>c x. add_server x c) c connections"

definition finish_if_done :: "control_state \<Rightarrow> control_state" where
  "finish_if_done c =
     (if list_all (\<lambda>q. q = []) (ct_storage_queues c) then c\<lparr>ct_process := False, ct_end := True\<rparr> else c)"

definition on_order_finished :: "control_state \<Rightarrow> control_state res" where
  "on_order_finished c =
     (if ct_order_finished c then Inl (Assert_failed ''finalize message already received'')
      else Inr (finish_if_done (c\<lparr>ct_order_finished := True\<rparr>)))"

definition on_storage_finished :: "u64 \<Rightarrow> u64 \<Rightarrow> control_state \<Rightarrow> control_state" where
  "on_storage_finished shard_id replica_id c =
     (if shard_id \<ge> NUM_SHARDS then c
      else case map_of (ct_storage_queues c ! shard_id) replica_id of
             None \<Rightarrow> c
           | Some n \<Rightarrow>
               (let fin = ct_storage_finished c ! shard_id;
                    count = Suc (case map_of fin replica_id of None \<Rightarrow> 0 | Some k \<Rightarrow> k);
                    c1 = (if count = n
                          then c\<lparr>ct_storage_finished := (ct_storage_finished c)[shard_id := AList.delete replica_id fin],
                                 ct_storage_queues := (ct_storage_queues c)[shard_id :=
                                   AList.delete replica_id (ct_storage_queues c ! shard_id)]\<rparr>
                          else c\<lparr>ct_storage_finished := (ct_storage_finished c)[shard_id :=
                                   AList.update replica_id count fin]\<rparr>)
                in if ct_order_finished c then finish_if_done c1 else c1))"

text \<open>
  What the control loop polls from its receive queue; the connections that a \<open>subscriber_storage_info\<close>
  leads to are given with it. An iteration recycles blocks, checks for a request to stop and handles
  the packets that \<open>recv_apply\<close> found, in order.
\<close>

datatype control_event =
    Ev_storage_info "(nat \<times> message \<times> nat) option list"
  | Ev_order_finished
  | Ev_storage_finished u64 u64

fun control_handle :: "control_event \<Rightarrow> control_state \<Rightarrow> control_state res" where
  "control_handle (Ev_storage_info connections) c = Inr (on_storage_info connections c)"
| "control_handle Ev_order_finished c = on_order_finished c"
| "control_handle (Ev_storage_finished shard_id replica_id) c = Inr (on_storage_finished shard_id replica_id c)"

fun control_batch :: "control_event list \<Rightarrow> control_state \<Rightarrow> control_state res" where
  "control_batch [] c = Inr c"
| "control_batch (ev # evs) c = rbind (control_handle ev c) (control_batch evs)"

definition control_iteration ::
  "u64 \<Rightarrow> bool \<Rightarrow> control_event list \<Rightarrow> sub_log \<times> control_state \<Rightarrow> (sub_log \<times> control_state \<times> send list) res" where
  "control_iteration subscriber_id stop evs s =
     (let (l, c) = s; (c1, sends) = control_stop subscriber_id stop c
      in rbind (control_batch evs c1)
           (\<lambda>c2. Inr (recycle_blocks l, c2, sends)))"

text \<open>
  The packets of a run of the loop, batch by batch: \<open>end\<close> is read before a batch, never inside one.
\<close>

fun control_run :: "control_event list list \<Rightarrow> control_state \<Rightarrow> control_state res" where
  "control_run [] c = Inr c"
| "control_run (evs # batches) c = (if ct_end c then Inr c else rbind (control_batch evs c) (control_run batches))"

text \<open>The constructor: its intro message and the log, once the ordering service has answered.\<close>

definition subscriber_new :: "(message \<times> nat) option \<Rightarrow> nat \<Rightarrow> nat \<Rightarrow> u64 \<Rightarrow> (message \<times> sub_log) res" where
  "subscriber_new connection polling_threads application_threads subscriber_id =
     (if \<not> polling_threads > 0 then Inl (Assert_failed ''invalid value of polling threads'')
      else if \<not> application_threads > 0 then Inl (Assert_failed ''invalid value of application threads'')
      else rbind (check_order_intro ''failed to connect to the ordering service'' connection)
             (\<lambda>_. Inr (Subscriber_intro subscriber_id polling_threads, sub_log_init application_threads)))"

subsection \<open>Delivery in order\<close>

text \<open>The packets that a polling thread handles one after the other, and the entries it hands on.\<close>

fun deliver :: "nat \<Rightarrow> log_entry_msg list \<Rightarrow> poll_state \<Rightarrow> poll_state \<times> log_entry_msg list" where
  "deliver f [] ps = (ps, [])"
| "deliver f (e # es) ps =
     (let (ps1, d) = ack_entry f e ps; (ps2, out) = deliver f es ps1
      in (ps2, (case d of None \<Rightarrow> [] | Some x \<Rightarrow> [x]) @ out))"

text \<open>
  A stream is what one storage thread of a shard sends to this polling thread, the same on all replicas but for the
  name of the replica. It is identified by the shard and the thread; \<open>from_replica k r\<close> are its packets from replica \<open>r\<close>.
\<close>

definition entry_key :: "log_entry_msg \<Rightarrow> u64 \<times> u64" where
  "entry_key e = (le_shard_id e, le_thread_id e)"

definition of_stream :: "u64 \<times> u64 \<Rightarrow> log_entry_msg list \<Rightarrow> log_entry_msg list" where
  "of_stream k = filter (\<lambda>e. entry_key e = k)"

definition from_replica :: "u64 \<times> u64 \<Rightarrow> u64 \<Rightarrow> log_entry_msg list \<Rightarrow> log_entry_msg list" where
  "from_replica k r = filter (\<lambda>e. entry_key e = k \<and> le_replica_id e = r)"

definition streams_ok :: "(u64 \<times> u64 \<Rightarrow> log_entry_msg list) \<Rightarrow> bool" where
  "streams_ok es \<longleftrightarrow>
     (\<forall>k. (\<forall>e \<in> set (es k). entry_key e = k \<and> le_gsn e < UINT64_MAX) \<and> sorted_wrt (<) (map le_gsn (es k))) \<and>
     (\<forall>k k'. k \<noteq> k' \<longrightarrow> le_gsn ` set (es k) \<inter> le_gsn ` set (es k') = {})"

end
