(* ===== verification/Subscriber_Facts.thy ===== *)
theory Subscriber_Facts
  imports Subscriber "HOL-Library.Sublist"
begin

text \<open>
  A polling thread delivers the entries of a stream in the order of their sequence numbers, each once,
  exactly when more replicas than may fail have sent it; the control loop ends exactly when all servers
  have said good-bye.
\<close>

subsection \<open>Delivery\<close>

definition delivery_inv ::
  "nat \<Rightarrow> u64 \<times> u64 \<Rightarrow> log_entry_msg list \<Rightarrow> u64 set \<Rightarrow> (u64 \<Rightarrow> nat) \<Rightarrow> poll_state \<Rightarrow> log_entry_msg list \<Rightarrow> nat \<Rightarrow> bool" where
  "delivery_inv f key es R sent ps out d \<longleftrightarrow>
     quorum_at f (length es) R sent d \<and>
     out = map (\<lambda>i. (es ! i)\<lparr>le_replica_id := Suc f\<rparr>) [0..<d] \<and>
     fst (info_of ps key) = (if d = 0 then UINT64_MAX else le_gsn (es ! (d - 1))) \<and>
     (\<forall>i. d \<le> i \<and> i < length es \<longrightarrow>
        map_of (ps_current ps) (le_gsn (es ! i)) =
          (if ackers R sent i = 0 then None else Some ((es ! i)\<lparr>le_replica_id := ackers R sent i\<rparr>)))"

definition stream_ok :: "u64 \<times> u64 \<Rightarrow> log_entry_msg list \<Rightarrow> bool" where
  "stream_ok key es \<longleftrightarrow> (\<forall>e \<in> set es. entry_key e = key \<and> le_gsn e < UINT64_MAX) \<and> sorted_wrt (<) (map le_gsn es)"

lemma stream_gsn_less: "stream_ok key es \<Longrightarrow> i < j \<Longrightarrow> j < length es \<Longrightarrow> le_gsn (es ! i) < le_gsn (es ! j)"
  using sorted_wrt_nth_less [of "(<)" "map le_gsn es" i j] by (simp add: stream_ok_def)

lemma stream_gsn_le: "stream_ok key es \<Longrightarrow> i < length es \<Longrightarrow> j < length es \<Longrightarrow> le_gsn (es ! i) \<le> le_gsn (es ! j) \<longleftrightarrow> i \<le> j"
  using stream_gsn_less [of key es i j] stream_gsn_less [of key es j i] by (metis leD leI le_less_linear less_imp_le_nat nle_le)

lemma info_of_update [simp]:
  "info_of (ps\<lparr>ps_info := AList.update k v m\<rparr>) k' = (if k' = k then v else info_of (ps\<lparr>ps_info := m\<rparr>) k')"
  by (simp add: info_of_def update_conv')

text \<open>The test of the handler: the entry has been delivered already.\<close>

lemma latest_gsn_iff:
  assumes es: "stream_ok key es" and d: "d \<le> length es" and i: "i < length es"
    and g: "g = (if d = 0 then UINT64_MAX else le_gsn (es ! (d - 1)))"
  shows "g \<noteq> UINT64_MAX \<and> le_gsn (es ! i) \<le> g \<longleftrightarrow> i < d"
proof (cases "d = 0")
  case False
  with d have "es ! (d - 1) \<in> set es"
    by (intro nth_mem) simp
  with es have "le_gsn (es ! (d - 1)) < UINT64_MAX"
    by (auto simp: stream_ok_def)
  with False show ?thesis
    using g stream_gsn_le [OF es i, of "d - 1"] d by auto
qed (use g in simp)

text \<open>The three outcomes of an acknowledgement: the entry was delivered before, it reaches the quorum, or it does not.\<close>

lemma ack_entry_old:
  assumes "info_of ps (le_shard_id e, le_thread_id e) = (g, pos)" and "g \<noteq> UINT64_MAX \<and> le_gsn e \<le> g"
  shows "ack_entry f e ps = (ps\<lparr>ps_info := AList.update (le_shard_id e, le_thread_id e) (g, pos) (ps_info ps)\<rparr>, None)"
  using assms by (auto simp: ack_entry_def Let_def)

lemma ack_entry_new:
  assumes info: "info_of ps (le_shard_id e, le_thread_id e) = (g, pos)" and new: "\<not> (g \<noteq> UINT64_MAX \<and> le_gsn e \<le> g)"
    and x: "(case map_of (ps_current ps) (le_gsn e) of None \<Rightarrow> e\<lparr>le_replica_id := 0\<rparr> | Some x \<Rightarrow> x) = e\<lparr>le_replica_id := a\<rparr>"
    and few: "Suc a < 2 ^ 64"
  shows "ack_entry f e ps =
    (let key = (le_shard_id e, le_thread_id e); x = e\<lparr>le_replica_id := Suc a\<rparr>
     in if Suc a > f
        then (ps\<lparr>ps_info := AList.update key (le_gsn e, pos) (AList.update key (g, pos) (ps_info ps)),
                 ps_current := AList.delete (le_gsn e) (ps_current ps)\<rparr>, Some x)
        else (ps\<lparr>ps_info := AList.update key (g, pos) (ps_info ps), ps_current := AList.update (le_gsn e) x (ps_current ps)\<rparr>, None))"
proof -
  have "u64_add a (Suc 0) = Suc a"
    using few u64_add_small [of a 1] by simp
  then show ?thesis
    using info new x by (auto simp: ack_entry_def Let_def same_entry_def simp del: map_of_eq_None_iff)
qed

lemma delivery_step:
  assumes es: "stream_ok key es" and R: "finite R" "r \<in> R" and f: "Suc f < 2 ^ 64"
    and inv: "delivery_inv f key es R sent ps out d" and r: "sent r < length es"
    and ack: "ack_entry f ((es ! sent r)\<lparr>le_replica_id := r\<rparr>) ps = (ps', del)"
  shows "\<exists>d'. delivery_inv f key es R (sent(r := Suc (sent r))) ps' (out @ (case del of None \<Rightarrow> [] | Some x \<Rightarrow> [x])) d'"
proof -
  let ?i = "sent r" and ?sent = "sent(r := Suc (sent r))"
  let ?e = "(es ! ?i)\<lparr>le_replica_id := r\<rparr>"
  define a where "a = ackers R sent ?i"
  have ak: "ackers R ?sent i = ackers R sent i + (if i = ?i then 1 else 0)" for i
    by (rule ackers_step [OF R])
  have key: "(le_shard_id (es ! ?i), le_thread_id (es ! ?i)) = key"
    using es r nth_mem [of ?i es] by (auto simp: stream_ok_def entry_key_def)
  obtain g pos where info: "info_of ps key = (g, pos)"
    by fastforce
  have q: "quorum_at f (length es) R sent d"
    and out: "out = map (\<lambda>i. (es ! i)\<lparr>le_replica_id := Suc f\<rparr>) [0..<d]"
    and g: "g = (if d = 0 then UINT64_MAX else le_gsn (es ! (d - 1)))"
    and cur: "\<And>i. d \<le> i \<Longrightarrow> i < length es \<Longrightarrow> map_of (ps_current ps) (le_gsn (es ! i)) =
              (if ackers R sent i = 0 then None else Some ((es ! i)\<lparr>le_replica_id := ackers R sent i\<rparr>))"
    using inv info by (auto simp: delivery_inv_def)
  have d: "d \<le> length es"
    using q by (simp add: quorum_at_def)
  have old: "g \<noteq> UINT64_MAX \<and> le_gsn (es ! ?i) \<le> g \<longleftrightarrow> ?i < d"
    by (rule latest_gsn_iff [OF es d r g])
  have inj: "le_gsn (es ! j) = le_gsn (es ! ?i) \<longleftrightarrow> j = ?i" if "j < length es" for j
    using stream_gsn_le [OF es that r] stream_gsn_le [OF es r that] by auto
  show ?thesis
  proof (cases "?i < d")
    case True
    then have ps': "ps' = ps\<lparr>ps_info := AList.update key (g, pos) (ps_info ps)\<rparr>" "del = None"
      using ack ack_entry_old [of ps ?e g pos f] key old info by simp_all
    have "delivery_inv f key es R ?sent ps' out d"
      unfolding delivery_inv_def ps' using quorum_old [OF q R True] out g cur True by (auto simp: ak)
    then show ?thesis
      using ps' by auto
  next
    case False
    let ?x = "case map_of (ps_current ps) (le_gsn (es ! ?i)) of None \<Rightarrow> ?e\<lparr>le_replica_id := 0\<rparr> | Some x \<Rightarrow> x"
    have x: "?x = (es ! ?i)\<lparr>le_replica_id := a\<rparr>"
      using cur [of ?i] False r by (simp add: a_def)
    have "a \<le> f"
      using quorum_missing [OF q] r False by (simp add: a_def)
    then have few: "Suc a < 2 ^ 64"
      using f by simp
    have result: "ack_entry f ?e ps =
      (if Suc a > f
       then (ps\<lparr>ps_info := AList.update key (le_gsn (es ! ?i), pos) (AList.update key (g, pos) (ps_info ps)),
                ps_current := AList.delete (le_gsn (es ! ?i)) (ps_current ps)\<rparr>, Some ((es ! ?i)\<lparr>le_replica_id := Suc a\<rparr>))
       else (ps\<lparr>ps_info := AList.update key (g, pos) (ps_info ps),
                ps_current := AList.update (le_gsn (es ! ?i)) ((es ! ?i)\<lparr>le_replica_id := Suc a\<rparr>) (ps_current ps)\<rparr>, None))"
      using ack_entry_new [of ps ?e g pos a f] info key old False x few by (simp add: Let_def)
    show ?thesis
    proof (cases "f < Suc a")
      case True
      have at: "?i = d" "a = f" and q': "quorum_at f (length es) R ?sent (Suc d)"
        using quorum_reached [OF q R _ r] False True by (auto simp: a_def)
      have ps': "ps' = ps\<lparr>ps_info := AList.update key (le_gsn (es ! ?i), pos) (AList.update key (g, pos) (ps_info ps)),
          ps_current := AList.delete (le_gsn (es ! ?i)) (ps_current ps)\<rparr>"
        and del: "del = Some ((es ! ?i)\<lparr>le_replica_id := Suc a\<rparr>)"
        using ack result True by simp_all
      have "delivery_inv f key es R ?sent ps' (out @ [(es ! ?i)\<lparr>le_replica_id := Suc a\<rparr>]) (Suc d)"
        unfolding delivery_inv_def ps' using q' out at r cur inj by (auto simp: ak delete_conv' info_of_def update_conv')
      then show ?thesis
        using del by auto
    next
      case small': False
      have ps': "ps' = ps\<lparr>ps_info := AList.update key (g, pos) (ps_info ps),
          ps_current := AList.update (le_gsn (es ! ?i)) ((es ! ?i)\<lparr>le_replica_id := Suc a\<rparr>) (ps_current ps)\<rparr>"
        and del: "del = None"
        using ack result small' by simp_all
      have "quorum_at f (length es) R ?sent d"
        using quorum_short [OF q R] small' False by (simp add: a_def)
      then have "delivery_inv f key es R ?sent ps' out d"
        unfolding delivery_inv_def ps' using d out g cur inj r
        by (auto simp: ak a_def update_conv' info_of_def)
      then show ?thesis
        using del by auto
    qed
  qed
qed

text \<open>A packet of one stream leaves the books of another alone, and what comes out is of its own stream.\<close>

lemma delivery_frame:
  assumes inv: "delivery_inv f key es R sent ps out d" and ack: "ack_entry f e ps = (ps', del)"
    and other: "entry_key e \<noteq> key" "le_gsn e \<notin> le_gsn ` set es"
  shows "delivery_inv f key es R sent ps' out d"
proof -
  have "info_of ps' key = info_of ps key"
    using ack other(1) by (auto simp: ack_entry_def Let_def entry_key_def info_of_def update_conv' split: prod.splits if_splits)
  moreover have "map_of (ps_current ps') g = map_of (ps_current ps) g" if "g \<noteq> le_gsn e" for g
    using ack that by (auto simp: ack_entry_def Let_def update_conv' delete_conv' split: prod.splits if_splits)
  then have "map_of (ps_current ps') (le_gsn (es ! i)) = map_of (ps_current ps) (le_gsn (es ! i))" if "i < length es" for i
    using that other(2) nth_mem [OF that] by (metis imageI)
  ultimately show ?thesis
    using inv by (simp add: delivery_inv_def)
qed

lemma ack_entry_key:
  assumes "ack_entry f e ps = (ps', Some x)"
  shows "entry_key x = entry_key e"
  using assms
  by (cases "map_of (ps_current ps) (le_gsn e)")
    (auto simp: ack_entry_def Let_def entry_key_def same_entry_def split: prod.splits if_splits)

lemma streams_okD:
  assumes "streams_ok es"
  shows "stream_ok k (es k)" and "k \<noteq> k' \<Longrightarrow> e \<in> set (es k) \<Longrightarrow> le_gsn e \<notin> le_gsn ` set (es k')"
proof -
  show "stream_ok k (es k)"
    using assms by (simp add: streams_ok_def stream_ok_def del: split_paired_All)
  show "le_gsn e \<notin> le_gsn ` set (es k')" if "k \<noteq> k'" "e \<in> set (es k)"
    using assms that unfolding streams_ok_def by blast
qed

text \<open>
  All streams together: the packets handled so far are \<open>done\<close>, the entries delivered \<open>out\<close>.
\<close>

definition deliveries_inv ::
  "nat \<Rightarrow> (u64 \<times> u64 \<Rightarrow> log_entry_msg list) \<Rightarrow> (u64 \<times> u64 \<Rightarrow> u64 set) \<Rightarrow> log_entry_msg list \<Rightarrow> poll_state \<Rightarrow> log_entry_msg list \<Rightarrow> bool" where
  "deliveries_inv f es R done ps out \<longleftrightarrow>
     (\<forall>k. \<exists>d. delivery_inv f k (es k) (R k) (\<lambda>r. length (from_replica k r done)) ps (of_stream k out) d)"

lemma deliveries_step:
  assumes es: "streams_ok es" and R: "\<And>k. finite (R k)" and f: "Suc f < 2 ^ 64" and inv: "deliveries_inv f es R done ps out"
    and r: "le_replica_id e \<in> R (entry_key e)"
    and pre: "prefix (from_replica (entry_key e) (le_replica_id e) (done @ [e])) (map (\<lambda>x. x\<lparr>le_replica_id := le_replica_id e\<rparr>) (es (entry_key e)))"
    and ack: "ack_entry f e ps = (ps', del)"
  shows "deliveries_inv f es R (done @ [e]) ps' (out @ (case del of None \<Rightarrow> [] | Some x \<Rightarrow> [x]))"
proof -
  let ?k = "entry_key e" and ?r = "le_replica_id e"
  let ?n = "length (from_replica ?k ?r done)"
  have last: "from_replica ?k ?r (done @ [e]) = from_replica ?k ?r done @ [e]"
    by (simp add: from_replica_def)
  have n: "?n < length (es ?k)"
    using prefix_length_le [OF pre] by (simp add: last)
  have "(map (\<lambda>x. x\<lparr>le_replica_id := ?r\<rparr>) (es ?k)) ! ?n = (from_replica ?k ?r done @ [e]) ! ?n"
    using pre unfolding last by (auto simp: prefix_def nth_append)
  then have e: "e = (es ?k ! ?n)\<lparr>le_replica_id := ?r\<rparr>"
    using n by simp
  have e_in: "\<exists>x \<in> set (es ?k). le_gsn x = le_gsn e"
    using nth_mem [OF n] e by (metis log_entry_msg.select_convs(5) log_entry_msg.surjective log_entry_msg.update_convs(1))
  show ?thesis
    unfolding deliveries_inv_def
  proof
    fix k
    obtain d where d: "delivery_inv f k (es k) (R k) (\<lambda>r. length (from_replica k r done)) ps (of_stream k out) d"
      using inv unfolding deliveries_inv_def by blast
    show "\<exists>d. delivery_inv f k (es k) (R k) (\<lambda>r. length (from_replica k r (done @ [e]))) ps'
        (of_stream k (out @ (case del of None \<Rightarrow> [] | Some x \<Rightarrow> [x]))) d"
    proof (cases "k = ?k")
      case True
      have sent: "(\<lambda>r. length (from_replica k r (done @ [e]))) = (\<lambda>r. length (from_replica k r done))(?r := Suc ?n)"
        by (auto simp: fun_eq_iff from_replica_def True)
      have new: "of_stream k (case del of None \<Rightarrow> [] | Some x \<Rightarrow> [x]) = (case del of None \<Rightarrow> [] | Some x \<Rightarrow> [x])"
        using ack ack_entry_key by (auto simp: of_stream_def True split: option.splits)
      have append: "of_stream k (xs @ ys) = of_stream k xs @ of_stream k ys" for xs ys
        by (simp add: of_stream_def)
      show ?thesis
        unfolding append new sent using delivery_step [OF streams_okD(1) [OF es] R _ f d, of ?r ps' del] r n ack e
        by (simp add: True)
    next
      case False
      have "of_stream k (case del of None \<Rightarrow> [] | Some x \<Rightarrow> [x]) = []"
        using ack ack_entry_key False by (auto simp: of_stream_def split: option.splits)
      moreover have "le_gsn e \<notin> le_gsn ` set (es k)"
        using e_in streams_okD(2) [OF es, of ?k k] False by metis
      ultimately show ?thesis
        using delivery_frame [OF d ack] False by (auto simp: of_stream_def from_replica_def)
    qed
  qed
qed

definition packets_ok :: "(u64 \<times> u64 \<Rightarrow> log_entry_msg list) \<Rightarrow> (u64 \<times> u64 \<Rightarrow> u64 set) \<Rightarrow> log_entry_msg list \<Rightarrow> bool" where
  "packets_ok es R ps \<longleftrightarrow>
     (\<forall>e \<in> set ps. le_replica_id e \<in> R (entry_key e)) \<and>
     (\<forall>k. \<forall>r \<in> R k. prefix (from_replica k r ps) (map (\<lambda>x. x\<lparr>le_replica_id := r\<rparr>) (es k)))"

lemma packets_ok_append: "packets_ok es R (xs @ ys) \<Longrightarrow> packets_ok es R xs"
  unfolding packets_ok_def from_replica_def filter_append set_append by (blast dest: append_prefixD)

lemma deliver_inv:
  assumes "streams_ok es" and "\<And>k. finite (R k)" and "Suc f < 2 ^ 64"
    and "deliveries_inv f es R done ps out" and "packets_ok es R (done @ new)"
  shows "deliveries_inv f es R (done @ new) (fst (deliver f new ps)) (out @ snd (deliver f new ps))"
  using assms(4,5)
proof (induction new arbitrary: "done" ps out)
  case (Cons e new)
  obtain ps' del where ack: "ack_entry f e ps = (ps', del)"
    by fastforce
  have ok: "packets_ok es R (done @ [e])"
    using packets_ok_append [of es R "done @ [e]" new] Cons.prems(2) by simp
  have "le_replica_id e \<in> R (entry_key e)"
    "prefix (from_replica (entry_key e) (le_replica_id e) (done @ [e])) (map (\<lambda>x. x\<lparr>le_replica_id := le_replica_id e\<rparr>) (es (entry_key e)))"
    using ok unfolding packets_ok_def by (simp, simp del: split_paired_All)
  from deliveries_step [where R = R, OF assms(1-3) Cons.prems(1) this ack]
  have "deliveries_inv f es R (done @ [e]) ps' (out @ (case del of None \<Rightarrow> [] | Some x \<Rightarrow> [x]))" .
  from Cons.IH [OF this] Cons.prems(2) show ?case
    by (simp add: ack split_def Let_def)
qed simp

lemma deliveries_init: "deliveries_inv f es R [] poll_init []"
  by (simp add: deliveries_inv_def delivery_inv_def from_replica_def of_stream_def poll_init_def info_of_def)

text \<open>
  Whatever the order of the packets, the entries of a stream that come out are a prefix of the stream: those that
  more than \<open>f\<close> replicas have sent so far.
\<close>

lemma deliver_streams:
  assumes "streams_ok es" and "\<And>k. finite (R k)" and "Suc f < 2 ^ 64" and "packets_ok es R pkts"
  shows "\<exists>d \<le> length (es k). of_stream k (snd (deliver f pkts poll_init)) = map (\<lambda>e. e\<lparr>le_replica_id := Suc f\<rparr>) (take d (es k)) \<and>
     (\<forall>i < length (es k). i < d \<longleftrightarrow> f < card {r \<in> R k. i < length (from_replica k r pkts)})"
proof -
  obtain d where d: "delivery_inv f k (es k) (R k) (\<lambda>r. length (from_replica k r pkts)) (fst (deliver f pkts poll_init))
      (of_stream k (snd (deliver f pkts poll_init))) d"
    using deliver_inv [where R = R and new = pkts, OF assms(1-3) deliveries_init] assms(4)
    by (auto simp: deliveries_inv_def simp del: split_paired_All)
  moreover have "map (\<lambda>i. (es k ! i)\<lparr>le_replica_id := Suc f\<rparr>) [0..<d] = map (\<lambda>e. e\<lparr>le_replica_id := Suc f\<rparr>) (take d (es k))"
    if "d \<le> length (es k)"
    using that by (auto intro: nth_equalityI)
  ultimately show ?thesis
    by (intro exI [of _ d]) (simp add: delivery_inv_def quorum_at_def ackers_def)
qed

subsection \<open>The end of the control loop\<close>

definition said_goodbye :: "control_event list \<Rightarrow> u64 \<Rightarrow> u64 \<Rightarrow> nat" where
  "said_goodbye evs sid rid = count_list evs (Ev_storage_finished sid rid)"

definition goodbyes :: "control_event list \<Rightarrow> bool" where
  "goodbyes evs \<longleftrightarrow> (\<forall>ev \<in> set evs. \<forall>cs. ev \<noteq> Ev_storage_info cs) \<and> count_list evs Ev_order_finished \<le> 1"

definition all_connected :: "control_state \<Rightarrow> bool" where
  "all_connected c \<longleftrightarrow>
     length (ct_storage_queues c) = NUM_SHARDS \<and> ct_storage_finished c = replicate NUM_SHARDS [] \<and>
     \<not> ct_order_finished c \<and> \<not> ct_end c \<and> ct_process c \<and>
     (\<forall>q \<in> set (ct_storage_queues c). distinct (map fst q) \<and> (\<forall>(_, n) \<in> set q. 0 < n))"

definition goodbye_inv :: "control_state \<Rightarrow> control_event list \<Rightarrow> control_state \<Rightarrow> bool" where
  "goodbye_inv c0 evs c \<longleftrightarrow>
     length (ct_storage_queues c) = NUM_SHARDS \<and> length (ct_storage_finished c) = NUM_SHARDS \<and>
     (\<forall>sid < NUM_SHARDS. \<forall>rid. map_of (ct_storage_queues c ! sid) rid =
        (case map_of (ct_storage_queues c0 ! sid) rid of
           None \<Rightarrow> None | Some n \<Rightarrow> if said_goodbye evs sid rid < n then Some n else None)) \<and>
     (\<forall>sid < NUM_SHARDS. \<forall>rid. map_of (ct_storage_queues c ! sid) rid \<noteq> None \<longrightarrow>
        (case map_of (ct_storage_finished c ! sid) rid of None \<Rightarrow> 0 | Some k \<Rightarrow> k) = said_goodbye evs sid rid) \<and>
     (ct_order_finished c \<longleftrightarrow> Ev_order_finished \<in> set evs) \<and>
     (ct_end c \<longleftrightarrow> ct_order_finished c \<and> list_all (\<lambda>q. q = []) (ct_storage_queues c)) \<and>
     (ct_process c \<longleftrightarrow> \<not> ct_end c)"

lemma said_goodbye_snoc [simp]:
  "said_goodbye (evs @ [ev]) sid rid = said_goodbye evs sid rid + (if ev = Ev_storage_finished sid rid then 1 else 0)"
  by (simp add: said_goodbye_def)

lemma goodbye_init:
  assumes "all_connected c"
  shows "goodbye_inv c [] c"
proof -
  have "0 < n" if "sid < NUM_SHARDS" "map_of (ct_storage_queues c ! sid) rid = Some n" for sid rid n
  proof -
    have "ct_storage_queues c ! sid \<in> set (ct_storage_queues c)"
      using that(1) assms by (simp add: all_connected_def)
    with map_of_SomeD [OF that(2)] assms show ?thesis
      by (fastforce simp: all_connected_def)
  qed
  then show ?thesis
    using assms by (auto simp: goodbye_inv_def all_connected_def said_goodbye_def split: option.splits)
qed

lemma goodbye_order:
  assumes "goodbye_inv c0 evs c" and "Ev_order_finished \<notin> set evs"
  shows "\<exists>c'. on_order_finished c = Inr c' \<and> goodbye_inv c0 (evs @ [Ev_order_finished]) c'"
  using assms by (simp add: goodbye_inv_def on_order_finished_def finish_if_done_def cong: option.case_cong if_cong)

lemma finish_if_done_goodbye:
  assumes "goodbye_inv c0 evs (c\<lparr>ct_process := \<not> e, ct_end := e\<rparr>)" and "\<not> ct_end c" and "ct_process c"
    and "e = (ct_order_finished c \<and> list_all (\<lambda>q. q = []) (ct_storage_queues c))"
  shows "goodbye_inv c0 evs (if ct_order_finished c then finish_if_done c else c)"
  using assms by (auto simp: goodbye_inv_def finish_if_done_def)

lemma goodbye_storage:
  assumes inv: "goodbye_inv c0 evs c"
  shows "goodbye_inv c0 (evs @ [Ev_storage_finished sid rid]) (on_storage_finished sid rid c)"
proof (cases "sid < NUM_SHARDS \<and> map_of (ct_storage_queues c ! sid) rid \<noteq> None")
  case False
  then have "on_storage_finished sid rid c = c"
    by (auto simp: on_storage_finished_def simp del: map_of_eq_None_iff split: option.splits)
  moreover have "goodbye_inv c0 (evs @ [Ev_storage_finished sid rid]) c"
    using inv False unfolding goodbye_inv_def by (auto simp del: map_of_eq_None_iff split: option.splits if_splits)
  ultimately show ?thesis by simp
next
  case True
  define fin where "fin = ct_storage_finished c ! sid"
  define k where "k = Suc (said_goodbye evs sid rid)"
  from True obtain n where n: "map_of (ct_storage_queues c ! sid) rid = Some n" by auto
  with True inv have "\<not> ct_end c"
    by (auto simp: goodbye_inv_def list_all_length)
  have count: "(case map_of fin rid of None \<Rightarrow> 0 | Some k \<Rightarrow> k) = said_goodbye evs sid rid"
    using inv True n by (auto simp: goodbye_inv_def fin_def simp del: map_of_eq_None_iff)
  have le: "k \<le> n" and n0: "map_of (ct_storage_queues c0 ! sid) rid = Some n"
    using inv True n by (auto simp: goodbye_inv_def k_def simp del: map_of_eq_None_iff split: option.splits if_splits)
  define c1 where "c1 = (if k = n
      then c\<lparr>ct_storage_finished := (ct_storage_finished c)[sid := AList.delete rid fin],
             ct_storage_queues := (ct_storage_queues c)[sid := AList.delete rid (ct_storage_queues c ! sid)]\<rparr>
      else c\<lparr>ct_storage_finished := (ct_storage_finished c)[sid := AList.update rid k fin]\<rparr>)"
  have eq: "on_storage_finished sid rid c = (if ct_order_finished c1 then finish_if_done c1 else c1)"
    using True n count by (simp add: on_storage_finished_def Let_def c1_def fin_def [symmetric] k_def)
  have "goodbye_inv c0 (evs @ [Ev_storage_finished sid rid]) (c1\<lparr>ct_process := \<not> e, ct_end := e\<rparr>)"
    if "e = (ct_order_finished c1 \<and> list_all (\<lambda>q. q = []) (ct_storage_queues c1))" for e
    using inv True n n0 le that unfolding goodbye_inv_def
    by (auto simp: c1_def nth_list_update delete_conv' update_conv' k_def fin_def
        simp del: map_of_eq_None_iff split: option.splits if_splits)
  moreover have "\<not> ct_end c1" "ct_process c1"
    using inv \<open>\<not> ct_end c\<close> by (auto simp: c1_def goodbye_inv_def)
  ultimately show ?thesis
    unfolding eq by (intro finish_if_done_goodbye) auto
qed

lemma goodbye_step:
  assumes "goodbye_inv c0 evs c" and "goodbyes (evs @ ev # rest)"
  shows "\<exists>c'. control_handle ev c = Inr c' \<and> goodbye_inv c0 (evs @ [ev]) c'"
proof (cases ev)
  case (Ev_storage_info cs)
  with assms(2) show ?thesis by (auto simp: goodbyes_def)
next
  case Ev_order_finished
  with assms(2) have "Ev_order_finished \<notin> set evs"
    by (auto simp: goodbyes_def count_list_0_iff [symmetric])
  with goodbye_order [OF assms(1)] Ev_order_finished show ?thesis by simp
next
  case (Ev_storage_finished sid rid)
  with goodbye_storage [OF assms(1)] show ?thesis by simp
qed

lemma goodbye_batch:
  assumes "goodbye_inv c0 evs c" and "goodbyes (evs @ batch @ rest)"
  shows "\<exists>c'. control_batch batch c = Inr c' \<and> goodbye_inv c0 (evs @ batch) c'"
  using assms
proof (induction batch arbitrary: evs c)
  case (Cons ev batch)
  from goodbye_step [OF Cons.prems(1), of ev "batch @ rest"] Cons.prems(2) obtain c' where
    "control_handle ev c = Inr c'" "goodbye_inv c0 (evs @ [ev]) c'" by auto
  with Cons.IH [of "evs @ [ev]" c'] Cons.prems(2) show ?case by auto
qed auto

lemma goodbye_run:
  assumes "goodbye_inv c0 evs c" and "goodbyes (evs @ concat batches)"
  shows "\<exists>c' seen. control_run batches c = Inr c' \<and> goodbye_inv c0 seen c' \<and> prefix seen (evs @ concat batches) \<and>
     (ct_end c' \<or> seen = evs @ concat batches)"
  using assms
proof (induction batches arbitrary: evs c)
  case (Cons batch batches)
  show ?case
  proof (cases "ct_end c")
    case True
    with Cons.prems show ?thesis by auto
  next
    case False
    with goodbye_batch [OF Cons.prems(1), of batch "concat batches"] Cons.prems(2) obtain c' where
      "control_batch batch c = Inr c'" "goodbye_inv c0 (evs @ batch) c'" by auto
    with Cons.IH [of "evs @ batch" c'] Cons.prems(2) False show ?thesis by auto
  qed
qed auto

lemma goodbye_all:
  assumes "goodbye_inv c0 evs c" and "all_connected c0"
  shows "list_all (\<lambda>q. q = []) (ct_storage_queues c) \<longleftrightarrow>
     (\<forall>sid < NUM_SHARDS. \<forall>(rid, n) \<in> set (ct_storage_queues c0 ! sid). n \<le> said_goodbye evs sid rid)"
proof -
  have len: "length (ct_storage_queues c) = NUM_SHARDS"
    using assms(1) by (simp add: goodbye_inv_def)
  have "ct_storage_queues c ! sid = [] \<longleftrightarrow> (\<forall>(rid, n) \<in> set (ct_storage_queues c0 ! sid). n \<le> said_goodbye evs sid rid)"
    if "sid < NUM_SHARDS" for sid
  proof -
    have "distinct (map fst (ct_storage_queues c0 ! sid))"
      using assms(2) that by (auto simp: all_connected_def)
    then have iff: "(rid, n) \<in> set (ct_storage_queues c0 ! sid) \<longleftrightarrow> map_of (ct_storage_queues c0 ! sid) rid = Some n" for rid n
      by simp
    have q: "map_of (ct_storage_queues c ! sid) rid =
        (case map_of (ct_storage_queues c0 ! sid) rid of
           None \<Rightarrow> None | Some n \<Rightarrow> if said_goodbye evs sid rid < n then Some n else None)" for rid
      using assms(1) that by (simp add: goodbye_inv_def)
    have "ct_storage_queues c ! sid = [] \<longleftrightarrow> (\<forall>rid. map_of (ct_storage_queues c ! sid) rid = None)"
      by (cases "ct_storage_queues c ! sid") auto
    also have "\<dots> \<longleftrightarrow> (\<forall>rid n. map_of (ct_storage_queues c0 ! sid) rid = Some n \<longrightarrow> n \<le> said_goodbye evs sid rid)"
      unfolding q by (auto simp: not_less simp del: map_of_eq_None_iff map_of_eq_Some_iff split: option.splits if_splits)
        (metis leD leI)+
    finally show ?thesis
      by (auto simp: iff simp del: map_of_eq_Some_iff)
  qed
  then show ?thesis
    by (simp add: list_all_length len)
qed

lemma said_goodbye_prefix: "prefix xs ys \<Longrightarrow> said_goodbye xs sid rid \<le> said_goodbye ys sid rid"
  by (auto simp: prefix_def said_goodbye_def)

lemma control_run_ends:
  assumes "all_connected c" and "goodbyes (concat batches)"
  shows "\<exists>c'. control_run batches c = Inr c' \<and> ct_process c' = (\<not> ct_end c') \<and>
     (ct_end c' \<longleftrightarrow> Ev_order_finished \<in> set (concat batches) \<and>
        (\<forall>sid < NUM_SHARDS. \<forall>(rid, n) \<in> set (ct_storage_queues c ! sid). n \<le> said_goodbye (concat batches) sid rid))"
proof -
  obtain c' seen where r: "control_run batches c = Inr c'" "goodbye_inv c seen c'" "prefix seen (concat batches)" "ct_end c' \<or> seen = concat batches"
    using goodbye_run [OF goodbye_init [OF assms(1)], of batches] assms(2) by auto
  have e: "ct_end c' \<longleftrightarrow> Ev_order_finished \<in> set seen \<and>
      (\<forall>sid < NUM_SHARDS. \<forall>(rid, n) \<in> set (ct_storage_queues c ! sid). n \<le> said_goodbye seen sid rid)"
    using r(2) goodbye_all [OF r(2) assms(1)] by (simp add: goodbye_inv_def)
  have "ct_process c' = (\<not> ct_end c')"
    using r(2) by (simp add: goodbye_inv_def)
  moreover have "Ev_order_finished \<in> set (concat batches) \<and>
      (\<forall>sid < NUM_SHARDS. \<forall>(rid, n) \<in> set (ct_storage_queues c ! sid). n \<le> said_goodbye (concat batches) sid rid)" if "ct_end c'"
    using that e said_goodbye_prefix [OF r(3)] set_mono_prefix [OF r(3)]
    by (fastforce intro: order_trans)
  ultimately show ?thesis
    using r e by auto
qed

subsection \<open>Properties\<close>

text \<open>
  C5. A polling thread delivers, of every stream, exactly the entries that more than \<open>failures\<close> replicas have sent so
  far, in the order of their sequence numbers, each once and with its payload: for any number of streams, in whatever
  order the packets of all replicas get through, as long as each replica sends a stream in order.
\<close>

theorem delivers_at_quorum:
  assumes "streams_ok es" and "\<And>k. finite (R k)" and "Suc f < 2 ^ 64" and "packets_ok es R pkts"
  shows "\<exists>d \<le> length (es k). of_stream k (snd (deliver f pkts poll_init)) = map (\<lambda>e. e\<lparr>le_replica_id := Suc f\<rparr>) (take d (es k)) \<and>
     (\<forall>i < length (es k). i < d \<longleftrightarrow> f < card {r \<in> R k. i < length (from_replica k r pkts)})"
  by (rule deliver_streams [OF assms])

definition example_entry :: "u64 \<Rightarrow> byte list \<Rightarrow> log_entry_msg" where
  "example_entry gsn bytes = \<lparr>le_replica_id = 0, le_shard_id = 0, le_thread_id = 0, le_client_id = 3, le_gsn = gsn, le_data = bytes\<rparr>"

definition example_streams :: "u64 \<times> u64 \<Rightarrow> log_entry_msg list" where
  "example_streams k = (if k = (0, 0) then [example_entry 4 [1], example_entry 6 [2]] else [])"

lemma example_streams_ok:
  "streams_ok example_streams"
  "packets_ok example_streams (\<lambda>_. {0, 1}) [example_entry 4 [1], example_entry 6 [2], (example_entry 4 [1])\<lparr>le_replica_id := 1\<rparr>]"
  by (auto simp: streams_ok_def packets_ok_def example_streams_def example_entry_def entry_key_def UINT64_MAX_def from_replica_def)

theorem delivers_at_quorum_witness:
  "\<exists>d \<le> length (example_streams (0, 0)). of_stream (0, 0) (snd (deliver 1 [example_entry 4 [1], example_entry 6 [2],
        (example_entry 4 [1])\<lparr>le_replica_id := 1\<rparr>] poll_init)) =
       map (\<lambda>e. e\<lparr>le_replica_id := Suc 1\<rparr>) (take d (example_streams (0, 0))) \<and>
     (\<forall>i < length (example_streams (0, 0)). i < d \<longleftrightarrow> 1 < card {r \<in> {0, 1}. i < length (from_replica (0, 0) r
        [example_entry 4 [1], example_entry 6 [2], (example_entry 4 [1])\<lparr>le_replica_id := 1\<rparr>])})"
  using delivers_at_quorum [OF example_streams_ok(1) _ _ example_streams_ok(2), of 1 "(0, 0)"] by simp



text \<open>
  C19. Application thread \<open>i\<close> of \<open>n\<close> gets the entries \<open>a\<close>, \<open>a + n\<close>, \<open>a + 2n\<close> and so on, in this order and none left
  out, where \<open>a\<close> is \<open>i\<close> when \<open>sequential\<close> is off and \<open>0\<close> when it is on, the default. Its next poll never reads outside the log
  or a recycled block, however its polls interleave with the polling threads, the other application threads and the
  recycling of blocks. The uninitialised member \<open>current_blocks_\<close> of the iterators is assumed to hold at most \<open>2\<close>,
  the number of blocks there are at first.
\<close>

theorem application_reads_in_order:
  assumes "i < n" and "b \<le> 2"
    and "reader_run (sys_poll i) (sub_env i) (sub_log_init n, start_threads sequential n b) es (l, its)"
  shows "map le_gsn es = map (\<lambda>k. first_entry sequential i + k * n) [0..<length es] \<and>
    (\<exists>l' it'. sub_next_entry l (its ! i) = Inr (slot_at l (first_entry sequential i + length es * n), l', it'))"
proof -
  note start = threads_start(2) [OF assms(2,1), of sequential]
  from subit.run_at [OF assms(3) start] have at: "sub_at (first_entry sequential i) i n (l, its) (length es)"
    and "map le_gsn es = map (next_index (first_entry sequential i) n) [0..<length es]" by simp_all
  moreover obtain l' it' where "sub_next_entry l (its ! i) = Inr (slot_at l (next_index (first_entry sequential i) n (length es)), l', it')"
    using sub_next_entry_ok [OF at] by metis
  ultimately show ?thesis
    by (auto simp: next_index_def [abs_def])
qed

text \<open>A log with the first entry inserted, and the thread that reads it.\<close>

definition example_sub_log :: "nat \<Rightarrow> sub_log" where
  "example_sub_log n = sub_log_init n\<lparr>sl_blocks := [Some (zero_block(0 := Some (example_entry 0 [1]))), Some zero_block]\<rparr>"

lemma example_env:
  "sub_env i (sub_log_init n, its) (example_sub_log n, its)"
  by (rule env_insert [of _ sub_position_init "example_entry 0 [1]" _ "sub_position_init\<lparr>sp_current_blocks := 2\<rparr>"])
    (auto simp: position_ok_def sub_position_init_def sub_log_init_def slot_at_def zero_block_def example_entry_def
      example_sub_log_def sub_insert_def Let_def)

lemma example_slot: "slot_at (example_sub_log n) 0 = Some (example_entry 0 [1])"
  by (simp add: slot_at_def example_sub_log_def)

theorem application_reads_in_order_witness:
  "\<exists>l l' it'. sub_env 0 (sub_log_init 1, start_threads True 1 0) (l, start_threads True 1 0) \<and>
     sub_next_entry l (start_threads True 1 0 ! 0) = Inr (Some (example_entry 0 [1]), l', it')"
proof -
  have "reader_run (sys_poll 0) (sub_env 0) (sub_log_init 1, start_threads True 1 0) [] (example_sub_log 1, start_threads True 1 0)"
    by (rule run_one_env, rule example_env)
  from application_reads_in_order [OF _ _ this]
  have "\<exists>l' it'. sub_next_entry (example_sub_log 1) (start_threads True 1 0 ! 0) = Inr (slot_at (example_sub_log 1) 0, l', it')" by simp
  moreover have "slot_at (example_sub_log 1) 0 = Some (example_entry 0 [1])"
    by (rule example_slot)
  ultimately show ?thesis
    using example_env by auto
qed



text \<open>
  C37. With \<open>sequential\<close> set, every application thread, whatever its index, gets the entries \<open>0\<close>, \<open>n\<close>, \<open>2n\<close> and so on:
  the sequential iterator is sliced into a plain one that starts at \<open>0\<close>. With more than one thread, an entry
  between these is delivered to no thread and each of these to all threads. \<open>current_blocks_\<close> is assumed to hold at most \<open>2\<close>.
\<close>

theorem sequential_threads_collide:
  assumes "i < n" and "b \<le> 2"
    and "reader_run (sys_poll i) (sub_env i) (sub_log_init n, start_threads True n b) es s"
  shows "map le_gsn es = map (\<lambda>k. k * n) [0..<length es]"
proof -
  from subit.run_at [OF assms(3) threads_start(2) [OF assms(2,1)]] show ?thesis
    by (simp add: next_index_def first_entry_def)
qed

lemma example_poll:
  "sys_poll 1 (example_sub_log 2,
      start_threads True 2 0) =
     (Some (example_entry 0 [1]),
      snd (sys_poll 1 (example_sub_log 2,
        start_threads True 2 0)))"
  by (simp add: sys_poll_def start_threads_def process_iterator_def sub_sequential_init_def sub_iterator_init_def
      sub_next_entry_def sub_obtain_def load_entry_def example_sub_log_def sub_log_init_def upt_rec)

theorem sequential_threads_collide_witness:
  "\<exists>l s. sub_env 1 (sub_log_init 2, start_threads True 2 0) (l, start_threads True 2 0) \<and>
     sys_poll 1 (l, start_threads True 2 0) = (Some (example_entry 0 [1]), s) \<and> le_gsn (example_entry 0 [1]) = 0 * 2"
proof -
  let ?its = "start_threads True 2 0"
  note env = example_env [of 1 2 ?its]
  have "reader_run (sys_poll 1) (sub_env 1) (sub_log_init 2, ?its) [example_entry 0 [1]] (snd (sys_poll 1 (example_sub_log 2, ?its)))"
    by (rule run_one_hit, rule env, rule example_poll)
  from sequential_threads_collide [OF _ _ this] have "le_gsn (example_entry 0 [1]) = 0 * 2" by simp
  with env example_poll show ?thesis by blast
qed

text \<open>
  C28. Once a subscriber is connected to all storage servers, its control loop ends, and with it the other threads,
  exactly when the ordering service and every thread of every storage server have said good-bye; a good-bye in
  any order and from an unknown server is handled without a fault, and so is one that arrives in the same batch
  after the last one that was needed. The messages come in batches of any size, and the ordering service says
  good-bye at most once.
\<close>

theorem control_ends_when_all_left:
  assumes "all_connected c" and "goodbyes (concat batches)"
  shows "\<exists>c'. control_run batches c = Inr c' \<and> ct_process c' = (\<not> ct_end c') \<and>
     (ct_end c' \<longleftrightarrow> Ev_order_finished \<in> set (concat batches) \<and>
        (\<forall>sid < NUM_SHARDS. \<forall>(rid, n) \<in> set (ct_storage_queues c ! sid). n \<le> said_goodbye (concat batches) sid rid))"
  by (rule control_run_ends [OF assms])

theorem control_ends_when_all_left_witness:
  "\<exists>c'. control_run [[Ev_storage_finished 0 7, Ev_order_finished], [Ev_storage_finished 0 7, Ev_storage_finished 0 7]]
      (control_init\<lparr>ct_storage_queues := [[(7, 2)]]\<rparr>) = Inr c' \<and> ct_end c'"
proof -
  have "all_connected (control_init\<lparr>ct_storage_queues := [[(7, 2)]]\<rparr>)"
    by (simp add: all_connected_def control_init_def NUM_SHARDS_def)
  from control_ends_when_all_left [OF this, of "[[Ev_storage_finished 0 7, Ev_order_finished], [Ev_storage_finished 0 7, Ev_storage_finished 0 7]]"]
  show ?thesis
    by (auto simp: goodbyes_def said_goodbye_def NUM_SHARDS_def)
qed

end
