(* ===== verification/Application.thy ===== *)
theory Application
  imports Subscriber_Facts
begin

text \<open>
  A subscriber as a whole: polling threads that count acknowledgements and insert into the log, application threads that
  read it, and the control thread that recycles blocks, in any interleaving. Every application thread gets exactly the
  entries that the polling threads deliver, every \<open>n\<close>-th from its first one in the order of the sequence numbers.
\<close>

subsection \<open>Runs\<close>

text \<open>
  \<open>got q\<close> are the packets that polling thread \<open>q\<close> has handled, \<open>books q\<close> its local variables, \<open>read i\<close> the entries
  that application thread \<open>i\<close> has handed to the callback.
\<close>

inductive subscriber_run ::
  "bool \<Rightarrow> nat \<Rightarrow> nat \<Rightarrow> nat \<Rightarrow> (nat \<Rightarrow> log_entry_msg list) \<Rightarrow> (nat \<Rightarrow> poll_state) \<Rightarrow> sub_sys \<Rightarrow> (nat \<Rightarrow> log_entry_msg list) \<Rightarrow> bool"
  for sequential n b f where
  run_start: "subscriber_run sequential n b f (\<lambda>_. []) (\<lambda>_. poll_init) (sub_log_init n, start_threads sequential n b) (\<lambda>_. [])"
| run_packet: "subscriber_run sequential n b f got books (l, its) read \<Longrightarrow> poll_entry f e l (books q) = Some (Inr (l', ps')) \<Longrightarrow>
    subscriber_run sequential n b f (got(q := got q @ [e])) (books(q := ps')) (l', its) read"
| run_recycle: "subscriber_run sequential n b f got books (l, its) read \<Longrightarrow> subscriber_run sequential n b f got books (recycle_blocks l, its) read"
| run_read: "subscriber_run sequential n b f got books (l, its) read \<Longrightarrow> i < n \<Longrightarrow> process_once l (its ! i) = Inr (es, l', it') \<Longrightarrow>
    subscriber_run sequential n b f got books (l', its[i := it']) (read(i := read i @ es))"

subsection \<open>The books of a polling thread\<close>

text \<open>The position in the log, which \<open>deliver\<close> leaves aside, does not influence what is delivered.\<close>

definition same_books :: "poll_state \<Rightarrow> poll_state \<Rightarrow> bool" where
  "same_books ps ps' \<longleftrightarrow> ps_current ps = ps_current ps' \<and> (\<forall>k. fst (info_of ps k) = fst (info_of ps' k))"

definition keyed :: "poll_state \<Rightarrow> bool" where
  "keyed ps \<longleftrightarrow> (\<forall>g x. map_of (ps_current ps) g = Some x \<longrightarrow> le_gsn x = g)"

lemma info_of_more [simp]:
  "info_of (ps\<lparr>ps_info := m, ps_current := c\<rparr>) = info_of (ps\<lparr>ps_info := m\<rparr>)" "info_of (ps\<lparr>ps_current := c\<rparr>) = info_of ps"
  by (simp_all add: info_of_def fun_eq_iff)

lemma ack_entry_same:
  assumes "same_books ps ps'"
  shows "same_books (fst (ack_entry f e ps)) (fst (ack_entry f e ps'))" and "snd (ack_entry f e ps) = snd (ack_entry f e ps')"
proof -
  let ?k = "(le_shard_id e, le_thread_id e)"
  obtain g pos pos' where "info_of ps ?k = (g, pos)" "info_of ps' ?k = (g, pos')"
    using assms by (metis (no_types, lifting) prod.collapse same_books_def)
  with assms show "same_books (fst (ack_entry f e ps)) (fst (ack_entry f e ps'))" "snd (ack_entry f e ps) = snd (ack_entry f e ps')"
    by (auto simp: ack_entry_def Let_def same_books_def)
qed

lemma ack_entry_info:
  "snd (info_of (fst (ack_entry f e ps)) k) = snd (info_of ps k)"
  "fst (info_of (fst (ack_entry f e ps)) k) =
     (if snd (ack_entry f e ps) \<noteq> None \<and> k = entry_key e then le_gsn e else fst (info_of ps k))"
  by (auto simp: ack_entry_def Let_def entry_key_def split: prod.split)

lemma ack_entry_keyed:
  assumes "keyed ps"
  shows "keyed (fst (ack_entry f e ps))" and "snd (ack_entry f e ps) = Some x \<Longrightarrow> le_gsn x = le_gsn e"
  using assms by (auto simp: ack_entry_def Let_def keyed_def update_conv' delete_conv' split: prod.splits if_splits option.splits)

lemma handed_out_newer:
  "snd (ack_entry f e ps) = Some x \<Longrightarrow> fst (info_of ps (entry_key e)) = UINT64_MAX \<or> fst (info_of ps (entry_key e)) < le_gsn e"
  by (auto simp: ack_entry_def Let_def entry_key_def split: prod.splits if_splits)

lemma deliver_append:
  "deliver f (xs @ [e]) ps =
     (let (ps1, out) = deliver f xs ps; (ps2, d) = ack_entry f e ps1 in (ps2, out @ (case d of None \<Rightarrow> [] | Some x \<Rightarrow> [x])))"
  by (induction xs arbitrary: ps) (auto simp: Let_def split: prod.splits)

lemma deliver_keyed: "keyed (fst (deliver f xs poll_init))"
proof (induction xs rule: rev_induct)
  case (snoc e xs)
  then show ?case
    using ack_entry_keyed(1) [OF snoc] by (simp add: deliver_append split_def Let_def)
qed (simp add: keyed_def poll_init_def)

subsection \<open>What is delivered\<close>

lemma delivered_entry:
  assumes "streams_ok es" and "\<And>k. finite (R k)" and "Suc f < 2 ^ 64" and "packets_ok es R pkts"
    and x: "x \<in> set (snd (deliver f pkts poll_init))"
  shows "\<exists>y \<in> set (es (entry_key x)). x = y\<lparr>le_replica_id := Suc f\<rparr>"
proof -
  have "x \<in> set (of_stream (entry_key x) (snd (deliver f pkts poll_init)))"
    using x by (simp add: of_stream_def)
  moreover obtain d where "of_stream (entry_key x) (snd (deliver f pkts poll_init)) =
      map (\<lambda>e. e\<lparr>le_replica_id := Suc f\<rparr>) (take d (es (entry_key x)))"
    using deliver_streams [where R = R, OF assms(1-4), of "entry_key x"] by blast
  ultimately obtain y where y: "y \<in> set (take d (es (entry_key x)))" "x = y\<lparr>le_replica_id := Suc f\<rparr>"
    by (metis (no_types, lifting) imageE list.set_map)
  show ?thesis
    by (rule bexI [where x = y]) (rule y(2), rule in_set_takeD [OF y(1)])
qed

lemma distinct_by_class:
  assumes "\<And>k. distinct (map g (filter (\<lambda>x. c x = k) xs))" and "\<And>x y. x \<in> set xs \<Longrightarrow> y \<in> set xs \<Longrightarrow> c x \<noteq> c y \<Longrightarrow> g x \<noteq> g y"
  shows "distinct (map g xs)"
  using assms
proof (induction xs)
  case (Cons x xs)
  have "distinct (map g (filter (\<lambda>x. c x = k) xs))" for k
    using Cons.prems(1) [of k] by (cases "c x = k") simp_all
  then have "distinct (map g xs)"
    by (rule Cons.IH) (simp add: Cons.prems(2))
  moreover have "g x \<noteq> g y" if "y \<in> set xs" for y
    using Cons.prems(1) [of "c x"] Cons.prems(2) [of x y] that by (cases "c x = c y") force+
  ultimately show ?case by auto
qed simp

lemma distinct_map_snoc: "distinct (map g (xs @ [x])) \<Longrightarrow> g x \<notin> g ` set xs"
  by simp

lemma delivered_distinct:
  assumes "streams_ok es" and "\<And>k. finite (R k)" and "Suc f < 2 ^ 64" and "packets_ok es R pkts"
  shows "distinct (map le_gsn (snd (deliver f pkts poll_init)))"
proof (rule distinct_by_class [where c = entry_key])
  fix k
  obtain d where d: "of_stream k (snd (deliver f pkts poll_init)) = map (\<lambda>e. e\<lparr>le_replica_id := Suc f\<rparr>) (take d (es k))"
    using deliver_streams [where R = R, OF assms, of k] by blast
  have "sorted_wrt (<) (map le_gsn (take d (es k)))"
    using streams_okD(1) [OF assms(1), of k] by (simp add: stream_ok_def sorted_wrt_take flip: take_map)
  then show "distinct (map le_gsn (filter (\<lambda>x. entry_key x = k) (snd (deliver f pkts poll_init))))"
    using d by (simp add: of_stream_def strict_sorted_iff comp_def)
next
  fix x y assume "x \<in> set (snd (deliver f pkts poll_init))" "y \<in> set (snd (deliver f pkts poll_init))" "entry_key x \<noteq> entry_key y"
  with delivered_entry [where R = R, OF assms] streams_okD(2) [OF assms(1), of "entry_key x" "entry_key y"] show "le_gsn x \<noteq> le_gsn y"
    by (metis imageI log_entry_msg.select_convs(5) log_entry_msg.surjective log_entry_msg.update_convs(1))
qed

subsection \<open>The subscriber\<close>

text \<open>
  The streams \<open>es q\<close> that are polled by different threads have different sequence numbers, and so do the streams that
  are polled by one thread.
\<close>

definition apart :: "(nat \<Rightarrow> u64 \<times> u64 \<Rightarrow> log_entry_msg list) \<Rightarrow> bool" where
  "apart es \<longleftrightarrow> (\<forall>q. streams_ok (es q)) \<and>
     (\<forall>q q' k k'. q \<noteq> q' \<longrightarrow> le_gsn ` set (es q k) \<inter> le_gsn ` set (es q' k') = {})"

definition place_ok :: "sub_log \<Rightarrow> u64 \<times> sub_position \<Rightarrow> bool" where
  "place_ok l x \<longleftrightarrow> position_ok l (snd x) \<and>
     sp_block_index (snd x) \<le> (if fst x = UINT64_MAX then 0 else fst x div NUM_ENTRIES_PER_BLOCK)"

definition books_ok :: "nat \<Rightarrow> log_entry_msg list \<Rightarrow> sub_log \<Rightarrow> poll_state \<Rightarrow> bool" where
  "books_ok f pkts l ps \<longleftrightarrow>
     same_books ps (fst (deliver f pkts poll_init)) \<and> (\<forall>k. place_ok l (info_of ps k))"

definition from_polls :: "nat \<Rightarrow> (nat \<Rightarrow> log_entry_msg list) \<Rightarrow> log_entry_msg set" where
  "from_polls f got = (\<Union>q. set (snd (deliver f (got q) poll_init)))"

text \<open>An application thread has read \<open>seen\<close>, of which the callback gets the entries with data.\<close>

definition reader_ok :: "bool \<Rightarrow> nat \<Rightarrow> nat \<Rightarrow> log_entry_msg set \<Rightarrow> sub_sys \<Rightarrow> log_entry_msg list \<Rightarrow> bool" where
  "reader_ok sequential n i D s es \<longleftrightarrow>
     (\<exists>seen. sub_at (first_entry sequential i) i n s (length seen) \<and> es = filter (\<lambda>e. le_data e \<noteq> []) seen \<and>
        map le_gsn seen = map (\<lambda>k. first_entry sequential i + k * n) [0..<length seen] \<and> set seen \<subseteq> D)"

definition subscriber_inv ::
  "bool \<Rightarrow> nat \<Rightarrow> nat \<Rightarrow> (nat \<Rightarrow> log_entry_msg list) \<Rightarrow> (nat \<Rightarrow> poll_state) \<Rightarrow> sub_sys \<Rightarrow> (nat \<Rightarrow> log_entry_msg list) \<Rightarrow> bool" where
  "subscriber_inv sequential n f got books s read \<longleftrightarrow>
     sys_inv n s \<and> length (snd s) = n \<and> (\<forall>q. books_ok f (got q) (fst s) (books q)) \<and>
     (\<forall>g e. slot_at (fst s) g = Some e \<longrightarrow> e \<in> from_polls f got) \<and>
     (\<forall>i < n. reader_ok sequential n i (from_polls f got) s (read i))"

lemma reader_env:
  assumes "reader_ok sequential n i D s es" and "sub_env i s s'" and "D \<subseteq> D'"
  shows "reader_ok sequential n i D' s' es"
proof -
  obtain seen where seen: "sub_at (first_entry sequential i) i n s (length seen)" "es = filter (\<lambda>e. le_data e \<noteq> []) seen"
      "map le_gsn seen = map (\<lambda>k. first_entry sequential i + k * n) [0..<length seen]" "set seen \<subseteq> D"
    using assms(1) by (auto simp: reader_ok_def)
  with subit.env_at [OF assms(2) seen(1)] assms(3) show ?thesis
    unfolding reader_ok_def by (intro exI [of _ seen]) auto
qed

lemma books_more_blocks:
  "books_ok f pkts l ps \<Longrightarrow> sl_num_blocks l \<le> sl_num_blocks l' \<Longrightarrow> books_ok f pkts l' ps"
  unfolding books_ok_def place_ok_def position_ok_def by (meson le_trans)

lemma subscriber_start:
  assumes "b \<le> 2"
  shows "subscriber_inv sequential n f (\<lambda>_. []) (\<lambda>_. poll_init) (sub_log_init n, start_threads sequential n b) (\<lambda>_. [])"
proof -
  have "length (start_threads sequential n b) = n"
    by (simp add: start_threads_def)
  moreover note threads_start [OF assms, where n = n and sequential = sequential]
  moreover have "books_ok f [] (sub_log_init n) poll_init"
    by (simp add: books_ok_def place_ok_def same_books_def poll_init_def info_of_def position_ok_def sub_position_init_def)
  moreover have "slot_at (sub_log_init n) g = None" for g
    by (simp add: slot_at_def sub_log_init_def Let_def zero_block_def nth_Cons' split: option.split)
  ultimately show ?thesis
    by (auto simp: subscriber_inv_def reader_ok_def intro!: exI [of _ "[]"])
qed

lemma subscriber_recycle:
  assumes "subscriber_inv sequential n f got books (l, its) read"
  shows "subscriber_inv sequential n f got books (recycle_blocks l, its) read"
proof -
  have inv: "sys_inv n (l, its)" using assms by (simp add: subscriber_inv_def)
  have "slot_at l g = Some e" if "slot_at (recycle_blocks l) g = Some e" for g e
    using recycle_ok(4) [OF inv that] .
  then show ?thesis
    using assms recycle_ok(1,2) [OF inv] books_more_blocks reader_env [OF _ env_recycle]
    unfolding subscriber_inv_def fst_conv snd_conv by blast
qed

lemma subscriber_read:
  assumes s: "subscriber_inv sequential n f got books (l, its) read" and i: "i < n" and run: "process_once l (its ! i) = Inr (es, l', it')"
  shows "subscriber_inv sequential n f got books (l', its[i := it']) (read(i := read i @ es))"
proof -
  let ?D = "from_polls f got"
  have inv: "sys_inv n (l, its)" and len: "length its = n" and cont: "\<And>g e. slot_at l g = Some e \<Longrightarrow> e \<in> ?D"
    and readers: "\<And>j. j < n \<Longrightarrow> reader_ok sequential n j ?D (l, its) (read j)" and books: "\<And>q. books_ok f (got q) l (books q)"
    using s by (simp_all add: subscriber_inv_def)
  have callback: "(case x of None \<Rightarrow> [] | Some e \<Rightarrow> if length (le_data e) > 0 then [e] else []) =
      filter (\<lambda>e. le_data e \<noteq> []) (case x of None \<Rightarrow> [] | Some e \<Rightarrow> [e])" for x
    by (cases x) simp_all
  obtain r where r: "sub_next_entry l (its ! i) = Inr (r, l', it')" "es = filter (\<lambda>e. le_data e \<noteq> []) (case r of None \<Rightarrow> [] | Some x \<Rightarrow> [x])"
    using run by (auto simp: process_once_def rbind_eq_Inr callback)
  have i': "i < length its" using i len by simp
  note poll = sub_poll_other [OF inv i' r(1)]
  have blocks: "sl_num_blocks l' = sl_num_blocks l"
    using poll inv by (simp add: sys_inv_def sub_log_ok_def)
  have "reader_ok sequential n j ?D (l', its[i := it']) ((read(i := read i @ es)) j)" if j: "j < n" for j
  proof (cases "j = i")
    case False
    have "sub_env j (l, its) (l', its[i := it'])"
      by (rule env_poll [OF _ i' r(1)]) (use False in simp)
    from reader_env [OF readers [OF j] this] False show ?thesis by simp
  next
    case True
    obtain seen where seen: "sub_at (first_entry sequential i) i n (l, its) (length seen)" "read i = filter (\<lambda>e. le_data e \<noteq> []) seen"
        "map le_gsn seen = map (\<lambda>k. first_entry sequential i + k * n) [0..<length seen]" "set seen \<subseteq> ?D"
      using readers [OF i] by (auto simp: reader_ok_def)
    let ?g = "next_index (first_entry sequential i) n (length seen)"
    obtain l2 it2 where two: "sub_next_entry l (its ! i) = Inr (slot_at l ?g, l2, it2)"
        "sub_at (first_entry sequential i) i n (l2, its[i := it2]) (if slot_at l ?g = None then length seen else Suc (length seen))"
      by (rule sub_next_entry_ok [OF seen(1)])
    then have "r = slot_at l ?g" and "sub_at (first_entry sequential i) i n (l', its[i := it']) (if slot_at l ?g = None then length seen else Suc (length seen))"
      using r(1) by simp_all
    moreover have "le_gsn e = ?g" if "slot_at l ?g = Some e" for e
      using inv that by (simp add: sys_inv_def sub_log_ok_def)
    ultimately show ?thesis
      unfolding reader_ok_def using seen r(2) cont [of ?g] True
      by (intro exI [of _ "seen @ (case r of None \<Rightarrow> [] | Some x \<Rightarrow> [x])"]) (auto simp: next_index_def split: option.splits)
  qed
  moreover have "books_ok f (got q) l' (books q)" for q
    using books_more_blocks [OF books] blocks by simp
  ultimately show ?thesis
    using poll(1) len cont slot_at_cong [OF poll(2)] by (simp add: subscriber_inv_def)
qed

lemma from_polls_packet:
  "from_polls f (got(q := got q @ [e])) =
     from_polls f got \<union> set (case snd (ack_entry f e (fst (deliver f (got q) poll_init))) of None \<Rightarrow> [] | Some x \<Rightarrow> [x])"
  unfolding from_polls_def by (auto simp: deliver_append split_def Let_def split: if_splits)

lemma sub_insert_position:
  assumes "sub_insert e l p = Some (Inr (l', p'))" and "sp_block_index p \<le> le_gsn e div NUM_ENTRIES_PER_BLOCK"
  shows "sp_block_index p' = le_gsn e div NUM_ENTRIES_PER_BLOCK" and "sl_num_blocks l' = sl_num_blocks l"
  using assms by (auto simp: sub_insert_def Let_def split: if_splits option.splits)

text \<open>The books after a packet whose entry is not delivered, and after one whose entry is.\<close>

lemma books_counted:
  assumes "books_ok f pkts l ps" and "ack_entry f e ps = (ps', None)"
  shows "books_ok f (pkts @ [e]) l ps'"
proof -
  have same: "same_books ps (fst (deliver f pkts poll_init))"
    using assms(1) by (simp add: books_ok_def)
  have "same_books ps' (fst (deliver f (pkts @ [e]) poll_init))"
    using ack_entry_same(1) [OF same, of f e] assms(2) by (simp add: deliver_append split_def Let_def)
  moreover have "info_of ps' k = info_of ps k" for k
    using ack_entry_info [of f e ps k] assms(2) by (simp add: prod_eq_iff)
  ultimately show ?thesis
    using assms(1) unfolding books_ok_def by simp
qed

lemma books_delivered:
  assumes ok: "books_ok f pkts l ps" and ack: "ack_entry f e ps = (ps1, Some x)" and small: "le_gsn e < UINT64_MAX"
    and ins: "sub_insert x l (snd (info_of ps (entry_key e))) = Some (Inr (l', pos'))" and x: "le_gsn x = le_gsn e" and inv: "sys_inv n (l, its)"
  shows "books_ok f (pkts @ [e]) l' (ps1\<lparr>ps_info := AList.update (entry_key e) (le_gsn e, pos') (ps_info ps1)\<rparr>)" (is "books_ok _ _ _ ?ps")
    and "position_ok l (snd (info_of ps (entry_key e)))" and "sp_block_index (snd (info_of ps (entry_key e))) \<le> le_gsn x div NUM_ENTRIES_PER_BLOCK"
proof -
  have same: "same_books ps (fst (deliver f pkts poll_init))" and place: "\<And>k. place_ok l (info_of ps k)"
    using ok unfolding books_ok_def by blast+
  then have idx: "sp_block_index (snd (info_of ps (entry_key e))) \<le>
      (if fst (info_of ps (entry_key e)) = UINT64_MAX then 0 else fst (info_of ps (entry_key e)) div NUM_ENTRIES_PER_BLOCK)"
    unfolding place_ok_def by blast
  show p: "position_ok l (snd (info_of ps (entry_key e)))"
    using place unfolding place_ok_def by blast
  have "fst (info_of ps (entry_key e)) = UINT64_MAX \<or> fst (info_of ps (entry_key e)) < le_gsn e"
    using handed_out_newer [of f e ps x] ack by simp
  then have "(if fst (info_of ps (entry_key e)) = UINT64_MAX then 0 else fst (info_of ps (entry_key e)) div NUM_ENTRIES_PER_BLOCK) \<le>
      le_gsn e div NUM_ENTRIES_PER_BLOCK"
    by (auto intro: div_le_mono)
  with idx show b: "sp_block_index (snd (info_of ps (entry_key e))) \<le> le_gsn x div NUM_ENTRIES_PER_BLOCK"
    unfolding x by (rule le_trans)
  have info: "info_of ?ps k = (if k = entry_key e then (le_gsn e, pos') else info_of ps k)" for k
    using ack_entry_info [of f e ps k] ack by (simp add: prod_eq_iff)
  have "fst (info_of (fst (deliver f (pkts @ [e]) poll_init)) k) = fst (info_of ?ps k)" for k
  proof -
    have "fst (info_of (fst (deliver f (pkts @ [e]) poll_init)) k) = fst (info_of (fst (ack_entry f e (fst (deliver f pkts poll_init)))) k)"
      by (simp add: deliver_append split_def Let_def)
    also have "\<dots> = (if k = entry_key e then le_gsn e else fst (info_of (fst (deliver f pkts poll_init)) k))"
      using ack_entry_same(2) [OF same, of f e] ack by (auto simp: ack_entry_info(2))
    finally show ?thesis
      unfolding info using same by (simp add: same_books_def del: split_paired_All)
  qed
  moreover have "ps_current (fst (deliver f (pkts @ [e]) poll_init)) = ps_current ?ps"
    using ack_entry_same(1) [OF same, of f e] ack by (simp add: deliver_append split_def Let_def same_books_def)
  ultimately have "same_books ?ps (fst (deliver f (pkts @ [e]) poll_init))"
    by (simp add: same_books_def)
  moreover have "place_ok l' (info_of ?ps k)" for k
  proof (cases "k = entry_key e")
    case True
    with sub_insert_position [OF ins b] sub_insert_ok(4) [OF inv p b ins] small show ?thesis
      by (simp add: info place_ok_def x)
  next
    case False
    then have "info_of ?ps k = info_of ps k"
      unfolding info by simp
    with place [of k] sub_insert_position(2) [OF ins b] show ?thesis
      by (simp only: place_ok_def position_ok_def)
  qed
  ultimately show "books_ok f (pkts @ [e]) l' ?ps"
    unfolding books_ok_def by blast
qed

text \<open>The place of an entry that is delivered is free: no other thread, and this one not before, has delivered its number.\<close>

lemma delivered_place_free:
  assumes inv: "sys_inv n (l, its)" and cont: "\<And>g e. slot_at l g = Some e \<Longrightarrow> e \<in> from_polls f got"
    and es: "apart es" and R: "\<And>k. finite (R k)" and f: "Suc f < 2 ^ 64" and pkts: "\<And>q. packets_ok (es q) R (got' q)"
    and other: "\<And>q'. q' \<noteq> q \<Longrightarrow> got' q' = got q'"
    and all: "snd (deliver f (got' q) poll_init) = snd (deliver f (got q) poll_init) @ [x]"
  shows "slot_at l (le_gsn x) = None"
proof (rule ccontr)
  have ok: "streams_ok (es q')" for q'
    using es by (simp add: apart_def)
  note entry = delivered_entry [where R = R, OF ok R f pkts]
  assume "slot_at l (le_gsn x) \<noteq> None"
  then obtain e' where e': "slot_at l (le_gsn x) = Some e'" by blast
  then have same_gsn: "le_gsn e' = le_gsn x"
    using inv by (simp add: sys_inv_def sub_log_ok_def)
  obtain q' where q': "e' \<in> set (snd (deliver f (got q') poll_init))"
    using cont [OF e'] by (auto simp: from_polls_def)
  show False
  proof (cases "q' = q")
    case True
    with q' same_gsn delivered_distinct [where R = R, OF ok R f pkts, of q] all show False
      by (metis distinct_map_snoc image_eqI)
  next
    case False
    then obtain y' y where "y' \<in> set (es q' (entry_key e'))" "le_gsn y' = le_gsn e'" "y \<in> set (es q (entry_key x))" "le_gsn y = le_gsn x"
      using entry [of e' q'] entry [of x q] q' all other [OF False] by force
    with False es same_gsn show False
      unfolding apart_def by (metis disjoint_iff image_eqI)
  qed
qed

text \<open>A packet that completes a quorum: its entry goes to its place, which was free.\<close>

lemma packet_delivered:
  assumes s: "subscriber_inv sequential n f got books (l, its) read" and run: "poll_entry f e l (books q) = Some (Inr (l', ps'))"
    and es: "apart es" and R: "\<And>k. finite (R k)" and f: "Suc f < 2 ^ 64"
    and pkts: "\<And>q'. packets_ok (es q') R ((got(q := got q @ [e])) q')" and ack: "ack_entry f e (books q) = (ps1, Some x)"
  shows "from_polls f (got(q := got q @ [e])) = insert x (from_polls f got)" and "slot_at l (le_gsn x) = None"
    and "slot_at l' = (slot_at l)(le_gsn x := Some x)" and "sl_block l' = sl_block l" and "sl_num_blocks l' = sl_num_blocks l"
    and "books_ok f (got q @ [e]) l' ps'" and "sys_inv n (l', its)" and "sub_env j (l, its) (l', its)"
proof -
  let ?got = "got(q := got q @ [e])" and ?ps = "fst (deliver f (got q) poll_init)"
  have inv: "sys_inv n (l, its)" and cont: "\<And>g e. slot_at l g = Some e \<Longrightarrow> e \<in> from_polls f got" and books: "books_ok f (got q) l (books q)"
    using s by (simp_all add: subscriber_inv_def)
  have same: "same_books (books q) ?ps" using books by (simp add: books_ok_def)
  have d: "snd (ack_entry f e ?ps) = Some x"
    using ack_entry_same(2) [OF same, of f e] ack by simp
  then show D': "from_polls f ?got = insert x (from_polls f got)"
    by (simp add: from_polls_packet)
  have gsn: "le_gsn x = le_gsn e"
    using ack_entry_keyed(2) [OF deliver_keyed, of f e] d by simp
  have all: "snd (deliver f (?got q) poll_init) = snd (deliver f (got q) poll_init) @ [x]"
    using d by (simp add: deliver_append split_def Let_def)
  have ok: "streams_ok (es q')" for q'
    using es by (simp add: apart_def)
  have small: "le_gsn e < UINT64_MAX"
    using delivered_entry [where R = R, OF ok R f pkts, of x q] all streams_okD(1) [OF ok [of q], of "entry_key x"] gsn
    by (auto simp: stream_ok_def)
  obtain pos' where ins: "sub_insert x l (snd (info_of (books q) (entry_key e))) = Some (Inr (l', pos'))"
    and ps': "ps' = ps1\<lparr>ps_info := AList.update (entry_key e) (le_gsn e, pos') (ps_info ps1)\<rparr>"
    using run ack ack_entry_info(1) [of f e "books q" "entry_key e"]
    by (auto simp: poll_entry_def rbind_eq_Inr entry_key_def Let_def split: if_splits)
  note new = books_delivered [OF books ack small ins gsn inv]
  show free: "slot_at l (le_gsn x) = None"
    by (rule delivered_place_free [OF inv cont es R f pkts _ all]) simp_all
  show "slot_at l' = (slot_at l)(le_gsn x := Some x)" "sl_block l' = sl_block l" "sys_inv n (l', its)"
    using sub_insert_ok(1-3) [OF inv new(2,3) ins] by simp_all
  show "sl_num_blocks l' = sl_num_blocks l" "books_ok f (got q @ [e]) l' ps'"
    using sub_insert_position(2) [OF ins new(3)] new(1) ps' by simp_all
  show "sub_env j (l, its) (l', its)"
    by (rule env_insert [OF new(2,3) free ins])
qed

lemma packet_counted:
  assumes s: "subscriber_inv sequential n f got books (l, its) read" and run: "poll_entry f e l (books q) = Some (Inr (l', ps'))"
    and ack: "ack_entry f e (books q) = (ps1, None)"
  shows "from_polls f (got(q := got q @ [e])) = from_polls f got" and "l' = l" and "books_ok f (got q @ [e]) l ps'"
proof -
  have books: "books_ok f (got q) l (books q)"
    using s by (simp add: subscriber_inv_def)
  have same: "same_books (books q) (fst (deliver f (got q) poll_init))"
    using books by (simp add: books_ok_def)
  show "from_polls f (got(q := got q @ [e])) = from_polls f got"
    using ack_entry_same(2) [OF same, of f e] ack by (simp add: from_polls_packet)
  have "l' = l \<and> ps' = ps1"
    using run ack by (auto simp: poll_entry_def split: if_splits)
  with books_counted [OF books ack] show "l' = l" "books_ok f (got q @ [e]) l ps'"
    by simp_all
qed

lemma subscriber_packet:
  assumes s: "subscriber_inv sequential n f got books (l, its) read" and run: "poll_entry f e l (books q) = Some (Inr (l', ps'))"
    and es: "apart es" and R: "\<And>k. finite (R k)" and f: "Suc f < 2 ^ 64"
    and pkts: "\<And>q'. packets_ok (es q') R ((got(q := got q @ [e])) q')"
  shows "subscriber_inv sequential n f (got(q := got q @ [e])) (books(q := ps')) (l', its) read"
proof -
  let ?D = "from_polls f got" and ?got = "got(q := got q @ [e])"
  have len: "length its = n" and cont: "\<And>g e. slot_at l g = Some e \<Longrightarrow> e \<in> ?D"
    and readers: "\<And>j. j < n \<Longrightarrow> reader_ok sequential n j ?D (l, its) (read j)" and books: "\<And>q. books_ok f (got q) l (books q)"
    using s by (simp_all add: subscriber_inv_def)
  obtain ps1 d where ack: "ack_entry f e (books q) = (ps1, d)" by fastforce
  show ?thesis
  proof (cases d)
    case None
    with packet_counted [OF s run] ack s show ?thesis
      by (simp add: subscriber_inv_def)
  next
    case (Some x)
    note new = packet_delivered [where R = R, OF s run es R f pkts ack [unfolded Some]]
    have "reader_ok sequential n j (from_polls f ?got) (l', its) (read j)" if "j < n" for j
      using reader_env [OF readers [OF that] new(8)] new(1) by blast
    moreover have "books_ok f (?got q') l' ((books(q := ps')) q')" for q'
      using new(6) books_more_blocks [OF books] new(5) by simp
    ultimately show ?thesis
      using len cont new(3,7) unfolding subscriber_inv_def new(1) by simp
  qed
qed

lemma subscriber_run_inv:
  assumes "subscriber_run sequential n b f got books s read" and "b \<le> 2" and "apart es" and "\<And>k. finite (R k)" and "Suc f < 2 ^ 64"
    and "\<And>q. packets_ok (es q) R (got q)"
  shows "subscriber_inv sequential n f got books s read"
  using assms(1,6)
proof (induction rule: subscriber_run.induct)
  case run_start
  show ?case by (rule subscriber_start [OF assms(2)])
next
  case (run_packet got books l its read e q l' ps')
  have "packets_ok (es q') R (got q')" for q'
    using run_packet.prems [of q'] packets_ok_append [of "es q" R "got q" "[e]"] by (cases "q' = q") auto
  from subscriber_packet [where R = R, OF run_packet.IH [OF this] run_packet.hyps(2) assms(3-5) run_packet.prems] show ?case .
next
  case (run_recycle got books l its read)
  then show ?case by (intro subscriber_recycle) blast
next
  case (run_read got books l its read i es' l' it')
  then show ?case by (intro subscriber_read) blast+
qed

text \<open>
  Every application thread has read a first part of the sequence numbers that are its own, in order, and each entry
  is one of the streams.
\<close>

lemma application_reads:
  assumes "subscriber_run sequential n b f got books s read" and "b \<le> 2" and "apart es" and "\<And>k. finite (R k)" and "Suc f < 2 ^ 64"
    and "\<And>q. packets_ok (es q) R (got q)" and "i < n"
  shows "\<exists>seen. read i = filter (\<lambda>e. le_data e \<noteq> []) seen \<and> map le_gsn seen = map (\<lambda>k. first_entry sequential i + k * n) [0..<length seen] \<and>
    (\<forall>e \<in> set seen. \<exists>q. \<exists>y \<in> set (es q (entry_key e)). e = y\<lparr>le_replica_id := Suc f\<rparr>)"
proof -
  have "reader_ok sequential n i (from_polls f got) s (read i)"
    using subscriber_run_inv [where R = R, OF assms(1-6)] assms(7) by (simp add: subscriber_inv_def)
  then obtain seen where seen: "read i = filter (\<lambda>e. le_data e \<noteq> []) seen"
      "map le_gsn seen = map (\<lambda>k. first_entry sequential i + k * n) [0..<length seen]" "set seen \<subseteq> from_polls f got"
    by (auto simp: reader_ok_def)
  have ok: "streams_ok (es q)" for q
    using assms(3) by (simp add: apart_def)
  have "\<exists>q. \<exists>y \<in> set (es q (entry_key e)). e = y\<lparr>le_replica_id := Suc f\<rparr>" if "e \<in> set seen" for e
    using that seen(3) delivered_entry [where R = R, OF ok assms(4-6)] by (force simp: from_polls_def)
  with seen(1,2) show ?thesis by blast
qed

end
