(* ===== verification/End_To_End.thy ===== *)
theory End_To_End
  imports Feed Application
begin

text \<open>
  From the clients to the subscribers: what a polling thread of a subscriber delivers is a part of the common log
  of the shard, in the order of the log, and what an application thread reads are entries of the logs of the shards,
  in the order of their sequence numbers.
\<close>

subsection \<open>What a server sends to a polling thread\<close>

text \<open>The entries sent to receive queue \<open>q\<close> of a subscriber, up to when it leaves.\<close>

definition entries_to :: "u64 \<Rightarrow> nat \<Rightarrow> send list \<Rightarrow> log_entry_msg list" where
  "entries_to sid q out =
     map (\<lambda>x. sle_entry (s_msg x)) (filter (\<lambda>x. s_queue x = q)
       (takeWhile (\<lambda>x. msg_type (s_msg x) = SUBSCRIBER_LOG_ENTRY) (sent_to sid out)))"

text \<open>The entry in the \<open>k\<close>-th slot of thread \<open>i\<close> of \<open>n\<close>, and the receive queue it goes to.\<close>

definition shard_entry :: "abs_log \<Rightarrow> u64 \<Rightarrow> nat \<Rightarrow> nat \<Rightarrow> u64 \<Rightarrow> nat \<Rightarrow> log_entry_msg" where
  "shard_entry a shard n i rid k =
     \<lparr>le_replica_id = rid, le_shard_id = shard, le_thread_id = i, le_client_id = fst (al_slots a ! (i + k * n)),
      le_gsn = snd (al_slots a ! (i + k * n)), le_data = abs_content a (i + k * n)\<rparr>"

definition queue_of :: "nat \<Rightarrow> nat \<Rightarrow> nat \<Rightarrow> nat \<Rightarrow> nat" where
  "queue_of n nq i k = 1 + (i + k * n) mod 2 ^ 64 mod nq"

lemma takeWhile_all_append: "(\<And>x. x \<in> set xs \<Longrightarrow> P x) \<Longrightarrow> \<not> P y \<Longrightarrow> takeWhile P (xs @ y # zs) = xs"
  by (simp add: takeWhile_append)

lemma entries_of_fed:
  assumes "fed_to s t out n sid nq" and "th_index t = i"
  obtains k where "k \<le> n" "entries_to sid q out =
    map (slot_entry s i) (filter (\<lambda>k. queue_of (st_subscriber_threads s) nq i k = q) [0..<k])"
proof -
  let ?P = "\<lambda>x. msg_type (s_msg x) = SUBSCRIBER_LOG_ENTRY"
  have "takeWhile ?P (map (entry_send s i sid nq) ks) = map (entry_send s i sid nq) ks"
    "takeWhile ?P (map (entry_send s i sid nq) ks @ Send d (Storage_finished a b) 0 True # rest) = map (entry_send s i sid nq) ks"
    for ks d a b rest
    by (auto simp: takeWhile_eq_all_conv entry_send_def intro!: takeWhile_all_append)
  then obtain k where k: "k \<le> n" "takeWhile ?P (sent_to sid out) = map (entry_send s i sid nq) [0..<k]"
    using assms(1) unfolding fed_to_def assms(2) by (metis order_refl)
  show thesis
    by (rule that [OF k(1)])
      (simp add: entries_to_def k(2) filter_map comp_def entry_send_def queue_of_def thread_slot_def)
qed

lemma server_entries:
  assumes run: "sys_run P subs y" and p: "p \<in> P" and i: "i < st_subscriber_threads (sy_server y p)" and sub: "(sid, nq) \<in> set (subs p i)"
  defines "n \<equiv> st_subscriber_threads (sy_server y p)"
  obtains m where "entries_to sid q (sy_thread_out y p i) =
      map (shard_entry (shard_log y p) (fst p) n i (snd p)) (filter (\<lambda>k. queue_of n nq i k = q) [0..<m])"
    "\<And>k. k < m \<Longrightarrow> i + k * n < length (al_slots (shard_log y p)) \<and> abs_filled (shard_log y p) (i + k * n)"
proof -
  let ?s = "sy_server y p"
  have inv: "system_inv P y" using sys_run_inv [OF run] .
  have ids: "st_shard_id ?s = fst p" "st_replica_id ?s = snd p"
    using inv p by (simp_all add: system_inv_def server_ok_def)
  have log: "l_num_entries (st_log ?s) \<le> l_current_entries (st_log ?s)"
    using server_inv [OF inv p] by (simp add: storage_inv_def log_inv_def)
  note feeds = sys_run_feeds [OF run]
  obtain m where f: "fed (subs p i) ?s (sy_thread y p i) (sy_thread_out y p i) m"
    using feedsD(2) [OF feeds p i] ..
  have "fed_to ?s (sy_thread y p i) (sy_thread_out y p i) m sid nq"
    using f sub by (auto simp: fed_def)
  then obtain k where k: "k \<le> m" "entries_to sid q (sy_thread_out y p i) = map (slot_entry ?s i) (filter (\<lambda>k. queue_of n nq i k = q) [0..<k])"
    using entries_of_fed [OF _ feedsD(1) [OF feeds p i]] unfolding n_def by blast
  have slot: "i + j * n < l_current_entries (st_log ?s)" "e_set (ent (st_log ?s) (i + j * n))" if "j < k" for j
    using f that k(1) log feedsD(1) [OF feeds p i] by (auto simp: fed_def thread_slot_def n_def intro: less_le_trans [OF _ log])
  have "slot_entry ?s i j = shard_entry (shard_log y p) (fst p) n i (snd p) j" if "j < k" for j
    using server_log(2,3) [OF run p slot(1) [OF that]] slot(2) [OF that]
    by (simp add: slot_entry_def shard_entry_def Let_def thread_slot_def ids n_def)
  then have "map (slot_entry ?s i) (filter (\<lambda>k. queue_of n nq i k = q) [0..<k]) =
      map (shard_entry (shard_log y p) (fst p) n i (snd p)) (filter (\<lambda>k. queue_of n nq i k = q) [0..<k])"
    by (intro map_cong) auto
  with k(2) that [of k] server_log(1,3) [OF run p slot(1)] slot(2) show thesis
    by auto
qed

subsection \<open>The streams of a polling thread\<close>

lemma shard_numbers:
  assumes run: "sys_run P subs y" and p: "p \<in> P"
  shows "j < j' \<Longrightarrow> j' < length (al_slots (shard_log y p)) \<Longrightarrow> snd (al_slots (shard_log y p) ! j) < snd (al_slots (shard_log y p) ! j')"
    and "j < length (al_slots (shard_log y p)) \<Longrightarrow> snd (al_slots (shard_log y p) ! j) < UINT64_MAX"
    and "q \<in> P \<Longrightarrow> fst p \<noteq> fst q \<Longrightarrow> j < length (al_slots (shard_log y p)) \<Longrightarrow> j' < length (al_slots (shard_log y q)) \<Longrightarrow>
      snd (al_slots (shard_log y p) ! j) \<noteq> snd (al_slots (shard_log y q) ! j')"
proof -
  have o: "order_part P y"
    using sys_run_inv [OF run] by (simp add: system_inv_def)
  note n = order_partD(5) [OF o p] and base = order_partD(6) [OF o p]
  have slots: "al_slots (shard_log y q) = ops_slots (control_ops (from_order y q))" for q
    by (simp add: shard_log_def common_log_slots)
  have sorted: "sorted_wrt (<) (map snd (al_slots (shard_log y p)))"
    using n p by (simp add: numbered_def slots)
  show "snd (al_slots (shard_log y p) ! j) < snd (al_slots (shard_log y p) ! j')"
    if "j < j'" "j' < length (al_slots (shard_log y p))"
    using sorted_wrt_nth_less [OF sorted that(1)] that by simp
  show "snd (al_slots (shard_log y p) ! j) < UINT64_MAX" if "j < length (al_slots (shard_log y p))"
  proof -
    have "snd (al_slots (shard_log y p) ! j) < os_gsn_base (sy_order y)"
      using n p nth_mem [OF that] unfolding numbered_def slots by blast
    with base show ?thesis by (simp add: UINT64_MAX_def)
  qed
  show "snd (al_slots (shard_log y p) ! j) \<noteq> snd (al_slots (shard_log y q) ! j')"
    if "q \<in> P" "fst p \<noteq> fst q" "j < length (al_slots (shard_log y p))" "j' < length (al_slots (shard_log y q))"
  proof -
    have "snd ` set (al_slots (shard_log y p)) \<inter> snd ` set (al_slots (shard_log y q)) = {}"
      using n p that(1,2) unfolding numbered_def slots by blast
    with nth_mem [OF that(3)] nth_mem [OF that(4)] show ?thesis by blast
  qed
qed

text \<open>A sequence number belongs to one slot of one shard.\<close>

lemma slot_of_number:
  assumes run: "sys_run P subs y" and p: "p \<in> P" "j < length (al_slots (shard_log y p))" and q: "q \<in> P" "j' < length (al_slots (shard_log y q))"
    and gsn: "snd (al_slots (shard_log y p) ! j) = snd (al_slots (shard_log y q) ! j')"
  shows "fst p = fst q" and "j = j'"
proof -
  show shard: "fst p = fst q"
    using shard_numbers(3) [OF run p(1) q(1) _ p(2) q(2)] gsn by blast
  have "shard_log y q = shard_log y p"
    using shard_log_same [OF sys_run_inv [OF run] p(1) q(1) shard] by simp
  with shard_numbers(1) [OF run p(1), of j j'] shard_numbers(1) [OF run p(1), of j' j] p(2) q(2) gsn show "j = j'"
    by (cases j j' rule: linorder_cases) simp_all
qed

text \<open>The streams, when server \<open>p\<close> has sent the first \<open>m p i\<close> slots of thread \<open>i\<close> to the polling thread \<open>q\<close>.\<close>

definition stream_of ::
  "server_id set \<Rightarrow> system \<Rightarrow> nat \<Rightarrow> (nat \<Rightarrow> nat \<Rightarrow> bool) \<Rightarrow> (u64 \<Rightarrow> nat \<Rightarrow> nat) \<Rightarrow> u64 \<times> u64 \<Rightarrow> log_entry_msg list" where
  "stream_of P y n Q m key =
     (let (shard, i) = key
      in if i < n \<and> (\<exists>p \<in> P. fst p = shard)
         then map (shard_entry (shard_log y (SOME p. p \<in> P \<and> fst p = shard)) shard n i 0) (filter (Q i) [0..<m shard i]) else [])"

lemma some_server: "p \<in> P \<Longrightarrow> (SOME p'. p' \<in> P \<and> fst p' = fst p) \<in> P \<and> fst (SOME p'. p' \<in> P \<and> fst p' = fst p) = fst p"
  by (rule someI [of "\<lambda>p'. p' \<in> P \<and> fst p' = fst p" p]) simp

lemma stream_of_eq:
  assumes run: "sys_run P subs y" and p: "p \<in> P" and i: "i < n"
  shows "stream_of P y n Q m (fst p, i) = map (shard_entry (shard_log y p) (fst p) n i 0) (filter (Q i) [0..<m (fst p) i])"
  using shard_log_same [OF sys_run_inv [OF run], of "SOME p'. p' \<in> P \<and> fst p' = fst p" p] some_server [OF p] p i
  by (auto simp: stream_of_def)

lemma stream_of_cases:
  assumes run: "sys_run P subs y" and e: "e \<in> set (stream_of P y n Q m key)"
  obtains p i k where "p \<in> P" "i < n" "key = (fst p, i)" "k < m (fst p) i" "Q i k" "e = shard_entry (shard_log y p) (fst p) n i 0 k"
proof -
  obtain shard i where key: "key = (shard, i)" by fastforce
  with e obtain p where p: "p \<in> P" "fst p = shard" "i < n"
    by (auto simp: stream_of_def split: if_splits)
  with e key stream_of_eq [OF run p(1) p(3), of Q m] obtain k
    where "k < m (fst p) i" "Q i k" "e = shard_entry (shard_log y p) (fst p) n i 0 k" by auto
  with that [OF p(1,3), of k] p(2) key show thesis by simp
qed

lemma stream_of_apart:
  assumes run: "sys_run P subs y"
    and m: "\<And>p i k. p \<in> P \<Longrightarrow> i < n \<Longrightarrow> k < m (fst p) i \<Longrightarrow> i + k * n < length (al_slots (shard_log y p))"
    and m': "\<And>p i k. p \<in> P \<Longrightarrow> i < n \<Longrightarrow> k < m' (fst p) i \<Longrightarrow> i + k * n < length (al_slots (shard_log y p))"
    and e: "e \<in> set (stream_of P y n Q m key)" and e': "e' \<in> set (stream_of P y n Q' m' key')" and gsn: "le_gsn e = le_gsn e'"
  obtains i k where "snd key = i" "key = key'" "Q i k" "Q' i k"
proof -
  obtain p i k where p: "p \<in> P" "i < n" "key = (fst p, i)" "k < m (fst p) i" "Q i k" "e = shard_entry (shard_log y p) (fst p) n i 0 k"
    using stream_of_cases [OF run e] .
  obtain q j l where q: "q \<in> P" "j < n" "key' = (fst q, j)" "l < m' (fst q) j" "Q' j l" "e' = shard_entry (shard_log y q) (fst q) n j 0 l"
    using stream_of_cases [OF run e'] .
  have "snd (al_slots (shard_log y p) ! (i + k * n)) = snd (al_slots (shard_log y q) ! (j + l * n))"
    using gsn p(6) q(6) by (simp add: shard_entry_def)
  note slot = slot_of_number [OF run p(1) m [OF p(1,2,4)] q(1) m' [OF q(1,2,4)] this]
  have "(i + k * n) mod n = i" "(j + l * n) mod n = j"
    using p(2) q(2) by simp_all
  with slot(2) have "i = j" by simp
  moreover from this slot(2) p(2) have "k = l" by simp
  ultimately show thesis
    using that [of i k] p(3,5) q(3,5) slot(1) by simp
qed

lemma stream_of_ok:
  assumes run: "sys_run P subs y" and m: "\<And>p i k. p \<in> P \<Longrightarrow> i < n \<Longrightarrow> k < m (fst p) i \<Longrightarrow> i + k * n < length (al_slots (shard_log y p))"
  shows "streams_ok (stream_of P y n Q m)"
  unfolding streams_ok_def
proof (intro conjI allI ballI impI)
  fix key e assume "e \<in> set (stream_of P y n Q m key)"
  then show "entry_key e = key" "le_gsn e < UINT64_MAX"
    using m shard_numbers(2) [OF run] by (auto elim!: stream_of_cases [OF run] simp: entry_key_def shard_entry_def)
next
  fix key :: "u64 \<times> u64"
  show "sorted_wrt (<) (map le_gsn (stream_of P y n Q m key))"
  proof (cases "\<exists>p \<in> P. fst p = fst key \<and> snd key < n")
    case True
    then obtain p where p: "p \<in> P" "fst p = fst key" "snd key < n" by blast
    have "sorted_wrt (<) (filter (Q (snd key)) [0..<m (fst p) (snd key)])"
      by (intro sorted_wrt_filter sorted_wrt_upt)
    then have "sorted_wrt (\<lambda>k k'. le_gsn (shard_entry (shard_log y p) (fst p) n (snd key) 0 k) <
        le_gsn (shard_entry (shard_log y p) (fst p) n (snd key) 0 k')) (filter (Q (snd key)) [0..<m (fst p) (snd key)])"
      by (rule sorted_wrt_mono_rel [rotated])
        (use m [OF p(1,3)] p(3) in \<open>auto simp: shard_entry_def intro!: shard_numbers(1) [OF run p(1)]\<close>)
    with stream_of_eq [OF run p(1,3), of Q m] p(2) show ?thesis
      by (simp add: sorted_wrt_map)
  next
    case False
    then have "stream_of P y n Q m key = []"
      by (auto simp: stream_of_def split: prod.splits)
    then show ?thesis by simp
  qed
next
  fix key key' :: "u64 \<times> u64" assume diff: "key \<noteq> key'"
  have "le_gsn e \<noteq> le_gsn e'" if "e \<in> set (stream_of P y n Q m key)" "e' \<in> set (stream_of P y n Q m key')" for e e'
    using stream_of_apart [OF run m m that] diff by blast
  then show "le_gsn ` set (stream_of P y n Q m key) \<inter> le_gsn ` set (stream_of P y n Q m key') = {}"
    by blast
qed

subsection \<open>Delivery\<close>

lemma take_filter_upt: "\<exists>m' \<le> m. take d (filter Q [0..<m]) = filter Q [0..<m']"
proof (induction m)
  case (Suc m)
  then obtain m' where m': "m' \<le> m" "take d (filter Q [0..<m]) = filter Q [0..<m']" by blast
  show ?case
  proof (cases "length (filter Q [0..<m]) < d")
    case True
    then have "take d (filter Q [0..<Suc m]) = filter Q [0..<Suc m]" by (intro take_all) simp
    then show ?thesis by blast
  next
    case False
    then have "take d (filter Q [0..<Suc m]) = take d (filter Q [0..<m])" by simp
    with m' show ?thesis by (metis le_SucI)
  qed
qed simp

lemma prefix_filter_upt: "m \<le> m' \<Longrightarrow> prefix (filter Q [0..<m]) (filter Q [0..<m'])"
  by (metis filter_append le_add_diff_inverse prefixI upt_add_eq_append zero_le)

lemma prefix_map: "prefix xs ys \<Longrightarrow> prefix (map f xs) (map f ys)"
  by (auto simp: prefix_def)

text \<open>
  The packets that a polling thread \<open>q\<close> of a subscriber has handled: each is from a server and a thread of it, and those of
  one thread of one server are the first ones that this thread has sent to the polling thread.
\<close>

definition polled :: "server_id set \<Rightarrow> system \<Rightarrow> nat \<Rightarrow> u64 \<Rightarrow> nat \<Rightarrow> log_entry_msg list \<Rightarrow> bool" where
  "polled P y n sid q pkts \<longleftrightarrow>
     (\<forall>e \<in> set pkts. (le_shard_id e, le_replica_id e) \<in> P \<and> le_thread_id e < n) \<and>
     (\<forall>p \<in> P. \<forall>i < n. prefix (from_replica (fst p, i) (snd p) pkts) (entries_to sid q (sy_thread_out y p i)))"

text \<open>All servers run the same number of threads, and the subscriber was connected to all of them from the start.\<close>

definition subscribed :: "server_id set \<Rightarrow> (server_id \<Rightarrow> nat \<Rightarrow> (u64 \<times> nat) list) \<Rightarrow> system \<Rightarrow> nat \<Rightarrow> u64 \<Rightarrow> nat \<Rightarrow> bool" where
  "subscribed P subs y n sid nq \<longleftrightarrow>
     (\<forall>p \<in> P. st_subscriber_threads (sy_server y p) = n \<and> (\<forall>i < n. (sid, nq) \<in> set (subs p i)))"

lemma polled_streams:
  assumes run: "sys_run P subs y" and P: "finite P" and sub: "subscribed P subs y n sid nq" and pkts: "polled P y n sid q pkts"
  obtains m where "\<And>p i k. p \<in> P \<Longrightarrow> i < n \<Longrightarrow> k < m (fst p) i \<Longrightarrow>
      i + k * n < length (al_slots (shard_log y p)) \<and> abs_filled (shard_log y p) (i + k * n)"
    "packets_ok (stream_of P y n (\<lambda>i k. queue_of n nq i k = q) m) (\<lambda>(shard, i). {r. (shard, r) \<in> P \<and> i < n}) pkts"
proof -
  let ?Q = "\<lambda>i k. queue_of n nq i k = q"
  have "\<exists>m. entries_to sid q (sy_thread_out y p i) = map (shard_entry (shard_log y p) (fst p) n i (snd p)) (filter (?Q i) [0..<m]) \<and>
      (\<forall>k < m. i + k * n < length (al_slots (shard_log y p)) \<and> abs_filled (shard_log y p) (i + k * n))" if "p \<in> P" "i < n" for p i
    using server_entries [OF run that(1), of i sid nq q] sub that unfolding subscribed_def by metis
  then obtain m where m: "\<And>p i. p \<in> P \<Longrightarrow> i < n \<Longrightarrow> entries_to sid q (sy_thread_out y p i) =
        map (shard_entry (shard_log y p) (fst p) n i (snd p)) (filter (?Q i) [0..<m p i])"
      "\<And>p i k. p \<in> P \<Longrightarrow> i < n \<Longrightarrow> k < m p i \<Longrightarrow> i + k * n < length (al_slots (shard_log y p)) \<and> abs_filled (shard_log y p) (i + k * n)"
    by metis
  define M where "M shard i = Max (insert 0 ((\<lambda>p. m p i) ` {p \<in> P. fst p = shard}))" for shard i
  have fin: "finite (insert 0 ((\<lambda>p. m p i) ` {p \<in> P. fst p = shard}))" for shard i
    using P by simp
  have le: "m p i \<le> M (fst p) i" if "p \<in> P" for p i
    unfolding M_def using that by (intro Max_ge fin) auto
  have filled: "i + k * n < length (al_slots (shard_log y p)) \<and> abs_filled (shard_log y p) (i + k * n)"
    if "p \<in> P" "i < n" "k < M (fst p) i" for p i k
  proof -
    have "M (fst p) i \<in> insert 0 ((\<lambda>p. m p i) ` {q \<in> P. fst q = fst p})"
      unfolding M_def by (rule Max_in [OF fin]) simp
    with that obtain r where r: "r \<in> P" "fst r = fst p" "k < m r i" by auto
    with m(2) [OF r(1) that(2) r(3)] shard_log_same [OF sys_run_inv [OF run] r(1) that(1)] show ?thesis by simp
  qed
  have "prefix (from_replica key r pkts) (map (\<lambda>x. x\<lparr>le_replica_id := r\<rparr>) (stream_of P y n ?Q M key))"
    if key: "key = (shard, i)" "(shard, r) \<in> P" "i < n" for key shard i r
  proof -
    have "prefix (from_replica key r pkts) (entries_to sid q (sy_thread_out y (shard, r) i))"
      using pkts key by (auto simp: polled_def)
    also have "entries_to sid q (sy_thread_out y (shard, r) i) =
        map (shard_entry (shard_log y (shard, r)) shard n i r) (filter (?Q i) [0..<m (shard, r) i])"
      using m(1) [OF key(2,3)] by simp
    also have "prefix \<dots> (map (shard_entry (shard_log y (shard, r)) shard n i r) (filter (?Q i) [0..<M shard i]))"
      using le [OF key(2), of i] by (intro prefix_map prefix_filter_upt) simp
    also have "\<dots> = map (\<lambda>x. x\<lparr>le_replica_id := r\<rparr>) (stream_of P y n ?Q M key)"
      using stream_of_eq [OF run key(2,3), of ?Q M] key(1) by (simp add: shard_entry_def)
    finally show ?thesis .
  qed
  then have "packets_ok (stream_of P y n ?Q M) (\<lambda>(shard, i). {r. (shard, r) \<in> P \<and> i < n}) pkts"
    using pkts by (auto simp: packets_ok_def polled_def entry_key_def)
  with filled that [of M] show thesis by blast
qed

lemma polling_thread_delivers:
  assumes run: "sys_run P subs y" and P: "finite P" and sub: "subscribed P subs y n sid nq" and pkts: "polled P y n sid q pkts"
    and f: "Suc f < 2 ^ 64" and p: "p \<in> P" and i: "i < n"
  shows "\<exists>m. of_stream (fst p, i) (snd (deliver f pkts poll_init)) =
        map (shard_entry (shard_log y p) (fst p) n i (Suc f)) (filter (\<lambda>k. queue_of n nq i k = q) [0..<m]) \<and>
      (\<forall>k < m. abs_filled (shard_log y p) (i + k * n)) \<and>
      (\<forall>j. j < length (of_stream (fst p, i) (snd (deliver f pkts poll_init))) \<longleftrightarrow>
         f < card {r. (fst p, r) \<in> P \<and> j < length (from_replica (fst p, i) r pkts)})"
proof -
  let ?Q = "\<lambda>i k. queue_of n nq i k = q" and ?R = "\<lambda>(shard, i). {r. (shard, r) \<in> P \<and> i < n}" and ?k = "(fst p, i)"
  obtain m where m: "\<And>p i k. p \<in> P \<Longrightarrow> i < n \<Longrightarrow> k < m (fst p) i \<Longrightarrow>
      i + k * n < length (al_slots (shard_log y p)) \<and> abs_filled (shard_log y p) (i + k * n)"
    and ok: "packets_ok (stream_of P y n ?Q m) ?R pkts"
    using polled_streams [OF run P sub pkts] by blast
  have "finite (?R k)" for k
    using finite_subset [OF _ finite_imageI [OF P, of snd], of "?R k"] by (force split: prod.splits)
  from deliver_streams [OF stream_of_ok [OF run] this f ok, of ?k] m obtain d where
    d: "d \<le> length (stream_of P y n ?Q m ?k)"
      "of_stream ?k (snd (deliver f pkts poll_init)) = map (\<lambda>e. e\<lparr>le_replica_id := Suc f\<rparr>) (take d (stream_of P y n ?Q m ?k))"
      "\<And>j. j < length (stream_of P y n ?Q m ?k) \<Longrightarrow> j < d \<longleftrightarrow> f < card {r \<in> ?R ?k. j < length (from_replica ?k r pkts)}"
    by blast
  obtain m' where m': "m' \<le> m (fst p) i" "take d (filter (?Q i) [0..<m (fst p) i]) = filter (?Q i) [0..<m']"
    using take_filter_upt by blast
  have "of_stream ?k (snd (deliver f pkts poll_init)) = map (shard_entry (shard_log y p) (fst p) n i (Suc f)) (filter (?Q i) [0..<m'])"
    unfolding d(2) stream_of_eq [OF run p i] take_map m'(2) by (simp add: shard_entry_def)
  moreover have "abs_filled (shard_log y p) (i + k * n)" if "k < m'" for k
    using m [OF p i, of k] m'(1) that by simp
  moreover have "j < length (of_stream ?k (snd (deliver f pkts poll_init))) \<longleftrightarrow>
      f < card {r. (fst p, r) \<in> P \<and> j < length (from_replica ?k r pkts)}" for j
  proof (cases "j < length (stream_of P y n ?Q m ?k)")
    case True
    then show ?thesis
      using d(1,3) i by (simp add: d(2))
  next
    case False
    have "length (from_replica ?k r pkts) \<le> length (stream_of P y n ?Q m ?k)" if "(fst p, r) \<in> P" for r
      using ok that i prefix_length_le [of "from_replica ?k r pkts"] unfolding packets_ok_def by fastforce
    then have none: "{r. (fst p, r) \<in> P \<and> j < length (from_replica ?k r pkts)} = {}"
      using False by fastforce
    show ?thesis
      using False d(1) by (simp add: d(2) none)
  qed
  ultimately show ?thesis
    by blast
qed

subsection \<open>Reading\<close>

text \<open>The streams of different polling threads of one subscriber have different sequence numbers.\<close>

lemma streams_apart:
  assumes run: "sys_run P subs y"
    and m: "\<And>q p i k. p \<in> P \<Longrightarrow> i < n \<Longrightarrow> k < m q (fst p) i \<Longrightarrow> i + k * n < length (al_slots (shard_log y p))"
  shows "apart (\<lambda>q. stream_of P y n (\<lambda>i k. queue_of n nq i k = q) (m q))"
  unfolding apart_def
proof (intro conjI allI impI)
  fix q q' :: nat and key key' :: "u64 \<times> u64" assume "q \<noteq> q'"
  then have "le_gsn e \<noteq> le_gsn e'"
    if "e \<in> set (stream_of P y n (\<lambda>i k. queue_of n nq i k = q) (m q) key)"
      "e' \<in> set (stream_of P y n (\<lambda>i k. queue_of n nq i k = q') (m q') key')" for e e'
    using stream_of_apart [OF run m [where q = q] m [where q = q'] that] by blast
  then show "le_gsn ` set (stream_of P y n (\<lambda>i k. queue_of n nq i k = q) (m q) key) \<inter>
      le_gsn ` set (stream_of P y n (\<lambda>i k. queue_of n nq i k = q') (m q') key') = {}"
    by blast
qed (rule stream_of_ok [OF run m])

text \<open>An entry of a subscriber is a filled slot of the log of its shard.\<close>

definition of_shard :: "server_id set \<Rightarrow> system \<Rightarrow> log_entry_msg \<Rightarrow> bool" where
  "of_shard P y e \<longleftrightarrow>
     (\<exists>p \<in> P. le_shard_id e = fst p \<and> (\<exists>j < length (al_slots (shard_log y p)).
        al_slots (shard_log y p) ! j = (le_client_id e, le_gsn e) \<and> abs_filled (shard_log y p) j \<and> le_data e = abs_content (shard_log y p) j))"

lemma of_shard_unique:
  assumes run: "sys_run P subs y" and "of_shard P y e" and "of_shard P y e'" and "le_gsn e = le_gsn e'"
  shows "le_shard_id e = le_shard_id e' \<and> le_client_id e = le_client_id e' \<and> le_data e = le_data e'"
proof -
  obtain p j where p: "p \<in> P" "le_shard_id e = fst p" "j < length (al_slots (shard_log y p))"
      "al_slots (shard_log y p) ! j = (le_client_id e, le_gsn e)" "le_data e = abs_content (shard_log y p) j"
    using assms(2) by (auto simp: of_shard_def)
  obtain q k where q: "q \<in> P" "le_shard_id e' = fst q" "k < length (al_slots (shard_log y q))"
      "al_slots (shard_log y q) ! k = (le_client_id e', le_gsn e')" "le_data e' = abs_content (shard_log y q) k"
    using assms(3) by (auto simp: of_shard_def)
  have "fst p = fst q" "j = k"
    using slot_of_number [OF run p(1,3) q(1,3)] p(4) q(4) assms(4) by simp_all
  with shard_log_same [OF sys_run_inv [OF run] p(1) q(1)] p q show ?thesis
    by simp
qed

lemma polled_streams_apart:
  assumes run: "sys_run P subs y" and P: "finite P" and sub: "subscribed P subs y n sid nq" and got: "\<And>q. polled P y n sid q (got q)"
  obtains m where "\<And>q p i k. p \<in> P \<Longrightarrow> i < n \<Longrightarrow> k < m q (fst p) i \<Longrightarrow>
      i + k * n < length (al_slots (shard_log y p)) \<and> abs_filled (shard_log y p) (i + k * n)"
    "apart (\<lambda>q. stream_of P y n (\<lambda>i k. queue_of n nq i k = q) (m q))" "\<And>key. finite ((\<lambda>(shard, i). {r. (shard, r) \<in> P \<and> i < n}) key)"
    "\<And>q. packets_ok (stream_of P y n (\<lambda>i k. queue_of n nq i k = q) (m q)) (\<lambda>(shard, i). {r. (shard, r) \<in> P \<and> i < n}) (got q)"
proof -
  let ?es = "\<lambda>m q. stream_of P y n (\<lambda>i k. queue_of n nq i k = q) (m q)" and ?R = "\<lambda>(shard, i). {r. (shard, r) \<in> P \<and> i < n}"
  have "\<exists>m. (\<forall>p \<in> P. \<forall>i < n. \<forall>k < m (fst p) i.
       i + k * n < length (al_slots (shard_log y p)) \<and> abs_filled (shard_log y p) (i + k * n)) \<and>
     packets_ok (stream_of P y n (\<lambda>i k. queue_of n nq i k = q) m) ?R (got q)" for q
    using polled_streams [OF run P sub got] by (metis (no_types, lifting))
  then obtain m where m: "\<And>q p i k. p \<in> P \<Longrightarrow> i < n \<Longrightarrow> k < m q (fst p) i \<Longrightarrow>
       i + k * n < length (al_slots (shard_log y p)) \<and> abs_filled (shard_log y p) (i + k * n)"
    and ok: "\<And>q. packets_ok (?es m q) ?R (got q)"
    by metis
  have fin: "finite (?R k)" for k
    using finite_subset [OF _ finite_imageI [OF P, of snd], of "?R k"] by (force split: prod.splits)
  have "apart (?es m)"
    by (rule streams_apart [OF run]) (simp add: m)
  from that [OF m this fin ok] show thesis .
qed

lemma application_sees:
  assumes run: "sys_run P subs y" and P: "finite P" and sub: "subscribed P subs y n sid nq" and got: "\<And>q. polled P y n sid q (got q)"
    and app: "subscriber_run sequential k b f got books s read" and b: "b \<le> 2" and f: "Suc f < 2 ^ 64" and i: "i < k"
  shows "\<exists>seen. read i = filter (\<lambda>e. le_data e \<noteq> []) seen \<and> map le_gsn seen = map (\<lambda>j. first_entry sequential i + j * k) [0..<length seen] \<and>
    (\<forall>e \<in> set seen. of_shard P y e)"
proof -
  let ?es = "\<lambda>m q. stream_of P y n (\<lambda>i k. queue_of n nq i k = q) (m q)" and ?R = "\<lambda>(shard, i). {r. (shard, r) \<in> P \<and> i < n}"
  obtain m where m: "\<And>q p i k. p \<in> P \<Longrightarrow> i < n \<Longrightarrow> k < m q (fst p) i \<Longrightarrow>
       i + k * n < length (al_slots (shard_log y p)) \<and> abs_filled (shard_log y p) (i + k * n)"
    and es: "apart (?es m)" "\<And>key. finite (?R key)" "\<And>q. packets_ok (?es m q) ?R (got q)"
    using polled_streams_apart [OF run P sub got] by blast
  from application_reads [OF app b es(1,2) f es(3) i] obtain seen
    where seen: "read i = filter (\<lambda>e. le_data e \<noteq> []) seen" "map le_gsn seen = map (\<lambda>j. first_entry sequential i + j * k) [0..<length seen]"
      "\<And>e. e \<in> set seen \<Longrightarrow> \<exists>q. \<exists>x \<in> set (?es m q (entry_key e)). e = x\<lparr>le_replica_id := Suc f\<rparr>"
    by blast
  have "of_shard P y e" if e: "e \<in> set seen" for e
  proof -
    obtain q x where x: "x \<in> set (?es m q (entry_key e))" "e = x\<lparr>le_replica_id := Suc f\<rparr>"
      using seen(3) [OF e] by blast
    obtain p i k where p: "p \<in> P" "i < n" "k < m q (fst p) i" "x = shard_entry (shard_log y p) (fst p) n i 0 k"
      using stream_of_cases [OF run x(1)] by blast
    with m [OF p(1-3)] x(2) show ?thesis
      unfolding of_shard_def by (intro bexI [of _ p] conjI exI [of _ "i + k * n"]) (simp_all add: shard_entry_def)
  qed
  with seen(1,2) show ?thesis by blast
qed

end
