(* ===== verification/Completeness.thy ===== *)
theory Completeness
  imports End_To_End
begin

text \<open>
  Nothing is lost: when the servers have taken all messages, their threads have sent all they can, the polling threads of a subscriber have
  handled all packets, and an application thread finds no next entry, then the slot it waits for is not filled, or not all
  slots of the same server thread before it.
\<close>

subsection \<open>The log of the subscriber\<close>

text \<open>Recycling removes the entries of a block that all application threads have left.\<close>

lemma recycle_slot:
  assumes "sys_inv stride (l, its)"
  shows "sl_block l \<le> sl_block (recycle_blocks l)"
    and "slot_at (recycle_blocks l) g = (if g div NUM_ENTRIES_PER_BLOCK < sl_block (recycle_blocks l) then None else slot_at l g)"
proof -
  let ?b = "sl_block l"
  have n: "length (sl_blocks l) = ?b + 2" and nulls: "\<And>b. b < ?b + 2 \<Longrightarrow> sl_blocks l ! b = None \<longleftrightarrow> b < ?b"
    using assms by (auto simp: sys_inv_def sub_log_ok_def)
  show "?b \<le> sl_block (recycle_blocks l)"
    by (simp add: recycle_blocks_def)
  show "slot_at (recycle_blocks l) g = (if g div NUM_ENTRIES_PER_BLOCK < sl_block (recycle_blocks l) then None else slot_at l g)"
    using n nulls [of "g div NUM_ENTRIES_PER_BLOCK"]
    by (auto simp: recycle_blocks_def slot_at_def Let_def zero_block_def nth_append nth_list_update nth_Cons' less_Suc_eq split: option.splits)
qed

text \<open>What has been delivered is in the log until it is recycled.\<close>

definition kept :: "log_entry_msg set \<Rightarrow> sub_log \<Rightarrow> bool" where
  "kept D l \<longleftrightarrow> (\<forall>x \<in> D. le_gsn x div NUM_ENTRIES_PER_BLOCK < sl_block l \<or> slot_at l (le_gsn x) = Some x)"

lemma kept_recycle: "sys_inv stride (l, its) \<Longrightarrow> kept D l \<Longrightarrow> kept D (recycle_blocks l)"
  by (auto simp: kept_def recycle_slot(2) dest: order_less_le_trans [OF _ recycle_slot(1)])

lemma kept_insert:
  assumes "kept D l" and "slot_at l (le_gsn x) = None" and "slot_at l' = (slot_at l)(le_gsn x := Some x)" and "sl_block l' = sl_block l"
  shows "kept (insert x D) l'"
  using assms by (auto simp: kept_def)

lemma subscriber_run_kept:
  assumes "subscriber_run sequential n b f got books s read" and "b \<le> 2" and "apart es" and "\<And>k. finite (R k)" and "Suc f < 2 ^ 64"
    and "\<And>q. packets_ok (es q) R (got q)"
  shows "kept (from_polls f got) (fst s)"
  using assms(1,6)
proof (induction rule: subscriber_run.induct)
  case run_start
  show ?case by (simp add: kept_def from_polls_def)
next
  case (run_packet got books l its read e q l' ps')
  have pkts: "packets_ok (es q') R (got q')" for q'
    using run_packet.prems [of q'] packets_ok_append [of "es q" R "got q" "[e]"] by (cases "q' = q") auto
  note inv = subscriber_run_inv [where R = R, OF run_packet.hyps(1) assms(2-5) pkts]
  obtain ps1 d where ack: "ack_entry f e (books q) = (ps1, d)" by fastforce
  show ?case
  proof (cases d)
    case None
    with packet_counted [OF inv run_packet.hyps(2)] ack run_packet.IH [OF pkts] show ?thesis
      by (simp del: fun_upd_apply)
  next
    case (Some x)
    note new = packet_delivered [where R = R, OF inv run_packet.hyps(2) assms(3-5) run_packet.prems ack [unfolded Some]]
    from kept_insert [OF _ new(2-4)] run_packet.IH [OF pkts] new(1) show ?thesis
      by (simp del: fun_upd_apply)
  qed
next
  case (run_recycle got books l its read)
  from subscriber_run_inv [where R = R, OF run_recycle.hyps(1) assms(2-5) run_recycle.prems] have "sys_inv n (l, its)"
    by (simp add: subscriber_inv_def)
  from kept_recycle [OF this] run_recycle.IH [OF run_recycle.prems] show ?case by simp
next
  case (run_read got books l its read i es' l' it')
  from subscriber_run_inv [where R = R, OF run_read.hyps(1) assms(2-5) run_read.prems] run_read.hyps(2)
  have inv: "sys_inv n (l, its)" and i: "i < length its"
    by (simp_all add: subscriber_inv_def)
  obtain r where "sub_next_entry l (its ! i) = Inr (r, l', it')"
    using run_read.hyps(3) by (auto simp: process_once_def rbind_eq_Inr)
  note poll = sub_poll_other [OF inv i this]
  have "sl_block l' = sl_block l"
    using poll inv by (simp add: sys_inv_def sub_log_ok_def)
  with slot_at_cong [OF poll(2)] run_read.IH [OF run_read.prems] show ?case
    by (simp add: kept_def)
qed

text \<open>An application thread that finds no next entry waits for a number that has not been delivered.\<close>

definition idle :: "nat \<Rightarrow> sub_sys \<Rightarrow> bool" where
  "idle i s \<longleftrightarrow> (\<exists>l' it'. sub_next_entry (fst s) (snd s ! i) = Inr (None, l', it'))"

lemma sub_at_block_alive:
  assumes at: "sub_at r i n (l, its) k"
  shows "sl_block l \<le> next_index r n k div NUM_ENTRIES_PER_BLOCK"
proof -
  have "iter_ok n l (its ! i)"
    using at by (auto simp: sub_at_def sys_inv_def)
  then show ?thesis
    using at by (cases "si_entry (its ! i)") (auto simp: sub_at_def iter_ok_def Let_def)
qed

lemma idle_undelivered:
  assumes at: "sub_at r i n (l, its) k" and kept: "kept D l" and idle: "idle i (l, its)" and x: "x \<in> D"
  shows "le_gsn x \<noteq> r + k * n"
proof
  let ?g = "next_index r n k"
  assume gsn: "le_gsn x = r + k * n"
  obtain l' it' where "sub_next_entry l (its ! i) = Inr (slot_at l ?g, l', it')"
    by (rule sub_next_entry_ok [OF at])
  with idle have "slot_at l ?g = None"
    by (simp add: idle_def)
  with kept x gsn sub_at_block_alive [OF at] show False
    by (auto simp: kept_def next_index_def)
qed

subsection \<open>The servers\<close>

text \<open>Slots are published together with their layout.\<close>

lemma insert_published: "position_insert l pos mem len n = Inr (l', pos', g) \<Longrightarrow>
    l_num_entries l' = l_num_entries l \<and> l_current_entries l' = l_current_entries l"
  by (auto simp: position_insert_def rbind_eq_Inr Let_def split: option.splits)

lemma close_published: "position_close l pos = Some (l', pos') \<Longrightarrow>
    l_num_entries l' = l_num_entries l \<and> l_current_entries l' = l_current_entries l"
  by (auto simp: position_close_def Let_def split: prod.splits option.splits)

lemma handler_published:
  assumes "storage_on_slots m s = Some (Inr (s', out)) \<or> storage_on_patch m s = Some (Inr (s', out)) \<or>
    storage_on_finalize m s = Some (Inr (s', out)) \<or> storage_on_insert m s = Some (Inr (s', out))"
    and "l_num_entries (st_log s) = l_current_entries (st_log s)"
  shows "l_num_entries (st_log s') = l_current_entries (st_log s')"
  using assms
  by (cases m) (auto simp: with_client_of with_connected_of rbind_eq_Inr frame_simps add_entries_def Let_def split: if_splits
      dest!: insert_published close_published)

lemma storage_run_published: "storage_run s \<Longrightarrow> l_num_entries (st_log s) = l_current_entries (st_log s)"
proof (induction rule: storage_run.induct)
  case (storage_start ct st sd sh r s)
  then show ?case
    by (auto simp: storage_init_def log_init_def split: if_splits)
next
  case (storage_step s ev s' out)
  from storage_handle_log [OF storage_step.hyps(3)] storage_step.IH handler_published [of "event_message ev" s s' out] show ?case
    by auto
qed

text \<open>A server that has taken all messages, and its threads that have sent the subscriber all they can and have not dismissed it.\<close>

definition settled :: "system \<Rightarrow> server_id \<Rightarrow> bool" where
  "settled y p \<longleftrightarrow> sy_control y p = length (from_order y p) \<and> (\<forall>c. sy_taken y p c = length (from_client y p c))"

definition drained :: "server_id set \<Rightarrow> system \<Rightarrow> nat \<Rightarrow> u64 \<Rightarrow> bool" where
  "drained P y n sid \<longleftrightarrow>
     (\<forall>p \<in> P. settled y p \<and> (\<forall>i < n. (\<exists>t'. stream_entry (sy_server y p) (sy_thread y p i) = Inr (t', [])) \<and>
        (\<forall>x \<in> set (sent_to sid (sy_thread_out y p i)). msg_type (s_msg x) = SUBSCRIBER_LOG_ENTRY)))"

lemma settled_filled:
  assumes run: "sys_run P subs y" and p: "p \<in> P" and all: "settled y p" and filled: "abs_filled (shard_log y p) j"
  shows "j < l_num_entries (st_log (sy_server y p)) \<and> e_set (ent (st_log (sy_server y p)) j)"
proof -
  let ?s = "sy_server y p"
  have ok: "server_ok y p" and inv: "storage_inv ?s"
    using sys_run_inv [OF run] p server_inv by (simp_all add: system_inv_def)
  have log: "abs_of (st_log ?s) = shard_log y p"
    using server_converged [OF run p] all by (simp add: settled_def)
  have "j < length (al_slots (abs_of (st_log ?s)))"
    using filled by (simp add: log abs_filled_def)
  then have "j < l_current_entries (st_log ?s)"
    by (simp add: abs_of_def)
  with abs_slot(1) [OF inv this] filled log storage_run_published [OF history_run [OF server_okD(1) [OF ok]]] show ?thesis
    by simp
qed

text \<open>A thread whose next slot is not there or not filled sends nothing.\<close>

lemma stream_entry_waits:
  assumes at: "thread_at s t n" and none: "\<not> (th_index t + n * st_subscriber_threads s < l_num_entries (st_log s) \<and>
      e_set (ent (st_log s) (th_index t + n * st_subscriber_threads s)))"
  shows "\<exists>t'. stream_entry s t = Inr (t', [])"
proof -
  have "iter_at (th_index t) (st_subscriber_threads s) (st_log s, th_log t) n"
    using at by (simp add: thread_at_def)
  from iter_poll_ready(1) [OF this] none have "fst (iter_poll (st_log s, th_log t)) = None"
    by (simp add: iter_ready_def)
  then obtain it where "next_entry (st_log s) (th_log t) = (None, it)"
    by (auto simp: iter_poll_def split: prod.splits)
  then show ?thesis
    by (simp add: stream_entry_def)
qed

text \<open>A filled slot, with all before it of its thread filled, has been sent.\<close>

lemma filled_sent:
  assumes run: "sys_run P subs y" and p: "p \<in> P" and sub: "subscribed P subs y n sid nq" and dr: "drained P y n sid" and i: "i < n"
    and filled: "\<And>k'. k' \<le> k \<Longrightarrow> abs_filled (shard_log y p) (i + k' * n)" and q: "queue_of n nq i k = q"
  shows "length (filter (\<lambda>k. queue_of n nq i k = q) [0..<k]) < length (entries_to sid q (sy_thread_out y p i))"
proof -
  let ?s = "sy_server y p" and ?t = "sy_thread y p i" and ?Q = "\<lambda>k. queue_of n nq i k = q"
  have n: "st_subscriber_threads ?s = n" and in_subs: "(sid, nq) \<in> set (subs p i)"
    using sub p i by (simp_all add: subscribed_def)
  have idx: "th_index ?t = i"
    using feedsD(1) [OF sys_run_feeds [OF run] p] i n by simp
  obtain m where f: "fed (subs p i) ?s ?t (sy_thread_out y p i) m"
    using feedsD(2) [OF sys_run_feeds [OF run] p] i n by blast
  have here: "\<forall>x \<in> set (sent_to sid (sy_thread_out y p i)). msg_type (s_msg x) = SUBSCRIBER_LOG_ENTRY"
    using dr p i by (simp add: drained_def)
  have "fed_to ?s ?t (sy_thread_out y p i) m sid nq"
    using f in_subs by (auto simp: fed_def)
  then have here2: "(sid, nq) \<in> set (th_subscribers ?t)" and sent: "sent_to sid (sy_thread_out y p i) = map (entry_send ?s i sid nq) [0..<m]"
    using here unfolding fed_to_def idx by auto
  have "k < m"
  proof (rule ccontr)
    assume "\<not> k < m"
    then have "abs_filled (shard_log y p) (i + m * n)"
      using filled [of m] by simp
    then have "i + m * n < l_num_entries (st_log ?s) \<and> e_set (ent (st_log ?s) (i + m * n))"
      using settled_filled [OF run p] dr p by (simp add: drained_def)
    moreover obtain t' where "stream_entry ?s ?t = Inr (t', [])"
      using dr p i unfolding drained_def by blast
    ultimately show False
      using stream_entry_step [of ?s ?t m t' "[]"] f here2 by (auto simp: fed_def idx n)
  qed
  then have "prefix (filter ?Q [0..<Suc k]) (filter ?Q [0..<m])"
    by (intro prefix_filter_upt) simp
  then have "length (filter ?Q [0..<k]) < length (filter ?Q [0..<m])"
    using prefix_length_le q by fastforce
  moreover have "entries_to sid q (sy_thread_out y p i) = map (slot_entry ?s i) (filter ?Q [0..<m])"
  proof -
    have "takeWhile (\<lambda>x. msg_type (s_msg x) = SUBSCRIBER_LOG_ENTRY) (sent_to sid (sy_thread_out y p i)) = map (entry_send ?s i sid nq) [0..<m]"
      using here sent by (simp add: takeWhile_eq_all_conv)
    then show ?thesis
      by (simp add: entries_to_def filter_map comp_def entry_send_def queue_of_def thread_slot_def n)
  qed
  ultimately show ?thesis by simp
qed

subsection \<open>Delivery\<close>

text \<open>The polling thread has handled all packets that were sent to it.\<close>

definition polled_all :: "server_id set \<Rightarrow> system \<Rightarrow> nat \<Rightarrow> u64 \<Rightarrow> nat \<Rightarrow> log_entry_msg list \<Rightarrow> bool" where
  "polled_all P y n sid q pkts \<longleftrightarrow> polled P y n sid q pkts \<and>
     (\<forall>p \<in> P. \<forall>i < n. from_replica (fst p, i) (snd p) pkts = entries_to sid q (sy_thread_out y p i))"

lemma filled_delivered:
  assumes run: "sys_run P subs y" and P: "finite P" and p: "p \<in> P" and sub: "subscribed P subs y n sid nq" and dr: "drained P y n sid"
    and pkts: "polled_all P y n sid q pkts" and f: "Suc f < 2 ^ 64" "f < card {r. (fst p, r) \<in> P}" and i: "i < n"
    and filled: "\<And>k'. k' \<le> k \<Longrightarrow> abs_filled (shard_log y p) (i + k' * n)" and q: "queue_of n nq i k = q"
  shows "\<exists>x \<in> set (snd (deliver f pkts poll_init)). le_gsn x = snd (al_slots (shard_log y p) ! (i + k * n))"
proof -
  let ?Q = "\<lambda>k. queue_of n nq i k = q" and ?out = "of_stream (fst p, i) (snd (deliver f pkts poll_init))"
  let ?j = "length (filter ?Q [0..<k])"
  have polled: "polled P y n sid q pkts"
    using pkts by (simp add: polled_all_def)
  obtain m where m: "?out = map (shard_entry (shard_log y p) (fst p) n i (Suc f)) (filter ?Q [0..<m])"
    and len: "?j < length ?out \<longleftrightarrow> f < card {r. (fst p, r) \<in> P \<and> ?j < length (from_replica (fst p, i) r pkts)}"
    using polling_thread_delivers [OF run P sub polled f(1) p i] by blast
  have "?j < length (from_replica (fst p, i) r pkts)" if r: "(fst p, r) \<in> P" for r
  proof -
    have "shard_log y (fst p, r) = shard_log y p"
      using shard_log_same [OF sys_run_inv [OF run] r p] by simp
    then have "?j < length (entries_to sid q (sy_thread_out y (fst p, r) i))"
      using filled_sent [OF run r sub dr i _ q] filled by simp
    with pkts r i show ?thesis by (force simp: polled_all_def)
  qed
  then have "{r. (fst p, r) \<in> P \<and> ?j < length (from_replica (fst p, i) r pkts)} = {r. (fst p, r) \<in> P}" by blast
  with len f(2) have "?j < length (filter ?Q [0..<m])"
    by (simp add: m)
  then have "k < m"
    using prefix_length_le [OF prefix_filter_upt [of m k ?Q]] by (cases "k < m") auto
  with q have "shard_entry (shard_log y p) (fst p) n i (Suc f) k \<in> set ?out"
    by (simp add: m)
  then show ?thesis
    by (intro bexI [of _ "shard_entry (shard_log y p) (fst p) n i (Suc f) k"]) (auto simp: of_stream_def shard_entry_def)
qed

subsection \<open>Nothing is lost\<close>

lemma application_complete:
  assumes run: "sys_run P subs y" and P: "finite P" and sub: "subscribed P subs y n sid nq" and dr: "drained P y n sid"
    and got: "\<And>q. polled_all P y n sid q (got q)" and app: "subscriber_run sequential k b f got books s read" and b: "b \<le> 2" and f: "Suc f < 2 ^ 64"
    and quorum: "\<And>p. p \<in> P \<Longrightarrow> f < card {r. (fst p, r) \<in> P}" and i: "i < k" and idle: "idle i s" and n: "0 < n"
  shows "\<exists>seen. read i = filter (\<lambda>e. le_data e \<noteq> []) seen \<and> map le_gsn seen = map (\<lambda>j. first_entry sequential i + j * k) [0..<length seen] \<and>
    (\<forall>p \<in> P. \<forall>j < length (al_slots (shard_log y p)). snd (al_slots (shard_log y p) ! j) = first_entry sequential i + length seen * k \<longrightarrow>
       (\<exists>j' \<le> j. j' mod n = j mod n \<and> \<not> abs_filled (shard_log y p) j'))"
proof -
  have polled: "polled P y n sid q (got q)" for q
    using got by (simp add: polled_all_def)
  obtain es R where es: "apart es" "\<And>k. finite (R k)" "\<And>q. packets_ok (es q) R (got q)"
    by (rule polled_streams_apart [OF run P sub polled]) (rule that)
  obtain l its where s: "s = (l, its)" by fastforce
  have "reader_ok sequential k i (from_polls f got) (l, its) (read i)"
    using subscriber_run_inv [where R = R, OF app b es(1,2) f es(3)] i by (simp add: subscriber_inv_def s)
  then obtain seen where seen: "sub_at (first_entry sequential i) i k (l, its) (length seen)" "read i = filter (\<lambda>e. le_data e \<noteq> []) seen"
      "map le_gsn seen = map (\<lambda>j. first_entry sequential i + j * k) [0..<length seen]"
    by (auto simp: reader_ok_def)
  have kept: "kept (from_polls f got) l"
    using subscriber_run_kept [where R = R, OF app b es(1,2) f es(3)] by (simp add: s)
  have "\<exists>j' \<le> j. j' mod n = j mod n \<and> \<not> abs_filled (shard_log y p) j'"
    if p: "p \<in> P" and j: "snd (al_slots (shard_log y p) ! j) = first_entry sequential i + length seen * k" for p j
  proof (rule ccontr)
    assume none: "\<not> (\<exists>j' \<le> j. j' mod n = j mod n \<and> \<not> abs_filled (shard_log y p) j')"
    have "abs_filled (shard_log y p) (j mod n + k' * n)" if "k' \<le> j div n" for k'
    proof -
      have "j mod n + k' * n \<le> j mod n + j div n * n"
        using that by (intro add_left_mono mult_le_mono1)
      with none show ?thesis by simp
    qed
    from filled_delivered [OF run P p sub dr got f quorum [OF p] _ this refl] n j
    obtain x where "x \<in> from_polls f got" "le_gsn x = first_entry sequential i + length seen * k"
      unfolding from_polls_def by fastforce
    with idle_undelivered [OF seen(1) kept idle [unfolded s]] show False by blast
  qed
  then have "\<forall>p \<in> P. \<forall>j < length (al_slots (shard_log y p)). snd (al_slots (shard_log y p) ! j) = first_entry sequential i + length seen * k \<longrightarrow>
       (\<exists>j' \<le> j. j' mod n = j mod n \<and> \<not> abs_filled (shard_log y p) j')"
    by simp
  with seen(2,3) show ?thesis
    by (intro exI [of _ seen] conjI)
qed

end
