(* ===== verification/Example_Run.thy ===== *)
theory Example_Run
  imports Completeness
begin

text \<open>
  A run of the whole system: two replicas of one shard, a client that appends one byte to the log, and a subscriber
  with one polling and one application thread.
\<close>

subsection \<open>The servers\<close>

definition example_servers :: "server_id set" where
  "example_servers = {(0, 0), (0, 1)}"

definition example_subs :: "server_id \<Rightarrow> nat \<Rightarrow> (u64 \<times> nat) list" where
  "example_subs p i = [(0, 1)]"

definition example_thread :: "server_id \<Rightarrow> nat \<Rightarrow> subscriber_thread" where
  "example_thread p i = (subscriber_thread_init i (example_server (snd p) log_init))\<lparr>th_subscribers := example_subs p i\<rparr>"

abbreviation example_epoch :: message where
  "example_epoch \<equiv> Storage_slots 0 [\<lparr>as_client_id = 0, as_num_slots = 2\<rparr>]"

lemma example_fields:
  "st_subscriber_threads (example_server r l) = 1" "st_shard_id (example_server r l) = 0" "st_replica_id (example_server r l) = r"
  "\<not> sc_disconnected (client_of (example_server r l) c)" "th_index (example_thread p i) = i" "th_subscribers (example_thread p i) = example_subs p i"
  by (simp_all add: example_server_def client_of_def storage_client_new_def example_thread_def subscriber_thread_init_def)

lemma example_history: "r < MAX_REPLICAS \<Longrightarrow> storage_history (example_server r log_init) []"
  using history_step [OF history_start [OF example_start_init] _ example_accept] by (simp add: wire_ok_def)

lemma example_thread_at: "thread_at (example_server (snd p) log_init) (example_thread p 0) 0"
  using thread_at_init [of 0 "example_server (snd p) log_init"] by (simp add: thread_at_def example_thread_def subscriber_thread_init_def)

definition example_sent :: "u64 \<Rightarrow> log_entry_msg" where
  "example_sent r = \<lparr>le_replica_id = r, le_shard_id = 0, le_thread_id = 0, le_client_id = 0, le_gsn = 0, le_data = [42]\<rparr>"

text \<open>The thread sends the filled slot to the subscriber.\<close>

lemma example_streams_slot:
  assumes "st_log s = example_filled" and "st_subscriber_threads s = 1" and "st_changes s = bag_init"
    and "st_shard_id s = 0" and "st_replica_id s = snd p"
  obtains t where "subscriber_iteration s (example_thread p 0) =
    Inr (t, [Send (To_subscriber 0) (Subscriber_log_entry (example_sent (snd p))) 1 False])" "thread_at s t (Suc 0)" "th_index t = 0"
proof -
  define t where "t = example_thread p 0\<lparr>th_changes := bag_reader_init\<rparr>"
  have m: "materialize s (example_thread p 0) = Inr (t, [])"
    using assms(3) by (simp add: materialize_def bag_get_def bag_init_def t_def example_thread_def subscriber_thread_init_def)
  have th: "th_log t = iterator_init 0 1" "th_subscribers t = [(0, 1)]" "th_index t = 0"
    by (simp_all add: t_def example_thread_def subscriber_thread_init_def example_server_def example_subs_def)
  have at: "thread_at s t 0"
    using assms(2) by (simp add: thread_at_def t_def example_thread_def subscriber_thread_init_def example_server_def iterator_init_at)
  have "fst (iter_poll (example_filled, iterator_init 0 1)) = Some (ptr_of 0)"
    using iter_poll_ready(1) [OF iterator_init_at [where index = 0 and stride = 1 and l = example_filled]] example_filled_entry
    by (simp add: iter_ready_def)
  then obtain it where "next_entry example_filled (iterator_init 0 1) = (Some (ptr_of 0), it)"
    by (auto simp: iter_poll_def split: prod.splits)
  then obtain t' out where run: "stream_entry s t = Inr (t', out)"
    using assms(1) by (simp add: stream_entry_def th)
  then have "th_index t' = 0"
    using th(3) by (auto simp: stream_entry_def split: prod.splits option.splits if_splits)
  have "entry_payload (ent example_filled 0) = [42]"
    by (simp add: example_filled_def insert_result_ent example_log_published entry_payload_def alloc_copy_def)
  with stream_entry_step [OF at run] example_filled_entry assms
  have "out = [Send (To_subscriber 0) (Subscriber_log_entry (example_sent (snd p))) 1 False]" "thread_at s t' (Suc 0)"
    by (simp_all add: th entry_message_def example_sent_def)
  with m run that \<open>th_index t' = 0\<close> show thesis
    by (simp add: subscriber_iteration_def)
qed

text \<open>A server takes the epoch and the request, and its thread sends the entry.\<close>

definition served :: "server_id \<Rightarrow> system \<Rightarrow> bool" where
  "served p y \<longleftrightarrow>
     st_log (sy_server y p) = example_filled \<and> st_subscriber_threads (sy_server y p) = 1 \<and>
     sy_thread_out y p 0 = [Send (To_subscriber 0) (Subscriber_log_entry (example_sent (snd p))) 1 False] \<and>
     sy_control y p = 1 \<and> sy_taken y p = (\<lambda>_. 0)(0 := 1) \<and> thread_at (sy_server y p) (sy_thread y p 0) (Suc 0) \<and>
     th_index (sy_thread y p 0) = 0"

definition waiting :: "server_id \<Rightarrow> system \<Rightarrow> bool" where
  "waiting p y \<longleftrightarrow>
     sy_server y p = example_server (snd p) log_init \<and> sy_thread y p 0 = example_thread p 0 \<and> sy_thread_out y p 0 = [] \<and>
     sy_control y p = 0 \<and> sy_taken y p = (\<lambda>_. 0)"

lemma example_serves:
  assumes run: "sys_run P subs y" and p: "p \<in> P" "fst p = 0" and w: "waiting p y"
    and o: "from_order y p = [example_epoch]" and c: "from_client y p 0 = [Storage_insert 0 1 [42]]"
  obtains y' where "sys_run P subs y'" "served p y'" "sy_order_out y' = sy_order_out y" "sy_client_out y' = sy_client_out y"
    "\<And>q. q \<noteq> p \<Longrightarrow> waiting q y' = waiting q y \<and> served q y' = served q y"
proof -
  have srv: "sy_server y p = example_server (snd p) log_init" and at: "sy_control y p = 0" "sy_taken y p = (\<lambda>_. 0)"
    and thr: "sy_thread y p 0 = example_thread p 0" "sy_thread_out y p 0 = []"
    using w by (simp_all add: waiting_def)
  define y1 where "y1 = (server_step p (St_control example_epoch 40) (example_server (snd p) example_log) [] y)
    \<lparr>sy_control := (sy_control y)(p := Suc (sy_control y p))\<rparr>"
  have r1: "sys_run P subs y1"
    unfolding y1_def by (rule sys_take_control [OF run p(1)]) (simp_all add: o at srv example_slots del: storage_handle.simps)
  obtain s where s: "storage_on_insert (Storage_insert 0 1 [42]) (example_server (snd p) example_log) =
      Some (Inr (s, [Send (To_client 0) (Client_insert_ack (snd p) 0) 0 False]))"
      "st_log s = example_filled" "st_subscriber_threads s = 1" "st_changes s = bag_init"
    using example_insert [of "snd p"] by metis
  let ?ack = "[Send (To_client 0) (Client_insert_ack (snd p) 0) 0 False]"
  have h: "storage_handle (St_client (Storage_insert 0 1 [42]) 33) (example_server (snd p) example_log) = Some (Inr (s, ?ack))"
    using s(1) by (simp add: run_storage_handler_def client_handlers_def sizeof_defs del: storage_on_insert.simps)
  define y2 where "y2 = (server_step p (St_client (Storage_insert 0 1 [42]) 33) s ?ack y1)
      \<lparr>sy_taken := (sy_taken y1)(p := (sy_taken y1 p)(0 := Suc (sy_taken y1 p 0)))\<rparr>"
  have y1: "sy_server y1 p = example_server (snd p) example_log" "sy_taken y1 p 0 = 0" "from_client y1 p 0 = [Storage_insert 0 1 [42]]"
    by (simp_all add: y1_def at c)
  have r2: "sys_run P subs y2"
    unfolding y2_def by (rule sys_take_request [OF r1 p(1)]) (simp_all only: y1 h, simp_all)
  have ids: "st_shard_id s = 0" "st_replica_id s = snd p"
    using storage_handle_out [OF h] by (simp_all add: example_server_def)
  obtain t where t: "subscriber_iteration s (example_thread p 0) =
      Inr (t, [Send (To_subscriber 0) (Subscriber_log_entry (example_sent (snd p))) 1 False])" and at': "thread_at s t (Suc 0)" "th_index t = 0"
    by (rule example_streams_slot [OF s(2-4) ids])
  have y2: "sy_server y2 p = s" "sy_thread y2 p 0 = example_thread p 0" "sy_thread_out y2 p 0 = []"
    by (simp_all add: y2_def y1_def thr server_step_def)
  note r3 = sys_thread [OF r2 p(1), of 0, unfolded y2, OF _ t]
  show thesis
    by (rule that [OF r3])
      (auto simp: served_def waiting_def s y2 y2_def y1_def server_step_def at at')
qed

subsection \<open>The ordering service\<close>

text \<open>Two servers register, and the first heartbeat is due.\<close>

definition example_registered :: order_state where
  "example_registered = order_init\<lparr>os_addresses := [[(0, (1, 2)), (1, (3, 2))]], os_queues := [[0, 1]],
     os_heartbeat_id := 1, os_heartbeat := HEARTBEAT_INTERVAL\<rparr>"

lemmas order_run_defs = run_handler_def order_accept_handlers_def order_add_storage_def order_add_client_def order_init_def sizeof_defs

lemma example_registered_run: "order_run example_registered []"
proof -
  let ?s1 = "order_init\<lparr>os_addresses := [[(0, (1, 2))]], os_queues := [[0]]\<rparr>"
  let ?s2 = "order_init\<lparr>os_addresses := [[(0, (1, 2)), (1, (3, 2))]], os_queues := [[0, 1]]\<rparr>"
  have "order_handle (Accepted (1, 9) (Storage_intro 0 0 1 2) 34) order_init = Inr (?s1, [])"
    "order_handle (Accepted (3, 9) (Storage_intro 0 1 1 2) 34) ?s1 = Inr (?s2, [])"
    by (simp_all add: order_run_defs NUM_SHARDS_def MAX_REPLICAS_def)
  moreover have "order_handle (Timer 0) ?s2 = Inr (example_registered, [])"
    by (simp add: order_tick_def send_heartbeats_def order_init_def example_registered_def time_point_min_def u64_add_def)
  ultimately show ?thesis
    using order_step [OF order_step [OF order_step [OF order_start]]] by fastforce
qed

definition example_joined :: order_state where
  "example_joined = example_registered\<lparr>os_iterator := snd (get_and_increment (os_iterator example_registered)),
     os_clients := [(0, client_state_new 0 2)]\<rparr>"

lemma example_joins:
  "order_handle (Accepted (1, 9) (Client_intro 0 0 2) 32) example_registered =
     Inr (example_joined, [Send (To_client 0) (Client_storage_info [(1, 2), (3, 2)]) 0 False])"
  by (simp add: order_run_defs example_joined_def example_registered_def NUM_SHARDS_def MAX_CLIENTS_value)

lemma example_grants:
  "order_handle (Timer 0) example_joined =
     Inr (fst (start_epoch 0 example_joined),
       [Send (To_client 0) (Client_new_epoch EPOCH_DURATION 2) 0 False,
        Send (To_storage 0 0) example_epoch 0 False, Send (To_storage 0 1) example_epoch 0 False])"
  by (simp add: order_tick_def start_epoch_def example_joined_def example_registered_def order_init_def time_point_min_def
      active_clients_def epoch_slots_def shard_assignments_def to_replicas_def client_state_new_def NUM_SHARDS_def
      HEARTBEAT_INTERVAL_def EPOCH_DURATION_def)

lemma example_numbers_left: "numbers_left example_registered" "numbers_left example_joined"
  by (simp_all add: numbers_left_def slots_bounded_def epoch_total_def active_clients_def example_joined_def example_registered_def
      order_init_def client_state_new_def u64_add_def)

subsection \<open>The client\<close>

definition example_writer :: client where
  "example_writer = example_client\<lparr>cl_queues := [0, 1]\<rparr>"

abbreviation example_inserts :: "send list" where
  "example_inserts \<equiv> [Send (To_storage 0 0) (Storage_insert 0 1 [42]) 1 False, Send (To_storage 0 1) (Storage_insert 0 1 [42]) 1 False]"

definition example_asked :: client where
  "example_asked = example_writer\<lparr>cl_responses := (cl_responses example_writer)(8 := UINT64_MAX),
     cl_requests := enqueue ([42], 8) (cl_requests example_writer)\<rparr>"

lemma example_asks: "client_insert [42] 8 example_writer = Inr example_asked"
  by (simp add: client_insert_def example_asked_def MAX_PAYLOAD_def SEND_BUFFER_SIZE_def sizeof_defs)

lemma example_writes: "\<exists>c. client_iteration id False 2500000 [] example_asked = Inr (c, example_inserts)"
  by (simp add: client_iteration_def client_stop_def client_switch_epoch_def client_send_def send_allowed_def example_asked_def
      example_writer_def example_client_def client_init_def example_ideal example_allowed u64_sub_small to_servers_def queue_init_def
      dequeue_def enqueue_def)

subsection \<open>The run\<close>

text \<open>The servers and the client are known to the ordering service.\<close>

definition example_begin :: system where
  "example_begin = \<lparr>sy_order = example_joined, sy_order_out = [Send (To_client 0) (Client_storage_info [(1, 2), (3, 2)]) 0 False],
     sy_client = Map.empty, sy_client_out = \<lambda>_. [], sy_server = \<lambda>p. example_server (snd p) log_init, sy_server_out = \<lambda>_. [],
     sy_history = \<lambda>_. [], sy_control = \<lambda>_. 0, sy_taken = \<lambda>_ _. 0, sy_thread = example_thread, sy_thread_out = \<lambda>_ _. []\<rparr>"

lemma example_begin_run:
  assumes "P \<subseteq> example_servers"
  shows "sys_run P example_subs example_begin"
proof -
  have servers: "p = (0, 0) \<or> p = (0, 1)" if "p \<in> P" for p
    using assms that by (auto simp: example_servers_def)
  define y where "y = \<lparr>sy_order = example_registered, sy_order_out = [], sy_client = Map.empty, sy_client_out = \<lambda>_. [],
      sy_server = \<lambda>p. example_server (snd p) log_init, sy_server_out = \<lambda>_. [], sy_history = \<lambda>_. [], sy_control = \<lambda>_. 0,
      sy_taken = \<lambda>_ _. 0, sy_thread = example_thread, sy_thread_out = \<lambda>_ _. []\<rparr>"
  have "sys_run P example_subs y"
    unfolding y_def by (rule sys_start [OF example_registered_run])
      (auto dest!: servers simp: example_registered_def order_init_def NUM_SHARDS_def MAX_REPLICAS_def example_fields example_history
        example_thread_at [of "(0, 0)", simplified] example_thread_at [of "(0, 1)", simplified] example_subs_def)
  from sys_order [where ev = "Accepted (1, 9) (Client_intro 0 0 2) 32", OF this] example_joins example_numbers_left(1)
  show ?thesis
    by (simp add: y_def example_begin_def del: order_handle.simps)
qed

lemma example_run:
  obtains y where "sys_run example_servers example_subs y" "\<And>p. p \<in> example_servers \<Longrightarrow> served p y"
    "\<And>p. p \<in> example_servers \<Longrightarrow> from_order y p = [example_epoch]"
    "\<And>p c. p \<in> example_servers \<Longrightarrow> from_client y p c = (if c = 0 then [Storage_insert 0 1 [42]] else [])"
proof -
  note r1 = example_begin_run [OF order_refl]
  define out where "out = [Send (To_client 0) (Client_new_epoch EPOCH_DURATION 2) 0 False,
        Send (To_storage 0 0) example_epoch 0 False, Send (To_storage 0 1) example_epoch 0 False]"
  define y2 where "y2 = example_begin\<lparr>sy_order := fst (start_epoch 0 example_joined), sy_order_out := sy_order_out example_begin @ out\<rparr>"
  have r2: "sys_run example_servers example_subs y2"
    unfolding y2_def using example_grants example_numbers_left(2)
    by (intro sys_order [where ev = "Timer 0", OF r1]) (simp_all add: example_begin_def out_def del: order_handle.simps)
  have r3: "sys_run example_servers example_subs (client_step 0 example_writer [] y2)" (is "sys_run _ _ ?y3")
    by (rule sys_join [OF r2]) (auto simp: y2_def example_begin_def example_writer_def example_client_def client_init_def example_servers_def)
  have r4: "sys_run example_servers example_subs (client_step 0 example_asked [] ?y3)" (is "sys_run _ _ ?y4")
    by (rule sys_request [OF r3 _ example_asks]) simp
  obtain c where c: "client_iteration id False 2500000 [] example_asked = Inr (c, example_inserts)"
    using example_writes ..
  have r5: "sys_run example_servers example_subs (client_step 0 c example_inserts ?y4)" (is "sys_run _ _ ?y5")
    by (rule sys_client [OF r4 _ _ c]) simp_all
  have outs: "from_order ?y5 p = [example_epoch]" "from_client ?y5 p 0 = [Storage_insert 0 1 [42]]"
    "d \<noteq> 0 \<Longrightarrow> from_client ?y5 p d = []" "waiting p ?y5" if "p \<in> example_servers" for p d
    using that by (auto simp: example_servers_def y2_def example_begin_def out_def channel_def waiting_def client_step_def)
  have P: "(0, 0) \<in> example_servers" "(0, 1) \<in> example_servers"
    by (simp_all add: example_servers_def)
  obtain y6 where y6: "sys_run example_servers example_subs y6" "served (0, 0) y6" "sy_order_out y6 = sy_order_out ?y5"
      "sy_client_out y6 = sy_client_out ?y5" "waiting (0, 1) y6"
    by (rule example_serves [OF r5 P(1) _ outs(4,1,2) [OF P(1)]]) (use outs(4) [OF P(2)] in auto)
  have o: "from_order y6 (0, 1) = [example_epoch]" "from_client y6 (0, 1) 0 = [Storage_insert 0 1 [42]]"
    using outs(1,2) [OF P(2)] y6(3,4) by simp_all
  obtain y7 where y7: "sys_run example_servers example_subs y7" "served (0, 1) y7" "served (0, 0) y7" "sy_order_out y7 = sy_order_out ?y5"
      "sy_client_out y7 = sy_client_out ?y5"
    by (rule example_serves [OF y6(1) P(2) _ y6(5) o]) (use y6 in auto)
  show thesis
    by (rule that [OF y7(1)]) (use y7 outs in \<open>auto simp: example_servers_def\<close>)
qed

lemma example_shard_log:
  assumes "from_order y p = [example_epoch]" and "\<And>c. from_client y p c = (if c = 0 then [Storage_insert 0 1 [42]] else [])"
  shows "shard_log y p = \<lparr>al_slots = [(0, 0), (0, 1)], al_stream = (\<lambda>_. [])(0 := [[42]])\<rparr>"
proof -
  have "epoch_plan [\<lparr>as_client_id = 0, as_num_slots = 2\<rparr>] = [0, 0]"
    by (simp add: epoch_plan_def round_plan_def upt_rec)
  then have "laid_out 0 [\<lparr>as_client_id = 0, as_num_slots = 2\<rparr>] = [(0, 0), (0, 1)]"
    by (simp add: laid_out_def upt_rec UINT64_MAX_def)
  then show ?thesis
    using assms by (simp add: shard_log_def control_ops_def common_log_def abs_extend_def requests_def fun_eq_iff)
qed

subsection \<open>The subscriber\<close>

definition example_got :: "nat \<Rightarrow> log_entry_msg list" where
  "example_got = (\<lambda>_. [])(1 := [example_sent 0, example_sent 1])"

text \<open>Both replicas have sent the entry, which is delivered with a quorum of two, and the application thread reads it.\<close>

lemma example_application:
  obtains books s where "subscriber_run True 1 0 1 example_got books s ((\<lambda>_. [])(0 := [example_sent 2]))" "idle 0 s"
proof -
  let ?r = "subscriber_run True 1 0 1"
  obtain ps1 where p1: "poll_entry 1 (example_sent 0) (sub_log_init 1) poll_init = Some (Inr (sub_log_init 1, ps1))"
      and ps1: "ps_current ps1 = [(0, example_sent 1)]" "info_of ps1 (0, 0) = (UINT64_MAX, sub_position_init)"
    by (simp add: poll_entry_def ack_entry_def poll_init_def example_sent_def NUM_SHARDS_def info_of_def same_entry_def u64_add_def)
  let ?l = "(sub_log_init 1)\<lparr>sl_blocks := [Some (zero_block(0 := Some (example_sent 2))), Some zero_block]\<rparr>"
  obtain ps where ack: "ack_entry 1 (example_sent 1) ps1 = (ps, Some (example_sent 2))"
    using ps1 by (simp add: ack_entry_def example_sent_def same_entry_def u64_add_def Let_def)
  have pos: "snd (info_of ps (0, 0)) = sub_position_init"
    using ack_entry_info(1) [of 1 "example_sent 1" ps1 "(0, 0)"] ack ps1 by simp
  have "\<exists>pos. sub_insert (example_sent 2) (sub_log_init 1) sub_position_init = Some (Inr (?l, pos))"
    by (simp add: sub_insert_def sub_position_init_def sub_log_init_def Let_def example_sent_def)
  then obtain ps2 where p2: "poll_entry 1 (example_sent 1) (sub_log_init 1) ps1 = Some (Inr (?l, ps2))"
    using ack pos by (auto simp: poll_entry_def NUM_SHARDS_def example_sent_def)
  have "Suc 0 div NUM_ENTRIES_PER_BLOCK = 0" "Suc 0 mod NUM_ENTRIES_PER_BLOCK = Suc 0"
    by (simp_all add: NUM_ENTRIES_PER_BLOCK_def)
  then obtain l it l2 it2 where rd: "process_once ?l (start_threads True 1 0 ! 0) = Inr ([example_sent 2], l, it)"
      and end_of_log: "sub_next_entry l it = Inr (None, l2, it2)"
    by (simp add: process_once_def start_threads_def process_iterator_def sub_sequential_init_def sub_iterator_init_def sub_next_entry_def sub_obtain_def
        load_entry_def sub_log_init_def example_sent_def zero_block_def Let_def)
  have "?r ((\<lambda>_. [])(1 := [example_sent 0, example_sent 1])) ((\<lambda>_. poll_init)(1 := ps1, 1 := ps2)) (?l, start_threads True 1 0) (\<lambda>_. [])"
    using run_packet [OF run_packet [OF run_start p1, where q = 1], where q = 1 and e = "example_sent 1"] p2 by simp
  note run = run_read [OF this _ rd]
  have "idle 0 (l, (start_threads True 1 0)[0 := it])"
    using end_of_log by (simp add: idle_def start_threads_def)
  with run that show thesis
    by (simp add: example_got_def)
qed

lemma example_polled:
  assumes "\<And>p. p \<in> example_servers \<Longrightarrow> served p y"
  shows "polled example_servers y 1 0 q (example_got q)" and "subscribed example_servers example_subs y 1 0 1"
proof -
  have "served (0, 0) y" "served (0, 1) y"
    using assms by (simp_all add: example_servers_def)
  then show "polled example_servers y 1 0 q (example_got q)" "subscribed example_servers example_subs y 1 0 1"
    by (auto simp: polled_def subscribed_def served_def example_servers_def example_subs_def example_got_def example_sent_def
        from_replica_def of_stream_def entry_key_def entries_to_def sent_to_def)
qed

text \<open>Both servers have taken everything, and their threads wait for the second slot, which nobody has filled.\<close>

lemma example_drained:
  assumes "\<And>p. p \<in> example_servers \<Longrightarrow> served p y" and "\<And>p. p \<in> example_servers \<Longrightarrow> from_order y p = [example_epoch]"
    and "\<And>p c. p \<in> example_servers \<Longrightarrow> from_client y p c = (if c = 0 then [Storage_insert 0 1 [42]] else [])"
  shows "drained example_servers y 1 0" and "polled_all example_servers y 1 0 q (example_got q)"
proof -
  have open_slot: "\<not> e_set (ent example_filled 1)"
  proof -
    have "al_stream (abs_of example_log) = (\<lambda>_. [])"
      by (simp add: example_abs)
    then have "\<not> e_set (ent example_log 1)"
      using abs_slot(1) [OF example_ok [of 0], of 1] by (simp add: example_server_client example_log_published abs_filled_def)
    then show ?thesis
      by (simp add: example_filled_def insert_result_ent example_log_published)
  qed
  have "\<exists>t'. stream_entry (sy_server y p) (sy_thread y p 0) = Inr (t', [])" if "p \<in> example_servers" for p
    using assms(1) [OF that] open_slot
    by (intro stream_entry_waits [of _ _ "Suc 0"]) (auto simp: served_def)
  then show "drained example_servers y 1 0"
    using assms by (auto simp: drained_def settled_def served_def sent_to_def)
  have "served (0, 0) y" "served (0, 1) y"
    using assms(1) by (simp_all add: example_servers_def)
  then show "polled_all example_servers y 1 0 q (example_got q)"
    using example_polled(1) [OF assms(1)]
    by (auto simp: polled_all_def served_def example_servers_def example_got_def example_sent_def from_replica_def entry_key_def
        entries_to_def sent_to_def)
qed

subsection \<open>A client leaves\<close>

lemma example_farewell:
  obtains y where "sys_run {(0, 0)} example_subs y" "Storage_client_finalize 0 \<in> set (from_order y (0, 0))"
    "from_client y (0, 0) 0 = [Client_finished 0]"
proof -
  let ?P = "{(0, 0)} :: server_id set" and ?c1 = "example_client\<lparr>cl_stopped := True\<rparr>"
  let ?bye = "[Send (To_storage 0 0) (Client_finished 0) 1 False]" and ?fin = "[Send (To_client 0) (Storage_finished 0 0) 0 True]"
  let ?s = "set_client 0 (disconnect (client_of (example_server 0 log_init) 0)) (example_server 0 log_init)"
  have r1: "sys_run ?P example_subs (client_step 0 example_client [] example_begin)" (is "sys_run _ _ ?y1")
    by (rule sys_join [OF example_begin_run]) (auto simp: example_begin_def example_client_def client_init_def example_servers_def)
  have r2: "sys_run ?P example_subs (client_step 0 ?c1 ?bye ?y1)" (is "sys_run _ _ ?y2")
    by (rule sys_client [where rnd = id and stop = True and now = "- 1" and packets = "[]", OF r1, of _ example_client])
      (simp_all add: client_iteration_def client_stop_def client_switch_epoch_def client_send_def send_allowed_def to_servers_def
        example_client_def client_init_def)
  have h: "storage_handle (St_client (Client_finished 0) 16) (example_server 0 log_init) = Some (Inr (?s, ?fin))"
    by (simp add: run_storage_handler_def client_handlers_def sizeof_defs with_connected_of example_server_client example_fields MAX_CLIENTS_value)
  have r3: "sys_run ?P example_subs ((server_step (0, 0) (St_client (Client_finished 0) 16) ?s ?fin ?y2)
      \<lparr>sy_taken := (sy_taken ?y2)((0, 0) := (sy_taken ?y2 (0, 0))(0 := Suc (sy_taken ?y2 (0, 0) 0)))\<rparr>)" (is "sys_run _ _ ?y3")
    by (rule sys_take_request [OF r2]) (use h in \<open>simp_all add: example_begin_def client_step_def channel_def del: storage_handle.simps\<close>)
  have r4: "sys_run ?P example_subs (client_step 0 (?c1\<lparr>cl_queues := []\<rparr>) [Send To_order (Client_finished 0) 0 False] ?y3)" (is "sys_run _ _ ?y4")
    by (rule sys_client [where rnd = id and stop = True and now = "- 1" and
          packets = "[((Storage_finished 0 0, 24), [])]", OF r3, of _ ?c1])
      (simp_all add: client_iteration_def client_stop_def client_switch_epoch_def client_send_def send_allowed_def run_handler_def
        loop_handlers_def sizeof_defs client_on_storage_finished_def example_client_def client_init_def client_hears_def channel_def)
  let ?out = "Send (To_client 0) Order_finished 0 True # to_replicas example_joined 0 (Storage_client_finalize 0) False"
  obtain os where o: "order_handle (Received (Client_finished 0) 16) example_joined = Inr (os, ?out)"
    by (simp add: run_handler_def order_handlers_def sizeof_defs finalized_def example_joined_def client_state_new_def)
  have heard: "hears ?y4 ?P (Received (Client_finished 0) 16)"
    by (auto simp: channel_def image_iff intro!: exI [of _ 0])
  have r5: "sys_run ?P example_subs (?y4\<lparr>sy_order := os, sy_order_out := sy_order_out ?y4 @ ?out\<rparr>)"
    by (rule sys_order [OF r4 heard])
      (use o example_numbers_left in \<open>simp_all add: example_begin_def client_step_def del: order_handle.simps\<close>)
  show thesis
    by (rule that [OF r5])
      (simp_all add: example_begin_def channel_def to_replicas_def example_joined_def example_registered_def order_init_def)
qed

end
