(* ===== verification/Spec2Isabelle.thy ===== *)
theory Spec2Isabelle
  imports Recovery Client_Facts Teardown Lock_Program Example_Run
begin

text \<open>
  \<^bold>\<open>ZipLog\<close> is a replicated, totally ordered log. This development models its own C++ code, everything
  below \<open>src/src\<close>, and proves what makes it correct. File names below are relative to that directory.

  \<^bold>\<open>The program.\<close> The \<^emph>\<open>ordering service\<close> (\<open>order/\<close>) divides time into epochs. At the start of an epoch it
  tells every client how many slots it has and every storage server how the slots of all clients are
  interleaved; each slot has a global sequence number. A \<^emph>\<open>storage server\<close> (\<open>storage/\<close>), one replica of one
  shard, lays out the slots of its shard as entries of a log, fills them with the inserts of the clients and
  streams the filled slots to the subscribers. A \<^emph>\<open>client\<close> (\<open>client/\<close>) spreads its requests over the slots of
  the epoch, sends each to all replicas of its shard and answers it when enough of them have acknowledged it.
  A \<^emph>\<open>subscriber\<close> (\<open>subscriber/\<close>) counts the replicas that have sent an entry, puts it into its own log and
  hands it to the application threads. When a client fails, the ordering service freezes it at the replicas,
  compares their cuts and has missing data exchanged. The \<^emph>\<open>lock service\<close> (\<open>lock_service/\<close>) is an application
  of the log. All of them talk over RDMA queues (\<open>network/\<close>) with the messages of \<open>api/api.h\<close>.

  \<^bold>\<open>How the code is modelled.\<close> A class is a record, an operation or handler is a function on it. What a handler
  sends is a list of messages with destination, queue index and flag (\<open>send\<close>, theory \<open>Messaging\<close>). A failed
  \<open>ZIP_ASSERT\<close>, an uncaught exception and an access out of bounds are the faults of \<open>'a res\<close>
  (\<open>Zip_Prelude\<close>). 64-bit arithmetic that can wrap is \<open>u64_add\<close>, \<open>u64_sub\<close>, \<open>u64_mul\<close> and \<open>s64\<close>. Linked entries
  live in a heap addressed by block and index. A loop over pointers is a \<open>partial_function\<close>, whose \<open>None\<close> is a
  loop that does not end, and each is proved to end where it is used; a handler that waits for a condition
  variable, or an insert that spins until a block exists, is \<open>None\<close> until the condition holds. No model has fuel.
  Threads are interleavings of atomic steps: the handlers run under the locks of the source, and the lock-free
  readers are steps of a relation in which the other threads move between any two polls.

  \<^bold>\<open>Theories.\<close>
  \<^item> \<open>Zip_Prelude\<close>, \<open>Zip_Bytes\<close>: integers, faults, association lists, little-endian memory.
  \<^item> \<open>Zip_Consts\<close> (\<open>util/consts.h\<close>), \<open>Zip_Api\<close> (\<open>api/api.h\<close>), \<open>Zip_Util\<close> (\<open>util/util.h\<close>, \<open>util/util.cpp\<close>), \<open>Messaging\<close>
    (\<open>util/switch.h\<close>).
  \<^item> \<open>Zip_Concurrent\<close> (\<open>util/concurrent.h\<close>): bag and queue, both interpretations of the locale \<open>handover\<close>.
  \<^item> \<open>Order\<close> (\<open>order/order.h\<close>, \<open>order/order.cpp\<close>, the accept loop of \<open>order/main.cpp\<close>) and \<open>Order_Facts\<close>: handlers,
    timers and epochs; the invariant in all reachable states.
  \<^item> \<open>Storage_Log\<close> (\<open>storage/log.h\<close>, \<open>storage/log.cpp\<close>), \<open>Storage_Log_Facts\<close> (invariant, add_entries), \<open>Storage_Position\<close>
    (inserting, patching, closing), \<open>Storage_Iterator\<close> (reading), \<open>Epoch_Layout\<close> (the schedule that the error
    terms of \<open>add_entries\<close> implement).
  \<^item> \<open>Storage\<close> (\<open>storage/storage.h\<close>, \<open>storage/storage.cpp\<close>, the accept loop of \<open>storage/main.cpp\<close>), \<open>Storage_Facts\<close>,
    \<open>Storage_Stream\<close>: handlers of the control and client threads, the subscriber threads, the invariant.
  \<^item> \<open>Replica\<close>: the abstract log, owners of slots and one stream of payloads per client, and the refinement of
    the server's operations to it. \<open>Epoch\<close>: an epoch from the ordering service to the logs.
  \<^item> \<open>Strided_Reader\<close>: the locale of a thread that polls every \<open>n\<close>-th element of a growing log, interpreted on the
    iterators of both logs. \<open>Quorum\<close>: counting replicas, shared by subscriber and client.
  \<^item> \<open>Subscriber_Log\<close> (\<open>subscriber/log.h\<close>, \<open>subscriber/log.cpp\<close>), \<open>Subscriber_Log_Facts\<close>, \<open>Subscriber\<close>
    (\<open>subscriber/subscriber.h\<close>, \<open>subscriber/subscriber.cpp\<close>), \<open>Subscriber_Facts\<close>.
  \<^item> \<open>Client\<close> (\<open>client/client.h\<close>, \<open>client/client.cpp\<close>), \<open>Client_Facts\<close>. \<open>Lock_Service\<close> (\<open>lock_service/lock_service.h\<close>,
    \<open>lock_service/lock_service.cpp\<close>) and \<open>Lock_Program\<close> (\<open>request\<close> with its loop, the worker and the report of
    \<open>lock_service/main.cpp\<close>). \<open>Recovery\<close>: a failed client across the ordering service and the replicas.
  \<^item> \<open>Send_Queue\<close>, \<open>Recv_Queue\<close> (\<open>network/send_queue.cpp\<close>, \<open>network/recv_queue.cpp\<close> and their headers).
  \<^item> \<open>Network_Memory\<close>, \<open>Queue_Pairs\<close> and \<open>Connection\<close> (\<open>network/manager.h\<close>, \<open>network/manager.cpp\<close>): buffers, where the locale
    \<open>pool\<close> is interpreted on send buffers and on receive buffers; queue pairs; connections. \<open>Handles\<close> (\<open>network/buffer.h\<close>,
    \<open>network/buffer.cpp\<close> and parts of the files above): the objects that own buffers and queues, their moves and destructors.
    \<open>Teardown\<close>: the destructors of both logs and of the manager, and its overloads for one queue.
  \<^item> \<open>Benchmark\<close> (\<open>client/main.cpp\<close>, \<open>subscriber/main.cpp\<close>): the loop of the client program, the statistics of the
    subscriber program.
  \<^item> The composition. \<open>History\<close>: a server's log as the result of the operations it has carried out. \<open>Channels\<close>: what the
    components send to each other. \<open>Numbers\<close>: sequence numbers over all epochs of a run. \<open>Zip_System\<close>: the ordering service, the
    clients, the servers and their threads as one step relation \<open>sys_run\<close> with its invariant. \<open>Feed\<close>: what a server's threads
    send to a subscriber. \<open>Application\<close>: a subscriber with all its threads, \<open>subscriber_run\<close>. \<open>End_To_End\<close>: from the clients to the
    applications. \<open>Completeness\<close>: nothing is lost on this way. \<open>Example_Run\<close>: a run of the whole system on which the properties are evaluated.

  \<^bold>\<open>What is shown.\<close>
  \<^item> The whole system, in every run without failures (this theory): an application thread hands out every \<open>k\<close>-th of the
    sequence numbers from its first one, in order and without a gap, each a filled slot of its shard's log with the payload its client sent
    (\<open>application_reads_shard_logs\<close>); when everything has been handled, a thread that finds no next entry waits for a slot
    that is not filled or is behind one that is not (\<open>nothing_is_lost\<close>); subscribers agree; replicas of a shard agree and converge; a sequence number names one slot;
    a client's slots are closed only after everything it sent has arrived.
  \<^item> Ordering: within an epoch every sequence number belongs to exactly one slot of one shard, each client gets
    exactly the number it was told, and all replicas of a shard lay out the same slots (\<open>Epoch\<close>).
  \<^item> Storage: every operation refines one of the abstract log; replicas agree on filled slots; filled slots stay;
    subscriber threads send their slots in order (\<open>Replica\<close>, \<open>Storage_Stream\<close>).
  \<^item> Client: as long as its clock does not step back behind the beginning of an epoch, it never asks for more slots than it was
    given, hence its inserts always find a slot (this theory);
    a request is answered exactly at a quorum, with its own sequence number (\<open>Client_Facts\<close>).
  \<^item> Subscriber: an entry is delivered exactly at a quorum, in order; application threads read every \<open>n\<close>-th entry
    from their first one, never a recycled block, and hand out the rest of the log before they end; the control loop ends exactly when
    all servers have left.
  \<^item> Recovery: the decision of the ordering service on the cuts and the forwarding of data.
  \<^item> Lock service: fairness, mutual exclusion, agreement of the processes.
  \<^item> Transport: ring offsets, immediate values, posted receives; the queue pairs of both ends of a connection are brought up
    and lead to each other. However buffer objects are created, moved and destroyed, no memory is held twice and none is lost
    (\<open>Handles\<close>); the destructor of a server's log frees every copy of a payload once and nothing else (\<open>Teardown\<close>).
  \<^item> Programs: the client program never writes into the buffer of a request that is under way, which is why the
    models may hand over payloads instead of buffers; the report of the lock program succeeds exactly if a round was
    completed.
  \<^item> Departures of the code from its intent are theorems about the code as it is: the cuts that are compared
    (\<open>inner_cuts_ignored\<close>), the patch handler (\<open>patch_ends_replica\<close>), sequential application threads
    (\<open>sequential_threads_collide\<close>), the flag of a release (\<open>release_needs_acquire_flag\<close>), leaked buffers
    (\<open>failed_connection_leaks\<close>), the destructor of a send queue (\<open>queue_frees_used_buffer\<close>).

  \<^bold>\<open>Parameters.\<close> The clock is the argument \<open>now\<close>. Doubles of the rate controller are exact rationals, rounded by an
  argument \<open>rnd\<close>; the property that depends on it assumes that integers up to \<open>2 ^ 53\<close> are kept, as IEEE doubles
  do. What the RDMA device, the verbs library, the sockets and the peer of a connection answer are arguments (\<open>device\<close>,
  \<open>nic\<close>, completions, the record of what the peer sends); the property on queue pairs assumes that a successful call of \<open>ibv_modify_qp\<close> sets the
  attributes that its mask names (\<open>documented\<close>), and says that a call fails only for values that the device does not support with the
  attributes that the transition requires (\<open>supports\<close>). New memory is zeroed and a fresh address, and never runs out; the padding in a description of a
  queue, which the peer does not read, is zero.

  \<^bold>\<open>Assumptions.\<close> The flag \<open>sequential\<close> of a subscriber is a parameter of its runs, and the properties hold for both
  values; only the first entry of a thread depends on it (\<open>first_entry\<close>). The member \<open>current_blocks_\<close> of its iterators is not initialised by the
  code; the properties assume that it holds at most \<open>2\<close>, the number of blocks at first. The property that a client stays within its
  slots assumes a clock that is not read before the beginning of an epoch that was entered. A thread of the lock service uses the address of
  the acquisition of a lock it holds for the release of this lock only.

  \<^bold>\<open>Bounds.\<close> The theorems about sequence numbers assume that the next base stays below \<open>2 ^ 64\<close>: at a billion slots
  a second this takes five centuries. A quorum assumes that \<open>failures + 1\<close> fits 64 bits. A run of the
  whole system has no failed client or server; the servers are registered before the clients, with only empty epochs
  before; a client is connected to all replicas of its shard, and a subscriber to all servers from the start, which have the
  same number of threads. Recovery from failures is covered by the properties of \<open>Recovery\<close>, not by those of whole runs.

  \<^bold>\<open>Not modelled.\<close> The weak memory orderings, since each atomic is used as a sequentially consistent step; the identity of threads,
  their pinning and joining; huge pages and the profiler in \<open>util/util.cpp\<close>; logging; the parsing of options, signal handlers and
  histograms of the programs' \<open>main.cpp\<close>; and the vendored allocator, option parser and histogram library under \<open>src/deps\<close>. These act
  on the operating system or the output only, or are not part of the program.
\<close>

section \<open>Properties across components\<close>

text \<open>
  C8. Client, storage server and ordering service fit together: an insert that a client sends always finds a slot. If a
  server of its shard has handled the inserts sent to it before and holds at least the slots announced to the
  client, the insert succeeds, is acknowledged with the sequence number of one of the client's slots, and leaves
  the server ready for the next insert in the same sense. The assertion of \<open>insert\<close> is never reached. The clock of the client must
  not be read before the beginning of an epoch that the client has entered (\<open>clock_ok\<close>), which \<open>high_resolution_clock\<close> does not promise:
  after such a step back the client asks for slots that it was not given (\<open>clock_step_back_oversends\<close>) and the assertion can be reached. The epochs
  that are announced fit 64 bits (\<open>announces\<close>).
\<close>

theorem inserts_find_slots:
  assumes "client_run rnd c (out @ Send (To_storage sh rid) (Storage_insert cid n data) q sy # rest)"
    and "storage_inv s" and "unset_empty (st_log s)" and "cid < MAX_CLIENTS"
    and "sc_connected (client_of s cid)" and "\<not> sc_disconnected (client_of s cid)"
    and "length (al_stream (abs_of (st_log s)) cid) = sent_slots rid out"
    and "cl_assigned c \<le> length (abs_owned cid (abs_of (st_log s)))"
  shows "\<exists>s'. \<exists>g \<in> set (abs_owned cid (abs_of (st_log s))).
    storage_on_insert (Storage_insert cid n data) s =
      Some (Inr (s', [Send (To_client cid) (Client_insert_ack (st_replica_id s) g) 0 False])) \<and>
    storage_inv s' \<and> unset_empty (st_log s') \<and> abs_owned cid (abs_of (st_log s')) = abs_owned cid (abs_of (st_log s)) \<and>
    length (al_stream (abs_of (st_log s')) cid) =
      sent_slots rid (out @ [Send (To_storage sh rid) (Storage_insert cid n data) q sy])"
proof -
  let ?m = "Send (To_storage sh rid) (Storage_insert cid n data) q sy"
  let ?a = "abs_of (st_log s)"
  have run: "run_inv c (out @ ?m # rest)"
    using client_run_inv [OF assms(1)] .
  then have slots: "sent_slots rid out + n \<le> cl_consumed c" and pace: "pacing_inv c"
    and "\<forall>x \<in> set (out @ ?m # rest). is_insert x \<longrightarrow> 0 < ins_num_slots (s_msg x)"
    using sent_slots_Cons [of rid ?m rest] by (auto simp: run_inv_def dest: spec [of _ rid])
  then have n: "0 < n"
    by (auto simp: is_insert_def)
  have big: "cl_consumed c < 2 ^ 64"
    using pace by (auto simp: pacing_inv_def epoch_fits_def)
  have fits: "length (al_stream ?a cid) + n \<le> length (abs_owned cid ?a)"
    using slots consumed_assigned [OF pace] assms(7,8) by simp
  obtain s' where s': "storage_on_insert (Storage_insert cid n data) s =
      Some (Inr (s', [Send (To_client cid) (Client_insert_ack (st_replica_id s)
        (abs_owned cid ?a ! (length (al_stream ?a cid) + n - 1))) 0 False]))"
    "storage_inv s'" "unset_empty (st_log s')" "abs_of (st_log s') = abs_insert cid n data ?a"
    by (rule insert_refines [OF assms(2-6) n _ fits]) (use slots big in auto)
  have "abs_owned cid ?a ! (length (al_stream ?a cid) + n - 1) \<in> set (abs_owned cid ?a)"
    using fits n by (intro nth_mem) simp
  moreover have "abs_owned cid (abs_of (st_log s')) = abs_owned cid ?a"
    by (simp add: s'(4) abs_insert_def abs_owned_def)
  moreover have "length (al_stream (abs_of (st_log s')) cid) = sent_slots rid (out @ [?m])"
    using n assms(7) by (simp add: s'(4) abs_insert_def sent_slots_Cons)
  ultimately show ?thesis
    using s'(1-3) by blast
qed

theorem inserts_find_slots_witness:
  "\<exists>s' g. storage_on_insert (Storage_insert 0 1 []) (example_server 0 example_log) =
      Some (Inr (s', [Send (To_client 0) (Client_insert_ack 0 g) 0 False])) \<and> g \<in> {0, 1}"
proof -
  obtain c where i: "client_iteration id False 2500000 [] example_client =
     Inr (c, [Send (To_storage 0 0) (Storage_insert 0 1 []) 1 False])" and c: "cl_assigned c = 2"
    using example_client_sends by blast
  from run_iteration [OF example_client_run _ _ i]
  have run: "client_run id c ([] @ Send (To_storage 0 0) (Storage_insert 0 1 []) 1 False # [])"
    by (simp add: announces_def clock_ok_def example_client_def client_init_def)
  have a: "abs_owned 0 (abs_of (st_log (example_server 0 example_log))) = [0, 1]"
    "al_stream (abs_of (st_log (example_server 0 example_log))) 0 = []"
    by (simp_all add: example_server_client example_abs abs_owned_def)
  from inserts_find_slots [OF run example_ok [of 0], unfolded a] c show ?thesis
    by (auto simp: example_server_client example_abs MAX_CLIENTS_value simp del: storage_on_insert.simps)
qed

text \<open>
  C18. An epoch keeps the books of a client and of the servers of its shard equal: if a server holds exactly the slots
  announced to the client, and the ordering service starts an epoch in which the client is active, then after the
  client has handled its message and the server its own, the server again holds exactly the slots announced. Together with
  the property before, this is why inserts find slots in every epoch.
\<close>

theorem allotments_match:
  assumes "epoch_ok srv" and "(cid, oc) \<in> set (active_clients srv)" and "rid \<in> set (os_queues srv ! oc_shard_id oc)"
    and "os_gsn_base srv + epoch_total srv < 2 ^ 64" and "storage_inv s" and "unset_empty (st_log s)"
    and "cl_assigned c = length (abs_owned cid (abs_of (st_log s)))" and "cl_assigned c + oc_num_slots oc < 2 ^ 64"
  shows "\<exists>m m' s' c'. Send (To_client cid) m 0 False \<in> set (snd (start_epoch now srv)) \<and>
    Send (To_storage (oc_shard_id oc) rid) m' 0 False \<in> set (snd (start_epoch now srv)) \<and>
    run_handler (loop_handlers connections) m (msg_length m) c = Inr (c', []) \<and>
    storage_on_slots m' s = Some (Inr (s', [])) \<and> storage_inv s' \<and> unset_empty (st_log s') \<and>
    cl_assigned c' = length (abs_owned cid (abs_of (st_log s'))) \<and> cl_assigned c' = cl_assigned c + oc_num_slots oc \<and>
    al_stream (abs_of (st_log s')) = al_stream (abs_of (st_log s))"
proof -
  let ?sid = "oc_shard_id oc" and ?n = "oc_num_slots oc"
  let ?asg = "shard_assignments ?sid (epoch_slots srv)"
  let ?m = "Client_new_epoch (now + EPOCH_DURATION) ?n" and ?m' = "Storage_slots (os_gsn_base srv) ?asg"
  have ok: "order_inv srv"
    using assms(1) by (simp add: epoch_ok_def)
  have sid: "?sid < NUM_SHARDS"
    using active_client_ok [OF ok assms(2)] by (auto simp: client_ok_def)
  have log: "log_inv (st_log s)"
    using assms(5) by (simp add: storage_inv_def)
  have "os_gsn_base srv + sum_list (map fst (epoch_slots srv)) \<le> 2 ^ 64"
    using assms(1,4) epoch_total_eq [of srv] by (simp add: epoch_ok_def)
  then obtain l' where l': "add_entries (os_gsn_base srv) ?asg (st_log s) = Inr l'" "log_inv l'" "log_extends (st_log s) l'"
    "log_slots l' = log_slots (st_log s) @ new_slots srv ?sid"
    using add_entries_epoch [OF assms(1) log, of ?sid] by auto
  have abs: "abs_of l' = abs_extend (new_slots srv ?sid) (abs_of (st_log s))" "unset_empty l'"
    using extends_refines [OF l'(3,4) assms(6)] by simp_all
  have "length (filter (\<lambda>(d, _). d = cid) (new_slots srv ?sid)) = ?n"
    using new_slots_count [OF assms(1,2), of ?sid] by simp
  then have owned: "length (abs_owned cid (abs_of l')) = length (abs_owned cid (abs_of (st_log s))) + ?n"
    by (simp add: abs(1) abs_extend_def abs_owned_def)
  have "epoch_slots srv \<noteq> []"
    using epoch_slots_length [of srv] assms(2) by auto
  then have "0 < length ?asg"
    by (simp add: shard_assignments_def)
  then have "storage_on_slots ?m' s = Some (Inr (s\<lparr>st_log := l'\<rparr>, []))"
    by (simp add: l'(1) del: length_greater_0_conv)
  moreover have "run_handler (loop_handlers connections) ?m (msg_length ?m) c = Inr (on_new_epoch (now + EPOCH_DURATION) ?n c, [])"
    unfolding run_handler_ok by (simp add: loop_handlers_def)
  moreover have "cl_assigned (on_new_epoch (now + EPOCH_DURATION) ?n c) = cl_assigned c + ?n"
    using assms(8) by (simp add: on_new_epoch_def Let_def u64_add_small)
  moreover have "Send (To_client cid) ?m 0 False \<in> set (snd (start_epoch now srv))"
    using assms(2) by (force simp: start_epoch_def)
  moreover have "Send (To_storage ?sid rid) ?m' 0 False \<in> set (snd (start_epoch now srv))"
    using sid assms(3) by (force simp: start_epoch_def to_replicas_def)
  ultimately show ?thesis
    using extends_inv [OF assms(5) l'(2,3)] abs owned assms(7)
    by (intro exI [of _ ?m] exI [of _ ?m'] exI [of _ "s\<lparr>st_log := l'\<rparr>"] exI [of _ "on_new_epoch (now + EPOCH_DURATION) ?n c"])
      (simp add: abs_extend_def)
qed

theorem allotments_match_witness:
  "\<exists>m' s' c'. Send (To_storage 0 0) m' 0 False \<in> set (snd (start_epoch 0 example_order)) \<and>
     storage_on_slots m' (example_server 0 log_init) = Some (Inr (s', [])) \<and>
     cl_assigned (c' :: client) = length (abs_owned 5 (abs_of (st_log s'))) \<and> cl_assigned c' = 3"
proof -
  let ?c = "client_init 5 0 0 False \<lparr>pid_target = 0, pid_proportional = 0, pid_integral = 0, pid_detivative = 0\<rparr>"
  have inv: "storage_inv (example_server 0 log_init)"
    by (rule example_server_inv) (simp_all add: log_inv_init)
  have "0 \<in> set (os_queues example_order ! oc_shard_id (client_state_new 0 3))"
    by (simp add: example_order_def order_init_def client_state_new_def)
  moreover have "os_gsn_base example_order + epoch_total example_order < 2 ^ 64"
    using example_order_active(2) epoch_total_eq [of example_order] example_order_ok
    by (simp add: epoch_ok_def) (simp add: example_order_def)
  moreover have "cl_assigned ?c = length (abs_owned 5 (abs_of (st_log (example_server 0 log_init))))"
    by (simp add: client_init_def example_server_client abs_of_def abs_owned_def example_log_slots)
  ultimately show ?thesis
    using allotments_match [OF example_order_ok example_order_active(1), of 0 "example_server 0 log_init" ?c 0 "[]"] inv
    by (simp add: example_server_client unset_empty_init client_init_def client_state_new_def del: storage_on_slots.simps) metis
qed

section \<open>Properties of the whole system\<close>







text \<open>
  C6. Replicas agree: in every run of the system without failures, whatever two replicas of a shard hold in the same
  place of their logs belongs to the same client and has the same sequence number, and once both have filled it, the same payload, however
  differently they interleave the messages of the ordering service and of the clients.
\<close>

theorem shard_replicas_agree:
  assumes "sys_run P subs y" and "p \<in> P" and "q \<in> P" and "fst p = fst q"
    and "i < l_current_entries (st_log (sy_server y p))" and "i < l_current_entries (st_log (sy_server y q))"
  shows "e_client_id (ent (st_log (sy_server y p)) i) = e_client_id (ent (st_log (sy_server y q)) i) \<and>
    e_gsn (ent (st_log (sy_server y p)) i) = e_gsn (ent (st_log (sy_server y q)) i) \<and>
    (e_set (ent (st_log (sy_server y p)) i) \<and> e_set (ent (st_log (sy_server y q)) i) \<longrightarrow>
       entry_payload (ent (st_log (sy_server y p)) i) = entry_payload (ent (st_log (sy_server y q)) i))"
  using server_log [OF assms(1,2,5)] server_log [OF assms(1,3,6)] shard_log_same [OF sys_run_inv [OF assms(1)] assms(2-4)] by auto

theorem shard_replicas_agree_witness:
  "\<exists>y. sys_run example_servers example_subs y \<and> e_set (ent (st_log (sy_server y (0, 0))) 0) \<and>
     e_set (ent (st_log (sy_server y (0, 1))) 0) \<and>
     entry_payload (ent (st_log (sy_server y (0, 0))) 0) = entry_payload (ent (st_log (sy_server y (0, 1))) 0)"
proof -
  obtain y where y: "sys_run example_servers example_subs y" "\<And>p. p \<in> example_servers \<Longrightarrow> served p y"
    using example_run by metis
  then have "st_log (sy_server y (0, 0)) = example_filled" "st_log (sy_server y (0, 1)) = example_filled"
    by (simp_all add: served_def example_servers_def)
  with shard_replicas_agree [OF y(1), of "(0, 0)" "(0, 1)" 0] y(1) example_filled_entry show ?thesis
    by (auto simp: example_servers_def)
qed

text \<open>
  C16. Replicas converge: a replica that has taken all messages sent to it has exactly the log that the ordering service and the
  clients asked for; two such replicas of one shard have the same slots and the same payloads.
\<close>

theorem replicas_converge:
  assumes "sys_run P subs y" and "p \<in> P" and "q \<in> P" and "fst p = fst q"
    and "sy_control y p = length (from_order y p)" and "\<And>c. sy_taken y p c = length (from_client y p c)"
    and "sy_control y q = length (from_order y q)" and "\<And>c. sy_taken y q c = length (from_client y q c)"
  shows "abs_of (st_log (sy_server y p)) = shard_log y p \<and> abs_of (st_log (sy_server y q)) = abs_of (st_log (sy_server y p))"
  using server_converged [OF assms(1,2,5,6)] server_converged [OF assms(1,3,7,8)]
    shard_log_same [OF sys_run_inv [OF assms(1)] assms(2-4)] by simp

theorem replicas_converge_witness:
  "\<exists>y. sys_run example_servers example_subs y \<and>
     abs_of (st_log (sy_server y (0, 0))) = \<lparr>al_slots = [(0, 0), (0, 1)], al_stream = (\<lambda>_. [])(0 := [[42]])\<rparr>"
proof -
  obtain y where y: "sys_run example_servers example_subs y" "\<And>p. p \<in> example_servers \<Longrightarrow> served p y"
      "\<And>p. p \<in> example_servers \<Longrightarrow> from_order y p = [example_epoch]"
      "\<And>p c. p \<in> example_servers \<Longrightarrow> from_client y p c = (if c = 0 then [Storage_insert 0 1 [42]] else [])"
    by (rule example_run) blast
  have P: "(0, 0) \<in> example_servers" "(0, 1) \<in> example_servers"
    by (simp_all add: example_servers_def)
  have "sy_control y p = length (from_order y p)" "sy_taken y p c = length (from_client y p c)" if "p \<in> example_servers" for p c
    using y(2-4) [OF that] by (simp_all add: served_def)
  from replicas_converge [OF y(1) P _ this(1) [OF P(1)] this(2) [OF P(1)] this(1) [OF P(2)] this(2) [OF P(2)]]
  have "abs_of (st_log (sy_server y (0, 0))) = shard_log y (0, 0)" by simp
  with y(1) example_shard_log [OF y(3) [OF P(1)] y(4) [OF P(1)]] show ?thesis
    by auto
qed

text \<open>
  C14. What a polling thread of a subscriber hands on of one stream, the slots of thread \<open>i\<close> of the servers of one shard: the first entries
  of the log of the shard that go to this polling thread, in the order of the log, all of them filled, each with its client, sequence number
  and payload; and as many as more than \<open>failures\<close> replicas have sent.
\<close>

theorem stream_delivered:
  assumes "sys_run P subs y" and "finite P" and "subscribed P subs y n sid nq" and "polled P y n sid q pkts"
    and "Suc f < 2 ^ 64" and "p \<in> P" and "i < n"
  shows "\<exists>m. of_stream (fst p, i) (snd (deliver f pkts poll_init)) =
        map (shard_entry (shard_log y p) (fst p) n i (Suc f)) (filter (\<lambda>k. queue_of n nq i k = q) [0..<m]) \<and>
      (\<forall>k < m. abs_filled (shard_log y p) (i + k * n)) \<and>
      (\<forall>j. j < length (of_stream (fst p, i) (snd (deliver f pkts poll_init))) \<longleftrightarrow>
         f < card {r. (fst p, r) \<in> P \<and> j < length (from_replica (fst p, i) r pkts)})"
  by (rule polling_thread_delivers [OF assms])

theorem stream_delivered_witness:
  "\<exists>y m. sys_run example_servers example_subs y \<and>
     of_stream (0, 0) (snd (deliver 1 [example_sent 0, example_sent 1] poll_init)) =
       map (shard_entry (shard_log y (0, 0)) 0 1 0 (Suc 1)) (filter (\<lambda>k. queue_of 1 1 0 k = 1) [0..<m])"
proof -
  obtain y where y: "sys_run example_servers example_subs y" "\<And>p. p \<in> example_servers \<Longrightarrow> served p y"
    using example_run by metis
  have P: "finite example_servers" "(0, 0) \<in> example_servers"
    by (simp_all add: example_servers_def)
  have "polled example_servers y 1 0 1 [example_sent 0, example_sent 1]"
    using example_polled(1) [OF y(2), of 1] by (simp add: example_got_def)
  moreover have "subscribed example_servers example_subs y 1 0 1"
    using y(2) by (rule example_polled(2))
  ultimately show ?thesis
    using stream_delivered [OF y(1) P(1) _ _ _ P(2), of 1 0 1 1 "[example_sent 0, example_sent 1]" 1 0] y(1)
    by (auto simp del: deliver.simps)
qed

text \<open>
  C15. A sequence number names one slot of the whole system: two servers have the same number in their logs exactly when they are
  of the same shard and it is the same place of the log, and within a shard later places have larger numbers, over all epochs of a run.
\<close>

theorem number_names_slot:
  assumes "sys_run P subs y" and "p \<in> P" and "q \<in> P"
    and "i < l_current_entries (st_log (sy_server y p))" and "j < l_current_entries (st_log (sy_server y q))"
  shows "(e_gsn (ent (st_log (sy_server y p)) i) = e_gsn (ent (st_log (sy_server y q)) j) \<longleftrightarrow> fst p = fst q \<and> i = j) \<and>
    (fst p = fst q \<and> i < j \<longrightarrow> e_gsn (ent (st_log (sy_server y p)) i) < e_gsn (ent (st_log (sy_server y q)) j))"
proof -
  note slot = server_log(1,2) [OF assms(1,2,4)] and slot' = server_log(1,2) [OF assms(1,3,5)]
  have same: "shard_log y p = shard_log y q" if "fst p = fst q"
    using shard_log_same [OF sys_run_inv [OF assms(1)] assms(2,3) that] .
  have "fst p = fst q \<and> i = j" if "e_gsn (ent (st_log (sy_server y p)) i) = e_gsn (ent (st_log (sy_server y q)) j)"
    using slot_of_number [OF assms(1,2) slot(1) assms(3) slot'(1)] slot(2) slot'(2) that by simp
  moreover have "e_gsn (ent (st_log (sy_server y p)) i) = e_gsn (ent (st_log (sy_server y q)) j)" if "fst p = fst q" "i = j"
    using slot(2) slot'(2) same [OF that(1)] that(2) by simp
  moreover have "e_gsn (ent (st_log (sy_server y p)) i) < e_gsn (ent (st_log (sy_server y q)) j)" if "fst p = fst q" "i < j"
    using shard_numbers(1) [OF assms(1,3) that(2) slot'(1)] slot(2) slot'(2) same [OF that(1)] by simp
  ultimately show ?thesis by blast
qed

theorem number_names_slot_witness:
  "\<exists>y. sys_run example_servers example_subs y \<and>
     e_gsn (ent (st_log (sy_server y (0, 0))) 0) < e_gsn (ent (st_log (sy_server y (0, 1))) 1)"
proof -
  obtain y where y: "sys_run example_servers example_subs y" "\<And>p. p \<in> example_servers \<Longrightarrow> served p y"
    using example_run by metis
  then have "l_current_entries (st_log (sy_server y (0, 0))) = 2" "l_current_entries (st_log (sy_server y (0, 1))) = 2"
    by (simp_all add: served_def example_servers_def example_filled_entry)
  with number_names_slot [OF y(1), of "(0, 0)" "(0, 1)" 0 1] y(1) show ?thesis
    by (auto simp: example_servers_def)
qed

text \<open>
  C9. No request is lost when a client leaves: when the ordering service tells the servers to close the slots of a client, every server has
  taken all that the client ever sent to it, and the client sends nothing more to the log. This is what the exchange of good-byes between
  client, servers and ordering service is for.
\<close>

theorem closed_after_last_request:
  assumes "sys_run P subs y" and "p \<in> P" and "Storage_client_finalize c \<in> set (from_order y p)" and "q \<in> P"
  shows "sy_taken y q c = length (from_client y q c) \<and> (\<exists>cl. sy_client y c = Some cl \<and> cl_stopped cl)"
proof -
  have inv: "system_inv P y"
    using sys_run_inv [OF assms(1)] .
  then have "order_part P y"
    by (simp add: system_inv_def)
  from order_partD(3) [OF this assms(2,3)] have "left P y c"
    by simp
  with left_drained [OF inv this assms(4)] show ?thesis
    by (auto simp: left_def)
qed

theorem closed_after_last_request_witness:
  "\<exists>y. sys_run {(0, 0)} example_subs y \<and> from_client y (0, 0) 0 = [Client_finished 0] \<and> sy_taken y (0, 0) 0 = 1"
proof -
  obtain y where y: "sys_run {(0, 0)} example_subs y" "Storage_client_finalize 0 \<in> set (from_order y (0, 0))"
      "from_client y (0, 0) 0 = [Client_finished 0]"
    by (rule example_farewell)
  from closed_after_last_request [OF y(1) _ y(2)] y show ?thesis
    by auto
qed

end
